(* ===== verification/Prelude.thy ===== *)
theory Prelude
  imports Main "HOL-Library.Monad_Syntax"
begin

text \<open>
  Shared vocabulary of the development.

  The C++ sources are read as follows.  A class or struct is a record.  A method that mutates
  its object takes the object's state and returns the new one.  A computation that may touch
  memory outside an array, fail a \<^verbatim>\<open>SRT_ASSERT\<close> or run forever has a result of type
  \<open>option\<close>: \<^term>\<open>None\<close> is exactly "undefined behaviour, failed assertion or no return", so a
  theorem that an operation returns \<open>Some\<close> is at once memory safety, assertion safety and
  termination.  \<^verbatim>\<open>int\<close> and \<^verbatim>\<open>int32_t\<close> values are mathematical integers;
  that no intermediate value leaves the 32-bit range is proved where it matters
  (\<^theory_text>\<open>int32_ok\<close>).
\<close>

named_theorems seq_simps \<open>arithmetic of unwrapped sequence numbers\<close>
named_theorems store_simps \<open>reading and writing the arrays of the model\<close>

section \<open>C++ integers\<close>

type_synonym int32 = int
type_synonym seqno = int

definition int32_ok :: "int \<Rightarrow> bool" where
  "int32_ok x \<longleftrightarrow> - (2 ^ 31) \<le> x \<and> x \<le> 2 ^ 31 - 1"

definition uint32_ok :: "int \<Rightarrow> bool" where
  "uint32_ok x \<longleftrightarrow> 0 \<le> x \<and> x \<le> 2 ^ 32 - 1"

text \<open>Division and remainder of C++ truncate towards zero.\<close>

definition c_div :: "int \<Rightarrow> int \<Rightarrow> int" where
  "c_div a b = sgn a * sgn b * (\<bar>a\<bar> div \<bar>b\<bar>)"

definition c_mod :: "int \<Rightarrow> int \<Rightarrow> int" where
  "c_mod a b = sgn a * (\<bar>a\<bar> mod \<bar>b\<bar>)"

lemma c_mod_nonneg [simp]: "0 \<le> a \<Longrightarrow> 0 < b \<Longrightarrow> c_mod a b = a mod b"
  by (auto simp: c_mod_def sgn_if)

lemma c_div_nonneg [simp]: "0 \<le> a \<Longrightarrow> 0 < b \<Longrightarrow> c_div a b = a div b"
  by (cases "a = 0") (auto simp: c_div_def sgn_if)

lemma c_div_mod_eq: "c_div a b * b + c_mod a b = a"
proof (cases "b = 0")
  case True
  then show ?thesis by (simp add: c_div_def c_mod_def mult_sgn_abs)
next
  case False
  have "c_div a b * b + c_mod a b = sgn a * (\<bar>a\<bar> div \<bar>b\<bar> * (sgn b * b) + \<bar>a\<bar> mod \<bar>b\<bar>)"
    by (simp add: c_div_def c_mod_def algebra_simps)
  also have "sgn b * b = \<bar>b\<bar>" by (simp add: abs_sgn mult.commute)
  also have "\<bar>a\<bar> div \<bar>b\<bar> * \<bar>b\<bar> + \<bar>a\<bar> mod \<bar>b\<bar> = \<bar>a\<bar>" by simp
  finally show ?thesis by (simp add: sgn_mult_abs)
qed

section \<open>Residues\<close>

text \<open>Two integers closer than the modulus are equal when their residues are.\<close>

lemma mod_eq_near:
  fixes x y m :: int
  assumes "x mod m = y mod m" and "\<bar>x - y\<bar> < m"
  shows "x = y"
proof -
  from assms(1) have "m dvd x - y" by (simp add: mod_eq_dvd_iff)
  with assms(2) show ?thesis
    using zdvd_not_zless [of "\<bar>x - y\<bar>" m] by (cases "x = y") auto
qed

lemma mod_neq_near:
  fixes x y m :: int
  assumes "x \<noteq> y" and "\<bar>x - y\<bar> < m"
  shows "x mod m \<noteq> y mod m"
  using mod_eq_near [of x m y] assms by auto


section \<open>Event-driven components\<close>

text \<open>Running a component on a sequence of events, each a partial step of its state.\<close>

primrec run_events :: "('e \<Rightarrow> 's \<Rightarrow> 's option) \<Rightarrow> 'e list \<Rightarrow> 's \<Rightarrow> 's option" where
  "run_events step [] s = Some s"
| "run_events step (e # es) s = do { s \<leftarrow> step e s; run_events step es s }"

text \<open>The contract of a component whose operations keep an invariant and never fail on it.\<close>

locale safe_component =
  fixes inv :: "'s \<Rightarrow> bool" and ok :: "'e \<Rightarrow> bool" and step :: "'e \<Rightarrow> 's \<Rightarrow> 's option"
  assumes step_ok: "inv s \<Longrightarrow> ok e \<Longrightarrow> \<exists>s'. step e s = Some s' \<and> inv s'"
begin

lemma runs:
  assumes "inv s" and "list_all ok es"
  shows "\<exists>s'. run_events step es s = Some s' \<and> inv s'"
  using assms
proof (induction es arbitrary: s)
  case (Cons e es)
  then obtain s1 where "step e s = Some s1" "inv s1" using step_ok [of s e] by auto
  with Cons show ?case by auto
qed simp

lemma run_prefix:
  assumes "inv s" and "list_all ok (es @ fs)"
  shows "\<exists>t. run_events step es s = Some t \<and> inv t \<and> (\<exists>u. run_events step fs t = Some u \<and> inv u)"
  using runs [OF assms(1), of es] runs assms(2) by fastforce

end

end
