(* ===== verification/SeqNo.thy ===== *)
theory SeqNo
  imports Prelude
begin

text \<open>
  Sequence, acknowledgement and message numbers: \<^verbatim>\<open>CSeqNo\<close>, \<^verbatim>\<open>CAckNo\<close> and
  \<^verbatim>\<open>RollNumber\<close> of \<^verbatim>\<open>srtcore/common.h\<close>.

  The first section is the code.  The second introduces the device all later components use: a
  number is the residue \<^verbatim>\<open>sq X\<close> of an unwrapped, unbounded number \<open>X\<close>, and on
  numbers closer than the comparison threshold the circular operations are plain integer
  arithmetic of the unwrapped ones.
\<close>

section \<open>CSeqNo and CAckNo\<close>

definition SRT_SEQNO_NONE :: seqno where "SRT_SEQNO_NONE = - 1"

definition m_iSeqNoTH :: int where "m_iSeqNoTH = 0x3FFFFFFF"

definition m_iMaxSeqNo :: int where "m_iMaxSeqNo = 0x7FFFFFFF"

definition seqcmp :: "seqno \<Rightarrow> seqno \<Rightarrow> int" where
  "seqcmp seq1 seq2 = (if \<bar>seq1 - seq2\<bar> < m_iSeqNoTH then seq1 - seq2 else seq2 - seq1)"

definition seqlen :: "seqno \<Rightarrow> seqno \<Rightarrow> int" where
  "seqlen seq1 seq2 =
     (if seq1 \<le> seq2 then seq2 - seq1 + 1 else seq2 - seq1 + m_iMaxSeqNo + 2)"

definition seqoff :: "seqno \<Rightarrow> seqno \<Rightarrow> int" where
  "seqoff seq1 seq2 =
     (if \<bar>seq1 - seq2\<bar> < m_iSeqNoTH then seq2 - seq1
      else if seq1 < seq2 then seq2 - seq1 - m_iMaxSeqNo - 1
      else seq2 - seq1 + m_iMaxSeqNo + 1)"

definition incseq :: "seqno \<Rightarrow> seqno" where
  "incseq seq = (if seq = m_iMaxSeqNo then 0 else seq + 1)"

definition decseq :: "seqno \<Rightarrow> seqno" where
  "decseq seq = (if seq = 0 then m_iMaxSeqNo else seq - 1)"

definition incseq_by :: "seqno \<Rightarrow> int \<Rightarrow> seqno" where
  "incseq_by seq inc =
     (if m_iMaxSeqNo - seq \<ge> inc then seq + inc else seq - m_iMaxSeqNo + inc - 1)"

definition decseq_by :: "seqno \<Rightarrow> int \<Rightarrow> seqno" where
  "decseq_by seq dec =
     (if seq < dec then let left = dec - seq in m_iMaxSeqNo - left + 1 else seq - dec)"

definition maxseq :: "seqno \<Rightarrow> seqno \<Rightarrow> seqno" where
  "maxseq seq1 seq2 = (if seqcmp seq1 seq2 < 0 then seq2 else seq1)"

definition m_iMaxAckSeqNo :: int where "m_iMaxAckSeqNo = 0x7FFFFFFF"

definition incack :: "int \<Rightarrow> int" where
  "incack ackno = (if ackno = m_iMaxAckSeqNo then 0 else ackno + 1)"

text \<open>What the code takes for granted of every argument that is not \<^const>\<open>SRT_SEQNO_NONE\<close>.\<close>

definition seq_ok :: "seqno \<Rightarrow> bool" where
  "seq_ok s \<longleftrightarrow> 0 \<le> s \<and> s \<le> m_iMaxSeqNo"

lemmas seq_consts = m_iSeqNoTH_def m_iMaxSeqNo_def SRT_SEQNO_NONE_def
lemmas seq_ops = seqcmp_def seqlen_def seqoff_def incseq_def decseq_def
  incseq_by_def decseq_by_def maxseq_def Let_def

section \<open>RollNumber\<close>

text \<open>
  The template \<^verbatim>\<open>RollNumber<BITS, MIN>\<close> with its constant \<open>OVER = 2 ^ (BITS + 1)\<close>
  (\<^verbatim>\<open>Bits<BITS, 0>::mask + 1\<close>) and the minimum \<open>mn\<close> as arguments.  The number is a
  \<^verbatim>\<open>uint32_t\<close>: where the code can pass below zero the reduction modulo \<open>2 ^ 32\<close> and the
  cast to \<^verbatim>\<open>int32_t\<close> are written out.
\<close>

definition to_int32 :: "int \<Rightarrow> int" where
  "to_int32 x = (let u = x mod 2 ^ 32 in if u < 2 ^ 31 then u else u - 2 ^ 32)"

definition roll_half :: "int \<Rightarrow> int \<Rightarrow> int" where
  "roll_half over mn = (over - mn) div 2"

definition roll_Diff :: "int \<Rightarrow> int \<Rightarrow> int \<Rightarrow> int \<Rightarrow> int" where
  "roll_Diff over mn left right =
     (if left < right then
        (let diff = to_int32 (right - left);
             left' = (if diff \<ge> roll_half over mn then (left + (over - mn)) mod 2 ^ 32 else left)
         in to_int32 (left' - right))
      else
        (let diff = to_int32 (left - right);
             right' = (if diff \<ge> roll_half over mn then (right + (over - mn)) mod 2 ^ 32 else right)
         in to_int32 (left - right')))"

definition roll_less :: "int \<Rightarrow> int \<Rightarrow> int \<Rightarrow> int \<Rightarrow> bool" where
  "roll_less over mn number right =
     (let ndiff = to_int32 (number - right)
      in if ndiff < - roll_half over mn then False
         else if ndiff > roll_half over mn then True
         else ndiff < 0)"

definition roll_inc :: "int \<Rightarrow> int \<Rightarrow> int \<Rightarrow> int" where
  "roll_inc over mn number =
     (let n = (number + 1) mod 2 ^ 32 in if n > over - 1 then mn else n)"

definition roll_dec :: "int \<Rightarrow> int \<Rightarrow> int \<Rightarrow> int" where
  "roll_dec over mn number = (if number = mn then over - 1 else number - 1)"

definition roll_add :: "int \<Rightarrow> int \<Rightarrow> int \<Rightarrow> int \<Rightarrow> int" where
  "roll_add over mn number delta =
     (if - delta > number then (over - mn + number + delta) mod 2 ^ 32
      else let n = (number + delta) mod 2 ^ 32 in if n \<ge> over then n - (over - mn) else n)"

text \<open>\<^verbatim>\<open>typedef RollNumber<MSGNO_SEQ::size - 1, 1> MsgNo\<close>: 26-bit message numbers from 1.\<close>

definition msgno_over :: int where "msgno_over = 2 ^ 26"

section \<open>Unwrapped sequence numbers\<close>

definition sq :: "int \<Rightarrow> seqno" where
  "sq X = X mod 2 ^ 31"

lemma sq_ok [simp, intro]: "seq_ok (sq X)"
  using pos_mod_bound [of "2 ^ 31" X] pos_mod_sign [of "2 ^ 31" X]
  by (simp add: seq_ok_def sq_def m_iMaxSeqNo_def)

lemma sq_nonneg: "0 \<le> sq X"
  using pos_mod_sign [of "2 ^ 31" X] by (simp add: sq_def)

lemma sq_not_none [simp]: "\<not> sq X < 0" "sq X \<noteq> SRT_SEQNO_NONE" "SRT_SEQNO_NONE \<noteq> sq X"
  "sq X \<noteq> - 1"
  using pos_mod_sign [of "2 ^ 31" X] by (auto simp: sq_def SRT_SEQNO_NONE_def)

lemma sq_less: "sq X < 2147483648"
  using pos_mod_bound [of "2 ^ 31" X] by (simp add: sq_def)

lemmas sq_range = sq_nonneg sq_less

lemma sq_of_ok: "seq_ok s \<Longrightarrow> sq s = s"
  by (simp add: seq_ok_def sq_def m_iMaxSeqNo_def)

text \<open>The raw difference of two residues is the unwrapped one, up to one turn.\<close>

lemma sq_diff_cases:
  assumes "\<bar>X - Y\<bar> < 2 ^ 31"
  obtains "sq X - sq Y = X - Y" | "sq X - sq Y = X - Y - 2 ^ 31" "0 < X - Y"
    | "sq X - sq Y = X - Y + 2 ^ 31" "X - Y < 0"
proof -
  define k where "k = X div 2 ^ 31 - Y div 2 ^ 31"
  have e: "sq X - sq Y = X - Y - k * 2 ^ 31"
    by (simp add: sq_def k_def minus_div_mult_eq_mod [symmetric] algebra_simps)
  have b: "\<bar>sq X - sq Y\<bar> < 2 ^ 31"
    using sq_range [of X] sq_range [of Y] by simp
  have "k \<in> {-1, 0, 1}" using e b assms by (auto simp: abs_less_iff)
  with e b assms that show thesis by (auto simp: abs_less_iff)
qed

lemma seqoff_sq [seq_simps]:
  assumes "\<bar>X - Y\<bar> < m_iSeqNoTH"
  shows "seqoff (sq X) (sq Y) = Y - X"
proof -
  from assms have "\<bar>X - Y\<bar> < 2 ^ 31" by (simp add: m_iSeqNoTH_def)
  then show ?thesis
    by (rule sq_diff_cases) (use assms in \<open>auto simp: seqoff_def m_iSeqNoTH_def m_iMaxSeqNo_def\<close>)
qed

lemma seqcmp_sq_sgn:
  assumes "\<bar>X - Y\<bar> < m_iSeqNoTH"
  shows "sgn (seqcmp (sq X) (sq Y)) = sgn (X - Y)"
proof -
  from assms have "\<bar>X - Y\<bar> < 2 ^ 31" by (simp add: m_iSeqNoTH_def)
  then show ?thesis
    by (rule sq_diff_cases)
      (use assms in \<open>auto simp: seqcmp_def m_iSeqNoTH_def sgn_if\<close>)
qed

lemma sgn_int_iff:
  fixes a b :: int
  assumes "sgn a = sgn b"
  shows "a < 0 \<longleftrightarrow> b < 0" "a > 0 \<longleftrightarrow> b > 0" "a = 0 \<longleftrightarrow> b = 0" "a \<le> 0 \<longleftrightarrow> b \<le> 0" "a \<ge> 0 \<longleftrightarrow> b \<ge> 0"
  using assms by (auto simp: sgn_if split: if_splits)

lemma seqcmp_sq [seq_simps]:
  assumes "\<bar>X - Y\<bar> < m_iSeqNoTH"
  shows "seqcmp (sq X) (sq Y) < 0 \<longleftrightarrow> X < Y"
    "seqcmp (sq X) (sq Y) > 0 \<longleftrightarrow> X > Y"
    "seqcmp (sq X) (sq Y) = 0 \<longleftrightarrow> X = Y"
    "seqcmp (sq X) (sq Y) \<le> 0 \<longleftrightarrow> X \<le> Y"
    "seqcmp (sq X) (sq Y) \<ge> 0 \<longleftrightarrow> X \<ge> Y"
  using sgn_int_iff [OF seqcmp_sq_sgn [OF assms]] by auto

lemma sq_inject [seq_simps]: "\<bar>X - Y\<bar> < 2 ^ 31 \<Longrightarrow> sq X = sq Y \<longleftrightarrow> X = Y"
  using mod_eq_near [of X "2 ^ 31" Y] by (auto simp: sq_def)

lemma incseq_sq [simp]: "incseq (sq X) = sq (X + 1)"
proof -
  have "\<bar>(X + 1) - X\<bar> < 2 ^ 31" by simp
  then show ?thesis
    by (rule sq_diff_cases)
      (use sq_range [of X] sq_range [of "X + 1"] in \<open>auto simp: incseq_def m_iMaxSeqNo_def\<close>)
qed

lemma decseq_sq [simp]: "decseq (sq X) = sq (X - 1)"
proof -
  have "sq X = incseq (sq (X - 1))" by simp
  then show ?thesis
    using sq_range [of "X - 1"] by (auto simp: incseq_def decseq_def split: if_splits)
qed

lemma seqlen_sq [seq_simps]:
  assumes "X \<le> Y" and "Y - X < 2 ^ 31"
  shows "seqlen (sq X) (sq Y) = Y - X + 1"
proof -
  from assms have "\<bar>X - Y\<bar> < 2 ^ 31" by simp
  then show ?thesis
    by (rule sq_diff_cases) (use assms in \<open>auto simp: seqlen_def m_iMaxSeqNo_def\<close>)
qed

lemma incseq_by_sq [seq_simps]:
  assumes "0 \<le> n" and "n < 2 ^ 31"
  shows "incseq_by (sq X) n = sq (X + n)"
proof -
  have "\<bar>(X + n) - X\<bar> < 2 ^ 31" using assms by simp
  then show ?thesis
  proof (rule sq_diff_cases)
    assume "sq (X + n) - sq X = X + n - X"
    then show ?thesis using sq_ok [of "X + n"] by (simp add: incseq_by_def seq_ok_def)
  next
    assume "sq (X + n) - sq X = X + n - X - 2 ^ 31"
    then show ?thesis using sq_range [of "X + n"] by (simp add: incseq_by_def m_iMaxSeqNo_def)
  next
    assume "X + n - X < 0"
    with assms show ?thesis by simp
  qed
qed

lemma decseq_by_sq [seq_simps]:
  assumes "0 \<le> n" and "n < 2 ^ 31"
  shows "decseq_by (sq X) n = sq (X - n)"
proof -
  have "\<bar>X - (X - n)\<bar> < 2 ^ 31" using assms by simp
  then show ?thesis
  proof (rule sq_diff_cases)
    assume "sq X - sq (X - n) = X - (X - n)"
    then show ?thesis using sq_range [of "X - n"] by (simp add: decseq_by_def)
  next
    assume "sq X - sq (X - n) = X - (X - n) - 2 ^ 31"
    then show ?thesis using sq_ok [of "X - n"]
      by (simp add: decseq_by_def Let_def m_iMaxSeqNo_def seq_ok_def)
  next
    assume "X - (X - n) < 0"
    with assms show ?thesis by simp
  qed
qed

section \<open>Unwrapped roll numbers\<close>

definition rn :: "int \<Rightarrow> int \<Rightarrow> int \<Rightarrow> int" where
  "rn over mn X = mn + X mod (over - mn)"

lemma to_int32_small [simp]: "- (2 ^ 31) \<le> x \<Longrightarrow> x < 2 ^ 31 \<Longrightarrow> to_int32 x = x"
proof (cases "x < 0")
  case True
  moreover assume "- (2 ^ 31) \<le> x"
  ultimately have "(x + 2 ^ 32) mod 2 ^ 32 = x + 2 ^ 32" by (intro mod_pos_pos_trivial) auto
  then have "x mod 2 ^ 32 = x + 2 ^ 32" by simp
  with True \<open>- (2 ^ 31) \<le> x\<close> show ?thesis by (simp add: to_int32_def Let_def)
qed (simp add: to_int32_def Let_def)

lemma rn_range: "mn < over \<Longrightarrow> mn \<le> rn over mn X \<and> rn over mn X < over"
  using pos_mod_bound [of "over - mn" X] pos_mod_sign [of "over - mn" X] unfolding rn_def by linarith

lemma mod_diff_cases:
  fixes X Y m :: int
  assumes "\<bar>X - Y\<bar> < m"
  obtains "X mod m - Y mod m = X - Y" | "X mod m - Y mod m = X - Y - m" "0 < X - Y"
    | "X mod m - Y mod m = X - Y + m" "X - Y < 0"
proof -
  have m: "0 < m" using assms by auto
  have e: "X mod m - Y mod m = X - Y - (X div m - Y div m) * m"
    by (simp add: minus_div_mult_eq_mod [symmetric] algebra_simps)
  have b: "\<bar>X mod m - Y mod m\<bar> < m"
    using pos_mod_bound [OF m] pos_mod_sign [OF m] by (smt (verit))
  define k where "k = X div m - Y div m"
  have "\<bar>k * m\<bar> < 2 * m" using e b assms unfolding k_def by linarith
  then have "\<bar>k\<bar> < 2" using m by (simp add: abs_mult)
  then have "k = 0 \<or> k = 1 \<or> k = - 1" by auto
  with e b assms that show thesis by (auto simp: k_def [symmetric])
qed

lemma rn_diff_cases:
  assumes "\<bar>X - Y\<bar> < over - mn"
  obtains "rn over mn X - rn over mn Y = X - Y"
    | "rn over mn X - rn over mn Y = X - Y - (over - mn)" "0 < X - Y"
    | "rn over mn X - rn over mn Y = X - Y + (over - mn)" "X - Y < 0"
  using mod_diff_cases [OF assms] by (auto simp: rn_def)

lemma rn_eqI:
  assumes "mn \<le> a" "a < over" "\<exists>k. a = mn + Y + k * (over - mn)"
  shows "a = rn over mn Y"
proof -
  from assms(3) obtain k where "a = mn + Y + k * (over - mn)" ..
  then have k: "a - mn = Y + k * (over - mn)" by simp
  have "(a - mn) mod (over - mn) = Y mod (over - mn)" unfolding k by simp
  moreover have "(a - mn) mod (over - mn) = a - mn" using assms by simp
  ultimately show ?thesis by (simp add: rn_def)
qed

lemma rn_turn: "\<exists>k. rn over mn X = mn + X + k * (over - mn)"
  by (rule exI [of _ "- (X div (over - mn))"]) (simp add: rn_def minus_div_mult_eq_mod [symmetric])

lemma rn_shift:
  assumes "a = rn over mn X + d + j * (over - mn)" "mn \<le> a" "a < over"
  shows "a = rn over mn (X + d)"
proof -
  obtain k where "rn over mn X = mn + X + k * (over - mn)" using rn_turn by blast
  then have "a = mn + (X + d) + (k + j) * (over - mn)" using assms(1) by (simp add: algebra_simps)
  then show ?thesis using assms(2,3) rn_eqI by blast
qed

lemma roll_Diff_near:
  assumes "0 \<le> mn" "mn < over" "over \<le> 2 ^ 31" "\<bar>X - Y\<bar> < roll_half over mn"
  shows "roll_Diff over mn (rn over mn X) (rn over mn Y) = X - Y"
proof -
  have h: "2 * roll_half over mn \<le> over - mn" by (simp add: roll_half_def)
  then have "\<bar>X - Y\<bar> < over - mn" using assms by linarith
  then show ?thesis
    by (rule rn_diff_cases)
      (use assms h rn_range [OF assms(2), of X] rn_range [OF assms(2), of Y] in
        \<open>auto simp: roll_Diff_def Let_def\<close>)
qed

lemma roll_less_near:
  assumes "0 \<le> mn" "mn < over" "over \<le> 2 ^ 31" "\<bar>X - Y\<bar> < roll_half over mn"
  shows "roll_less over mn (rn over mn X) (rn over mn Y) \<longleftrightarrow> X < Y"
proof -
  have h: "2 * roll_half over mn \<le> over - mn" by (simp add: roll_half_def)
  then have "\<bar>X - Y\<bar> < over - mn" using assms by linarith
  then show ?thesis
    by (rule rn_diff_cases) (use assms h in \<open>auto simp: roll_less_def Let_def\<close>)
qed

lemma roll_step:
  assumes "0 \<le> mn" "mn < over" "over \<le> 2 ^ 31"
  shows "roll_inc over mn (rn over mn X) = rn over mn (X + 1)"
    "roll_dec over mn (rn over mn X) = rn over mn (X - 1)"
proof -
  let ?n = "rn over mn X"
  have r: "mn \<le> ?n" "?n < over" using rn_range [OF assms(2)] by auto
  have "roll_inc over mn ?n = (if ?n = over - 1 then mn else ?n + 1)"
    using r assms by (auto simp: roll_inc_def Let_def)
  moreover have "\<dots> = rn over mn (X + 1)"
    by (rule rn_shift [where j = "if ?n = over - 1 then - 1 else 0"]) (use r assms in auto)
  ultimately show "roll_inc over mn ?n = rn over mn (X + 1)" by simp
  have "roll_dec over mn ?n = rn over mn (X + - 1)"
    by (rule rn_shift [where j = "if ?n = mn then 1 else 0"]) (use r assms in \<open>auto simp: roll_dec_def\<close>)
  then show "roll_dec over mn ?n = rn over mn (X - 1)" by simp
qed

lemma roll_add_cases:
  assumes "0 \<le> mn" "mn < over" "over \<le> 2 ^ 31" "\<bar>k\<bar> < over - mn"
  shows "roll_add over mn (rn over mn X) k =
    (if 0 \<le> rn over mn X + k \<and> rn over mn X + k < mn then rn over mn X + k else rn over mn (X + k))"
proof -
  let ?n = "rn over mn X"
  have r: "mn \<le> ?n" "?n < over" using rn_range [OF assms(2)] by auto
  consider "?n + k < 0" | "0 \<le> ?n + k" "?n + k < mn" | "mn \<le> ?n + k" "?n + k < over" | "over \<le> ?n + k"
    by linarith
  then show ?thesis
  proof cases
    case 1
    have "over - mn + ?n + k = rn over mn (X + k)"
      by (rule rn_shift [where j = 1]) (use 1 r assms in auto)
    moreover have "(over - mn + ?n + k) mod 2 ^ 32 = over - mn + ?n + k" using 1 r assms by simp
    ultimately show ?thesis using 1 by (simp add: roll_add_def)
  next
    case 3
    have "?n + k = rn over mn (X + k)" by (rule rn_shift [where j = 0]) (use 3 in auto)
    then show ?thesis using 3 r assms by (auto simp: roll_add_def Let_def)
  next
    case 4
    have "?n + k - (over - mn) = rn over mn (X + k)"
      by (rule rn_shift [where j = "- 1"]) (use 4 r assms in auto)
    then show ?thesis using 4 r assms by (auto simp: roll_add_def Let_def)
  qed (use r assms in \<open>auto simp: roll_add_def Let_def\<close>)
qed

section \<open>Properties\<close>

text \<open>C24: comparison, offset and maximum of sequence numbers are those of the unwrapped numbers,
  however often they wrapped around, as long as the two are closer than the threshold.\<close>

theorem seqno_compare_unwrapped:
  assumes "\<bar>X - Y\<bar> < m_iSeqNoTH"
  shows "seqoff (sq X) (sq Y) = Y - X \<and> sgn (seqcmp (sq X) (sq Y)) = sgn (X - Y) \<and>
    maxseq (sq X) (sq Y) = sq (max X Y)"
  using assms seqoff_sq seqcmp_sq_sgn by (auto simp: maxseq_def seqcmp_sq)

theorem seqno_compare_unwrapped_witness:
  "seqoff 2147483647 2 = 3 \<and> sgn (seqcmp 2147483647 2) = - 1 \<and> maxseq 2147483647 2 = 2"
  using seqno_compare_unwrapped [of 2147483647 2147483650] by (simp add: sq_def m_iSeqNoTH_def)

text \<open>Moving a valid sequence number forward by \<open>k\<close> gives a valid number at offset \<open>k\<close> that
  moving back by \<open>k\<close> undoes, and the range between them has \<open>k + 1\<close> numbers.\<close>

theorem seqno_move_roundtrip:
  assumes "seq_ok s" and "0 \<le> k" and "k < m_iSeqNoTH"
  shows "seq_ok (incseq_by s k) \<and> decseq_by (incseq_by s k) k = s \<and>
    seqoff s (incseq_by s k) = k \<and> seqlen s (incseq_by s k) = k + 1"
proof -
  have k: "k < 2 ^ 31" using assms by (simp add: m_iSeqNoTH_def)
  have "incseq_by (sq s) k = sq (s + k)" "decseq_by (sq (s + k)) k = sq s" "seqoff (sq s) (sq (s + k)) = k"
    "seqlen (sq s) (sq (s + k)) = k + 1"
    using assms k by (simp_all add: seq_simps)
  then show ?thesis using assms(1) by (metis sq_of_ok sq_ok)
qed

theorem seqno_move_roundtrip_witness:
  "seq_ok (incseq_by 2147483647 5) \<and> decseq_by (incseq_by 2147483647 5) 5 = 2147483647 \<and>
    seqoff 2147483647 (incseq_by 2147483647 5) = 5 \<and> seqlen 2147483647 (incseq_by 2147483647 5) = 6"
  using seqno_move_roundtrip [of 2147483647 5] by (simp add: seq_ok_def seq_consts)

text \<open>On valid sequence numbers no result of the comparisons leaves the 32-bit range; the length
  of a range does exactly when the range is the whole circle, that is, when its first number
  follows its last.\<close>

theorem seqno_int32:
  assumes "seq_ok a" and "seq_ok b"
  shows "int32_ok (a - b) \<and> int32_ok (seqcmp a b) \<and> int32_ok (seqoff a b) \<and>
    (int32_ok (seqlen a b) \<longleftrightarrow> incseq b \<noteq> a)"
  using assms by (auto simp: seq_ok_def int32_ok_def seq_ops seq_consts)

theorem seqno_int32_witness: "int32_ok (seqlen 5 3) \<and> \<not> int32_ok (seqlen 5 4)"
  using seqno_int32 [of 5 3] seqno_int32 [of 5 4] by (simp add: seq_ok_def seq_consts incseq_def)

text \<open>Message numbers roll over like the unwrapped ones: on numbers less than half the range
  apart, difference and order are those of the unwrapped numbers, and increment and decrement step
  them by one.\<close>

theorem msgno_unwrapped:
  assumes "\<bar>X - Y\<bar> < roll_half msgno_over 1"
  shows "roll_Diff msgno_over 1 (rn msgno_over 1 X) (rn msgno_over 1 Y) = X - Y \<and>
    roll_less msgno_over 1 (rn msgno_over 1 X) (rn msgno_over 1 Y) = (X < Y) \<and>
    roll_inc msgno_over 1 (rn msgno_over 1 X) = rn msgno_over 1 (X + 1) \<and>
    roll_dec msgno_over 1 (rn msgno_over 1 X) = rn msgno_over 1 (X - 1)"
  using assms by (simp add: roll_Diff_near roll_less_near roll_step msgno_over_def)

theorem msgno_unwrapped_witness:
  "roll_Diff msgno_over 1 2 67108863 = 2 \<and> roll_less msgno_over 1 67108863 2 \<and>
    roll_inc msgno_over 1 67108863 = 1"
  using msgno_unwrapped [of 67108864 67108862] msgno_unwrapped [of 67108862 67108864]
  by (simp add: msgno_over_def roll_half_def rn_def)

text \<open>Adding an offset to a message number moves the unwrapped number by that offset, except that
  a decrement landing on 0 gives 0, which is no valid message number, in place of the last one.\<close>

theorem msgno_add:
  assumes "\<bar>k\<bar> < msgno_over - 1"
  shows "roll_add msgno_over 1 (rn msgno_over 1 X) k =
    (if rn msgno_over 1 X + k = 0 then 0 else rn msgno_over 1 (X + k))"
  using roll_add_cases [of 1 msgno_over k X] assms by (auto simp: msgno_over_def)

theorem msgno_add_witness:
  "roll_add msgno_over 1 5 (- 6) = 67108862 \<and> roll_add msgno_over 1 5 (- 5) = 0"
  using msgno_add [of "- 6" 4] msgno_add [of "- 5" 4] by (simp add: msgno_over_def rn_def)

end
