(* ===== verification/Intervals.thy ===== *)
theory Intervals
  imports Main
begin

text \<open>
  Lists of intervals of integers: what the loss containers of the sender and the receiver hold,
  as unwrapped sequence numbers.
\<close>

type_synonym ivl = "int \<times> int"

definition total :: "ivl list \<Rightarrow> int" where
  "total ns = (\<Sum>n\<leftarrow>ns. snd n - fst n + 1)"

definition elems :: "ivl list \<Rightarrow> int set" where
  "elems ns = (\<Union>n\<in>set ns. {fst n..snd n})"

abbreviation starts :: "ivl list \<Rightarrow> int set" where
  "starts ns \<equiv> fst ` set ns"

definition in_window :: "int \<Rightarrow> int \<Rightarrow> ivl list \<Rightarrow> bool" where
  "in_window A sz ns \<longleftrightarrow> (\<forall>n\<in>set ns. A \<le> fst n \<and> fst n \<le> snd n \<and> snd n < A + sz)"

definition by_start :: "ivl list \<Rightarrow> bool" where
  "by_start = sorted_wrt (\<lambda>a b. fst a < fst b)"

definition disjoint_ivls :: "ivl list \<Rightarrow> bool" where
  "disjoint_ivls = sorted_wrt (\<lambda>a b. snd a < fst b)"

lemma total_simps [simp]: "total [] = 0" "total (n # ns) = snd n - fst n + 1 + total ns"
  "total (xs @ ys) = total xs + total ys"
  by (simp_all add: total_def)

lemma elems_simps [simp]: "elems [] = {}" "elems (n # ns) = {fst n..snd n} \<union> elems ns"
  "elems (xs @ ys) = elems xs \<union> elems ys"
  by (auto simp: elems_def)

lemma in_window_simps [simp]: "in_window A sz []"
  "in_window A sz (n # ns) \<longleftrightarrow> (A \<le> fst n \<and> fst n \<le> snd n \<and> snd n < A + sz) \<and> in_window A sz ns"
  "in_window A sz (xs @ ys) \<longleftrightarrow> in_window A sz xs \<and> in_window A sz ys"
  by (auto simp: in_window_def)

lemma by_start_simps [simp]: "by_start []"
  "by_start (n # ns) \<longleftrightarrow> (\<forall>m\<in>set ns. fst n < fst m) \<and> by_start ns"
  "by_start (xs @ ys) \<longleftrightarrow> by_start xs \<and> by_start ys \<and> (\<forall>a\<in>set xs. \<forall>b\<in>set ys. fst a < fst b)"
  by (auto simp: by_start_def sorted_wrt_append)

lemma disjoint_ivls_simps [simp]: "disjoint_ivls []"
  "disjoint_ivls (n # ns) \<longleftrightarrow> (\<forall>m\<in>set ns. snd n < fst m) \<and> disjoint_ivls ns"
  "disjoint_ivls (xs @ ys) \<longleftrightarrow>
     disjoint_ivls xs \<and> disjoint_ivls ys \<and> (\<forall>a\<in>set xs. \<forall>b\<in>set ys. snd a < fst b)"
  by (auto simp: disjoint_ivls_def sorted_wrt_append)

lemma starts_before [simp]: "\<forall>m\<in>set ns. l < fst m \<Longrightarrow> l \<notin> starts ns"
  "\<forall>m\<in>set ns. fst m < l \<Longrightarrow> l \<notin> starts ns"
  by auto

lemma total_card: "disjoint_ivls ns \<Longrightarrow> \<forall>n\<in>set ns. fst n \<le> snd n \<Longrightarrow> total ns = int (card (elems ns))"
proof (induction ns)
  case (Cons n ns)
  have "{fst n..snd n} \<inter> elems ns = {}" using Cons.prems by (fastforce simp: elems_def)
  moreover have "finite (elems ns)" by (simp add: elems_def)
  ultimately have "card (elems (n # ns)) = card {fst n..snd n} + card (elems ns)"
    by (simp add: card_Un_disjoint)
  with Cons show ?case by simp
qed simp

text \<open>Taking one number out of a list of intervals.\<close>

fun ivls_remove :: "ivl list \<Rightarrow> int \<Rightarrow> ivl list" where
  "ivls_remove [] X = []"
| "ivls_remove ((l, h) # ns) X =
     (if X < l \<or> h < X then (l, h) # ivls_remove ns X
      else (if l < X then [(l, X - 1)] else []) @ (if X < h then [(X + 1, h)] else []) @ ns)"

lemma ivls_remove_elems: "disjoint_ivls ns \<Longrightarrow> \<forall>n\<in>set ns. fst n \<le> snd n \<Longrightarrow> elems (ivls_remove ns X) = elems ns - {X}"
proof (induction ns X rule: ivls_remove.induct)
  case (2 l h ns X)
  have "X \<notin> elems ns" if "l \<le> X" "X \<le> h" using 2(2,3) that by (force simp: elems_def)
  with 2 show ?case by auto
qed simp

lemma ivls_remove_disjoint: "disjoint_ivls ns \<Longrightarrow> \<forall>n\<in>set ns. fst n \<le> snd n \<Longrightarrow>
   disjoint_ivls (ivls_remove ns X) \<and> (\<forall>n\<in>set (ivls_remove ns X). fst n \<le> snd n \<and> (\<exists>m\<in>set ns. fst m \<le> fst n \<and> snd n \<le> snd m))"
proof (induction ns X rule: ivls_remove.induct)
  case (2 l h ns X)
  show ?case
  proof (cases "X < l \<or> h < X")
    case True
    with 2 have IH: "disjoint_ivls (ivls_remove ns X)"
      "\<forall>n\<in>set (ivls_remove ns X). fst n \<le> snd n \<and> (\<exists>m\<in>set ns. fst m \<le> fst n \<and> snd n \<le> snd m)" by auto
    have "\<forall>n\<in>set (ivls_remove ns X). h < fst n" using IH(2) 2(2) by fastforce
    then show ?thesis using True IH 2(3) by auto
  next
    case False
    then show ?thesis using 2(2,3) by auto
  qed
qed simp

end
