(* ===== verification/Cells.thy ===== *)
theory Cells
  imports SeqNo Intervals
begin

text \<open>
  What the two loss lists of \<^verbatim>\<open>srtcore/list.cpp\<close> share: ranges of numbers kept in the cells of a circular
  array.  The cell of a range is found from its first number, modulo the size of the array.
\<close>

definition SRT_ASSERT :: "bool \<Rightarrow> unit option" where
  "SRT_ASSERT c = (if c then Some () else None)"

definition posn :: "int \<Rightarrow> int \<Rightarrow> int \<Rightarrow> int" where
  "posn c sz X = (c + X) mod sz"

primrec first_pos :: "(int \<Rightarrow> int) \<Rightarrow> ivl list \<Rightarrow> int \<Rightarrow> int" where
  "first_pos P [] q = q"
| "first_pos P (n # ns) q = P (fst n)"

lemma posn_range [simp]: "0 < sz \<Longrightarrow> 0 \<le> posn c sz X" "0 < sz \<Longrightarrow> posn c sz X < sz"
  by (auto simp: posn_def)

lemma posn_not_neg [simp]: "0 < sz \<Longrightarrow> posn c sz X \<noteq> - 1" "0 < sz \<Longrightarrow> - 1 \<noteq> posn c sz X"
  "0 < sz \<Longrightarrow> \<not> posn c sz X < 0"
  using posn_range(1) [of sz c X] by linarith+

lemma posn_inject:
  assumes "\<bar>X - Y\<bar> < sz"
  shows "posn c sz X = posn c sz Y \<longleftrightarrow> X = Y"
  using mod_eq_near [of "c + X" sz "c + Y"] assms by (auto simp: posn_def)

lemma posn_add: "(posn c sz X + k) mod sz = posn c sz (X + k)"
  by (simp add: posn_def mod_add_left_eq add.assoc)

lemma first_pos_append [simp]: "first_pos P (xs @ ys) q = first_pos P xs (first_pos P ys q)"
  by (cases xs) auto

text \<open>A position of the window that starts no range is not the cell of any range.\<close>

lemma posn_notin:
  assumes "in_window A sz ns" and "A \<le> X" and "X < A + sz" and "X \<notin> starts ns"
  shows "posn c sz X \<notin> posn c sz ` starts ns"
proof
  assume "posn c sz X \<in> posn c sz ` starts ns"
  then obtain n where n: "n \<in> set ns" "posn c sz X = posn c sz (fst n)" by auto
  from assms n(1) have "\<bar>X - fst n\<bar> < sz" by (auto simp: in_window_def abs_less_iff)
  with n assms(4) show False by (auto simp: posn_inject)
qed

end
