(* ===== verification/SndLossList.thy ===== *)
theory SndLossList
  imports Cells
begin

text \<open>
  The sender's loss list, \<^verbatim>\<open>CSndLossList\<close> of \<^verbatim>\<open>srtcore/list.cpp\<close>: a list of
  ranges of lost sequence numbers, linked through the cells of a fixed array.  The cell of a range
  is found from the distance of its first number to the head's, modulo the array size.

  \<^item> The first section is the code.  The array is a function on positions; reading or writing a
    position outside \<open>[0, m_iSize)\<close> is \<^term>\<open>None\<close>.  The loops are
    \<^theory_text>\<open>partial_function (option)\<close>, so a run through a corrupt list that never ends is
    \<^term>\<open>None\<close> as well.  The mutex makes every public method one atomic step.
  \<^item> The second gives the abstraction: a list of intervals of unwrapped numbers.
  \<^item> The rest proves that each method implements its effect on that list, returns, and stays inside
    the array, as long as all numbers it holds fit one window of the array's size.
\<close>

section \<open>The code\<close>

record Seq =
  seqstart :: seqno
  seqend :: seqno
  inext :: int

record CSndLossList =
  m_caSeq :: "int \<Rightarrow> Seq"
  m_iHead :: int
  m_iLength :: int
  m_iSize :: int
  m_iLastInsertPos :: int

definition rd :: "CSndLossList \<Rightarrow> int \<Rightarrow> Seq option" where
  "rd s i = (if 0 \<le> i \<and> i < m_iSize s then Some (m_caSeq s i) else None)"

definition wr :: "CSndLossList \<Rightarrow> int \<Rightarrow> (Seq \<Rightarrow> Seq) \<Rightarrow> CSndLossList option" where
  "wr s i f = (if 0 \<le> i \<and> i < m_iSize s
     then Some (s\<lparr>m_caSeq := (m_caSeq s)(i := f (m_caSeq s i))\<rparr>) else None)"

text \<open>The constructor leaves the links of the fresh cells uninitialised: \<open>junk\<close>.\<close>

definition CSndLossList_new :: "(int \<Rightarrow> int) \<Rightarrow> int \<Rightarrow> CSndLossList" where
  "CSndLossList_new junk sz =
     \<lparr>m_caSeq = (\<lambda>i. \<lparr>seqstart = SRT_SEQNO_NONE, seqend = SRT_SEQNO_NONE, inext = junk i\<rparr>),
      m_iHead = - 1, m_iLength = 0, m_iSize = sz, m_iLastInsertPos = - 1\<rparr>"

definition insertHead :: "int \<Rightarrow> seqno \<Rightarrow> seqno \<Rightarrow> CSndLossList \<Rightarrow> CSndLossList option" where
  "insertHead pos seqno1 seqno2 s = do {
     SRT_ASSERT (pos \<ge> 0);
     s \<leftarrow> wr s pos (\<lambda>c. c\<lparr>seqstart := seqno1\<rparr>);
     c \<leftarrow> rd s pos;
     SRT_ASSERT (seqend c = SRT_SEQNO_NONE);
     s \<leftarrow> (if seqno2 \<noteq> seqno1 then wr s pos (\<lambda>c. c\<lparr>seqend := seqno2\<rparr>) else Some s);
     s \<leftarrow> wr s pos (\<lambda>c. c\<lparr>inext := m_iHead s\<rparr>);
     Some (s\<lparr>m_iHead := pos, m_iLastInsertPos := pos,
             m_iLength := m_iLength s + seqlen seqno1 seqno2\<rparr>) }"

definition insertAfter :: "int \<Rightarrow> int \<Rightarrow> seqno \<Rightarrow> seqno \<Rightarrow> CSndLossList \<Rightarrow> CSndLossList option" where
  "insertAfter pos pos_after seqno1 seqno2 s = do {
     s \<leftarrow> wr s pos (\<lambda>c. c\<lparr>seqstart := seqno1\<rparr>);
     c \<leftarrow> rd s pos;
     SRT_ASSERT (seqend c = SRT_SEQNO_NONE);
     s \<leftarrow> (if seqno2 \<noteq> seqno1 then wr s pos (\<lambda>c. c\<lparr>seqend := seqno2\<rparr>) else Some s);
     a \<leftarrow> rd s pos_after;
     s \<leftarrow> wr s pos (\<lambda>c. c\<lparr>inext := inext a\<rparr>);
     s \<leftarrow> wr s pos_after (\<lambda>c. c\<lparr>inext := pos\<rparr>);
     Some (s\<lparr>m_iLastInsertPos := pos, m_iLength := m_iLength s + seqlen seqno1 seqno2\<rparr>) }"

definition coalesce_with :: "int \<Rightarrow> int \<Rightarrow> CSndLossList \<Rightarrow> CSndLossList option" where
  "coalesce_with loc i s = do {
     l \<leftarrow> rd s loc;
     n \<leftarrow> rd s i;
     s \<leftarrow> (if seqend n \<noteq> SRT_SEQNO_NONE then
             if seqcmp (seqend n) (seqend l) > 0 then
               wr (if seqcmp (seqend l) (seqstart n) \<ge> 0
                   then s\<lparr>m_iLength := m_iLength s - seqlen (seqstart n) (seqend l)\<rparr> else s)
                  loc (\<lambda>c. c\<lparr>seqend := seqend n\<rparr>)
             else Some (s\<lparr>m_iLength := m_iLength s - seqlen (seqstart n) (seqend n)\<rparr>)
           else if seqstart n = incseq (seqend l) then wr s loc (\<lambda>c. c\<lparr>seqend := seqstart n\<rparr>)
           else Some (s\<lparr>m_iLength := m_iLength s - 1\<rparr>));
     s \<leftarrow> wr s i (\<lambda>c. c\<lparr>seqstart := SRT_SEQNO_NONE, seqend := SRT_SEQNO_NONE\<rparr>);
     n \<leftarrow> rd s i;
     wr s loc (\<lambda>c. c\<lparr>inext := inext n\<rparr>) }"

partial_function (option) coalesce :: "int \<Rightarrow> CSndLossList \<Rightarrow> CSndLossList option" where
  "coalesce loc s = do {
     l \<leftarrow> rd s loc;
     if inext l \<noteq> - 1 \<and> seqend l \<noteq> SRT_SEQNO_NONE then do {
       n \<leftarrow> rd s (inext l);
       if seqcmp (seqstart n) (incseq (seqend l)) > 0 then Some s
       else do { s' \<leftarrow> coalesce_with loc (inext l) s; coalesce loc s' }
     } else Some s }"

declare coalesce.simps [code]

definition updateElement ::
    "int \<Rightarrow> seqno \<Rightarrow> seqno \<Rightarrow> CSndLossList \<Rightarrow> (bool \<times> CSndLossList) option" where
  "updateElement pos seqno1 seqno2 s0 = (
     let s = s0\<lparr>m_iLastInsertPos := pos\<rparr> in
     if seqno2 = SRT_SEQNO_NONE \<or> seqno2 = seqno1 then Some (False, s)
     else do {
       c \<leftarrow> rd s pos;
       if seqend c = SRT_SEQNO_NONE then do {
         s \<leftarrow> wr (s\<lparr>m_iLength := m_iLength s + (seqlen seqno1 seqno2 - 1)\<rparr>) pos
                (\<lambda>c. c\<lparr>seqend := seqno2\<rparr>);
         Some (True, s) }
       else if seqcmp seqno2 (seqend c) \<le> 0 then Some (False, s)
       else do {
         s \<leftarrow> wr (s\<lparr>m_iLength := m_iLength s + (seqlen (seqend c) seqno2 - 1)\<rparr>) pos
                (\<lambda>c. c\<lparr>seqend := seqno2\<rparr>);
         Some (True, s) } })"

text \<open>The search loop that both \<^verbatim>\<open>insert\<close> and \<^verbatim>\<open>removeUpTo\<close> contain: step over the
  cells while the next one starts before \<open>seqno\<close>.\<close>

partial_function (option) prior_node :: "seqno \<Rightarrow> CSndLossList \<Rightarrow> int \<Rightarrow> int option" where
  "prior_node seqno s i = do {
     c \<leftarrow> rd s i;
     if inext c = - 1 then Some i
     else do {
       n \<leftarrow> rd s (inext c);
       if seqcmp (seqstart n) seqno < 0 then prior_node seqno s (inext c) else Some i } }"

declare prior_node.simps [code]

definition search_start :: "seqno \<Rightarrow> CSndLossList \<Rightarrow> int option" where
  "search_start seqno1 s = (
     if m_iLastInsertPos s \<noteq> - 1 then do {
       c \<leftarrow> rd s (m_iLastInsertPos s);
       Some (if seqcmp (seqstart c) seqno1 < 0 then m_iLastInsertPos s else m_iHead s) }
     else Some (m_iHead s))"

text \<open>The branch of \<^verbatim>\<open>insert\<close> for \<open>offset > 0\<close> when no range starts at \<open>seqno1\<close>; the
  first component is the position to coalesce from, or \<^term>\<open>None\<close> when nothing changed.\<close>

definition insert_behind ::
    "int \<Rightarrow> seqno \<Rightarrow> seqno \<Rightarrow> CSndLossList \<Rightarrow> (int option \<times> CSndLossList) option" where
  "insert_behind loc seqno1 seqno2 s = do {
     start \<leftarrow> search_start seqno1 s;
     i \<leftarrow> prior_node seqno1 s start;
     c \<leftarrow> rd s i;
     let send = (if seqend c = SRT_SEQNO_NONE then seqstart c else seqend c);
     if seqcmp send seqno1 < 0 \<and> incseq send \<noteq> seqno1 then do {
       s \<leftarrow> insertAfter loc i seqno1 seqno2 s;
       Some (Some loc, s) }
     else let s = s\<lparr>m_iLastInsertPos := i\<rparr> in
       if seqcmp send seqno2 \<ge> 0 then Some (None, s)
       else do {
         s \<leftarrow> wr (s\<lparr>m_iLength := m_iLength s + (seqlen send seqno2 - 1)\<rparr>) i
                (\<lambda>c. c\<lparr>seqend := seqno2\<rparr>);
         Some (Some i, s) } }"

definition insert_at ::
    "int \<Rightarrow> int \<Rightarrow> seqno \<Rightarrow> seqno \<Rightarrow> CSndLossList \<Rightarrow> (int option \<times> CSndLossList) option" where
  "insert_at offset loc seqno1 seqno2 s = (
     if offset < 0 then do {
       s \<leftarrow> insertHead loc seqno1 seqno2 s;
       Some (Some loc, s) }
     else if offset > 0 then do {
       c \<leftarrow> rd s loc;
       if seqno1 = seqstart c then do {
         (updated, s) \<leftarrow> updateElement loc seqno1 seqno2 s;
         Some (if updated then Some loc else None, s) }
       else insert_behind loc seqno1 seqno2 s }
     else do {
       (updated, s) \<leftarrow> updateElement (m_iHead s) seqno1 seqno2 s;
       Some (if updated then Some loc else None, s) })"

definition insert_loss :: "seqno \<Rightarrow> seqno \<Rightarrow> CSndLossList \<Rightarrow> (int \<times> CSndLossList) option" where
  "insert_loss seqno1 seqno2 s = (
     if seqno1 < 0 \<or> seqno2 < 0 then Some (0, s)
     else let inserted_range = seqlen seqno1 seqno2 in
     if inserted_range \<le> 0 \<or> inserted_range \<ge> m_iSize s then Some (0, s)
     else if m_iLength s = 0 then do {
       s \<leftarrow> insertHead 0 seqno1 seqno2 s;
       Some (m_iLength s, s) }
     else do {
       h \<leftarrow> rd s (m_iHead s);
       let origlen = m_iLength s;
       let offset = seqoff (seqstart h) seqno1;
       if offset \<ge> m_iSize s then Some (0, s)
       else let loc = c_mod (m_iHead s + offset + m_iSize s) (m_iSize s);
                offset_seqno2 = seqoff (seqstart h) seqno2;
                loc_seqno2 = c_mod (m_iHead s + offset_seqno2 + m_iSize s) (m_iSize s) in
       if loc < 0 \<and> loc_seqno2 < 0 then Some (0, s)
       else do {
         (r, s) \<leftarrow> insert_at offset (if loc < 0 then loc_seqno2 else loc) seqno1 seqno2 s;
         case r of None \<Rightarrow> Some (0, s)
         | Some loc \<Rightarrow> do {
             s \<leftarrow> coalesce loc s;
             Some (m_iLength s - origlen, s) } } })"

text \<open>The last loop of \<^verbatim>\<open>removeUpTo\<close>: clear the cells from \<open>h\<close> to the new head.\<close>

partial_function (option) clear_nodes :: "int \<Rightarrow> CSndLossList \<Rightarrow> CSndLossList option" where
  "clear_nodes h s = (
     if h = m_iHead s then Some s
     else do {
       c \<leftarrow> rd s h;
       s1 \<leftarrow> (if seqend c \<noteq> SRT_SEQNO_NONE
              then wr (s\<lparr>m_iLength := m_iLength s - seqlen (seqstart c) (seqend c)\<rparr>) h
                     (\<lambda>c. c\<lparr>seqend := SRT_SEQNO_NONE\<rparr>)
              else Some (s\<lparr>m_iLength := m_iLength s - 1\<rparr>));
       s2 \<leftarrow> wr s1 h (\<lambda>c. c\<lparr>seqstart := SRT_SEQNO_NONE\<rparr>);
       let s3 = (if m_iLastInsertPos s2 = h then s2\<lparr>m_iLastInsertPos := - 1\<rparr> else s2);
       c2 \<leftarrow> rd s3 h;
       clear_nodes (inext c2) s3 })"

declare clear_nodes.simps [code]

text \<open>Moving the tail of a range into the following cell, as \<^verbatim>\<open>removeUpTo\<close> and
  \<^verbatim>\<open>popLostSeq\<close> do: the cell at \<open>loc\<close> gets the first number \<open>seq\<close> and, when the old end
  \<open>fin\<close> is later, that end.\<close>

definition put_tail :: "int \<Rightarrow> seqno \<Rightarrow> seqno \<Rightarrow> CSndLossList \<Rightarrow> CSndLossList option" where
  "put_tail loc seq fin s = do {
     s \<leftarrow> wr s loc (\<lambda>c. c\<lparr>seqstart := seq\<rparr>);
     if seqcmp fin seq > 0 then wr s loc (\<lambda>c. c\<lparr>seqend := fin\<rparr>) else Some s }"

definition remove_head :: "int \<Rightarrow> seqno \<Rightarrow> CSndLossList \<Rightarrow> CSndLossList option" where
  "remove_head loc0 seqno s = do {
     h \<leftarrow> rd s (m_iHead s);
     (loc, s) \<leftarrow> (if seqend h = SRT_SEQNO_NONE then Some (inext h, s)
       else do {
         let loc = c_mod (loc0 + 1) (m_iSize s);
         s \<leftarrow> put_tail loc (incseq seqno) (seqend h) s;
         s \<leftarrow> wr s (m_iHead s) (\<lambda>c. c\<lparr>seqend := SRT_SEQNO_NONE\<rparr>);
         h' \<leftarrow> rd s (m_iHead s);
         s \<leftarrow> wr s loc (\<lambda>c. c\<lparr>inext := inext h'\<rparr>);
         Some (loc, s) });
     s \<leftarrow> wr s (m_iHead s) (\<lambda>c. c\<lparr>seqstart := SRT_SEQNO_NONE\<rparr>);
     let s = (if m_iLastInsertPos s = m_iHead s then s\<lparr>m_iLastInsertPos := - 1\<rparr> else s);
     Some (s\<lparr>m_iHead := loc, m_iLength := m_iLength s - 1\<rparr>) }"

definition remove_behind :: "int \<Rightarrow> seqno \<Rightarrow> CSndLossList \<Rightarrow> CSndLossList option" where
  "remove_behind loc seqno s = do {
     let h = m_iHead s;
     let loc1 = c_mod (loc + 1) (m_iSize s);
     c \<leftarrow> rd s loc;
     s \<leftarrow> (if seqno = seqstart c then
             if seqend c = SRT_SEQNO_NONE then Some (s\<lparr>m_iHead := inext c\<rparr>)
             else do {
               s \<leftarrow> put_tail loc1 (incseq seqno) (seqend c) s;
               let s = s\<lparr>m_iHead := loc1\<rparr>;
               t \<leftarrow> rd s loc;
               s \<leftarrow> wr s loc1 (\<lambda>x. x\<lparr>inext := inext t\<rparr>);
               wr s loc (\<lambda>x. x\<lparr>inext := loc1, seqend := SRT_SEQNO_NONE\<rparr>) }
           else do {
             i \<leftarrow> prior_node seqno s (m_iHead s);
             n \<leftarrow> rd s i;
             if seqend n = SRT_SEQNO_NONE then Some (s\<lparr>m_iHead := inext n\<rparr>)
             else if seqcmp (seqend n) seqno > 0 then do {
               s \<leftarrow> put_tail loc1 (incseq seqno) (seqend n) s;
               s \<leftarrow> wr s i (\<lambda>x. x\<lparr>seqend := seqno\<rparr>);
               n \<leftarrow> rd s i;
               s \<leftarrow> wr s loc1 (\<lambda>x. x\<lparr>inext := inext n\<rparr>);
               s \<leftarrow> wr s i (\<lambda>x. x\<lparr>inext := loc1\<rparr>);
               Some (s\<lparr>m_iHead := loc1\<rparr>) }
             else Some (s\<lparr>m_iHead := inext n\<rparr>) });
     clear_nodes h s }"

definition removeUpTo :: "seqno \<Rightarrow> CSndLossList \<Rightarrow> CSndLossList option" where
  "removeUpTo seqno s = (
     if m_iLength s = 0 then Some s
     else do {
       h \<leftarrow> rd s (m_iHead s);
       let offset = seqoff (seqstart h) seqno;
       let loc = c_mod (m_iHead s + offset + m_iSize s) (m_iSize s);
       if offset = 0 then remove_head loc seqno s
       else if offset > 0 then remove_behind loc seqno s
       else Some s })"

definition getLossLength :: "CSndLossList \<Rightarrow> int" where
  "getLossLength s = m_iLength s"

definition popLostSeq :: "CSndLossList \<Rightarrow> (seqno \<times> CSndLossList) option" where
  "popLostSeq s = (
     if m_iLength s = 0 then do {
       SRT_ASSERT (m_iHead s = - 1);
       Some (SRT_SEQNO_NONE, s) }
     else do {
       let s = (if m_iLastInsertPos s = m_iHead s then s\<lparr>m_iLastInsertPos := - 1\<rparr> else s);
       h \<leftarrow> rd s (m_iHead s);
       let seqno = seqstart h;
       s \<leftarrow> (if seqend h = SRT_SEQNO_NONE then do {
               s \<leftarrow> wr s (m_iHead s) (\<lambda>x. x\<lparr>seqstart := SRT_SEQNO_NONE\<rparr>);
               c \<leftarrow> rd s (m_iHead s);
               Some (s\<lparr>m_iHead := inext c\<rparr>) }
             else do {
               let loc = c_mod (m_iHead s + 1) (m_iSize s);
               s \<leftarrow> put_tail loc (incseq seqno) (seqend h) s;
               s \<leftarrow> wr s (m_iHead s)
                     (\<lambda>x. x\<lparr>seqstart := SRT_SEQNO_NONE, seqend := SRT_SEQNO_NONE\<rparr>);
               c \<leftarrow> rd s (m_iHead s);
               s \<leftarrow> wr s loc (\<lambda>x. x\<lparr>inext := inext c\<rparr>);
               Some (s\<lparr>m_iHead := loc\<rparr>) });
       Some (seqno, s\<lparr>m_iLength := m_iLength s - 1\<rparr>) })"

section \<open>The abstraction\<close>

definition cell :: "ivl \<Rightarrow> int \<Rightarrow> Seq" where
  "cell n q = \<lparr>seqstart = sq (fst n),
     seqend = (if fst n = snd n then SRT_SEQNO_NONE else sq (snd n)), inext = q\<rparr>"

primrec linked :: "(int \<Rightarrow> Seq) \<Rightarrow> (int \<Rightarrow> int) \<Rightarrow> ivl list \<Rightarrow> int \<Rightarrow> bool" where
  "linked f P [] q = True"
| "linked f P (n # ns) q = (f (P (fst n)) = cell n (first_pos P ns q) \<and> linked f P ns q)"

definition shape :: "int \<Rightarrow> int \<Rightarrow> ivl list \<Rightarrow> CSndLossList \<Rightarrow> bool" where
  "shape c A ns s \<longleftrightarrow> (let sz = m_iSize s; P = posn c sz in
     0 < sz \<and> sz < m_iSeqNoTH \<and> in_window A sz ns \<and> by_start ns \<and>
     linked (m_caSeq s) P ns (- 1) \<and> m_iHead s = first_pos P ns (- 1) \<and>
     (\<forall>p. 0 \<le> p \<and> p < sz \<and> p \<notin> P ` starts ns \<longrightarrow>
        seqstart (m_caSeq s p) = SRT_SEQNO_NONE \<and> seqend (m_caSeq s p) = SRT_SEQNO_NONE) \<and>
     m_iLength s = total ns \<and>
     (m_iLastInsertPos s = - 1 \<or> m_iLastInsertPos s \<in> P ` starts ns))"

definition rep :: "int \<Rightarrow> int \<Rightarrow> ivl list \<Rightarrow> CSndLossList \<Rightarrow> bool" where
  "rep c A ns s \<longleftrightarrow> shape c A ns s \<and> disjoint_ivls ns"

lemma linked_append [simp]:
  "linked f P (xs @ ys) q \<longleftrightarrow> linked f P xs (first_pos P ys q) \<and> linked f P ys q"
proof (induction xs)
  case (Cons x xs)
  then show ?case by (cases xs) auto
qed simp

lemma linked_upd [simp]: "p \<notin> P ` starts ns \<Longrightarrow> linked (f(p := v)) P ns q = linked f P ns q"
  by (induction ns) auto

lemma linked_cell: "linked f P ns q \<Longrightarrow> n \<in> set ns \<Longrightarrow> \<exists>r. f (P (fst n)) = cell n r"
  by (induction ns) auto

lemma cell_sel [simp]: "seqstart (cell n q) = sq (fst n)"
  "seqend (cell n q) = (if fst n = snd n then SRT_SEQNO_NONE else sq (snd n))" "inext (cell n q) = q"
  by (simp_all add: cell_def)

lemmas shape_defs = shape_def Let_def

lemma shape_sz: "shape c A ns s \<Longrightarrow> 0 < m_iSize s \<and> m_iSize s < m_iSeqNoTH"
  by (simp add: shape_defs)

lemma rd_in [simp]: "0 \<le> i \<Longrightarrow> i < m_iSize s \<Longrightarrow> rd s i = Some (m_caSeq s i)"
  by (simp add: rd_def)

lemma wr_in [simp]: "0 \<le> i \<Longrightarrow> i < m_iSize s \<Longrightarrow>
    wr s i f = Some (s\<lparr>m_caSeq := (m_caSeq s)(i := f (m_caSeq s i))\<rparr>)"
  by (simp add: wr_def)


abbreviation mk :: "(int \<Rightarrow> Seq) \<Rightarrow> int \<Rightarrow> int \<Rightarrow> int \<Rightarrow> int \<Rightarrow> CSndLossList" where
  "mk f hp len sz li \<equiv>
     \<lparr>m_caSeq = f, m_iHead = hp, m_iLength = len, m_iSize = sz, m_iLastInsertPos = li\<rparr>"

text \<open>A cell that belongs to no range of the list.\<close>

definition blank :: "Seq \<Rightarrow> bool" where
  "blank c \<longleftrightarrow> seqstart c = SRT_SEQNO_NONE \<and> seqend c = SRT_SEQNO_NONE"

lemma shape_mk:
  "shape c A ns (mk f hp len sz li) \<longleftrightarrow>
     0 < sz \<and> sz < m_iSeqNoTH \<and> in_window A sz ns \<and> by_start ns \<and>
     linked f (posn c sz) ns (- 1) \<and> hp = first_pos (posn c sz) ns (- 1) \<and>
     (\<forall>p. 0 \<le> p \<and> p < sz \<and> p \<notin> posn c sz ` starts ns \<longrightarrow> blank (f p)) \<and>
     len = total ns \<and> (li = - 1 \<or> li \<in> posn c sz ` starts ns)"
  by (simp add: shape_defs blank_def)

lemma coalesce_with_step:
  assumes sh: "shape c A (xs @ (l, h) # (l2, h2) # ys) (mk f hp len sz (posn c sz l))"
    and lh: "l < h" and adj: "l2 \<le> h + 1"
  shows "\<exists>f' len'. coalesce_with (posn c sz l) (posn c sz l2) (mk f hp len sz (posn c sz l)) =
      Some (mk f' hp len' sz (posn c sz l)) \<and>
    shape c A (xs @ (l, max h h2) # ys) (mk f' hp len' sz (posn c sz l))"
proof -
  define P where "P = posn c sz"
  from sh have *: "0 < sz" "sz < m_iSeqNoTH" "in_window A sz (xs @ (l, h) # (l2, h2) # ys)"
      "by_start (xs @ (l, h) # (l2, h2) # ys)" "f (P l) = cell (l, h) (P l2)"
      "f (P l2) = cell (l2, h2) (first_pos P ys (- 1))"
      "len = total (xs @ (l, h) # (l2, h2) # ys)"
    by (auto simp: shape_mk P_def)
  then have ne: "P l \<noteq> P l2" by (auto simp: P_def posn_inject)
  have near: "\<bar>h2 - h\<bar> < m_iSeqNoTH" "\<bar>h - l2\<bar> < m_iSeqNoTH" "h - l2 < 2 ^ 31" "h2 - l2 < 2 ^ 31"
      "\<bar>l2 - (h + 1)\<bar> < 2 ^ 31" 
    using * by (auto simp: m_iSeqNoTH_def)
  have rng: "0 \<le> P X" "P X < sz" for X using *(1) by (auto simp: P_def)
  let ?f' = "f(P l := cell (l, max h h2) (first_pos P ys (- 1)),
      P l2 := (cell (l2, h2) (first_pos P ys (- 1)))\<lparr>seqstart := SRT_SEQNO_NONE, seqend := SRT_SEQNO_NONE\<rparr>)"
  have c1: "coalesce_with (P l) (P l2) (mk f hp len sz (P l)) =
      Some (mk ?f' hp (total (xs @ (l, max h h2) # ys)) sz (P l))"
    using * ne lh adj near rng
    by (auto simp: coalesce_with_def seq_simps cell_def max_def fun_upd_twist)
  have c2: "shape c A (xs @ (l, max h h2) # ys) (mk ?f' hp (total (xs @ (l, max h h2) # ys)) sz (P l))"
    using sh ne * posn_notin[of A sz xs l c] posn_notin[of A sz xs l2 c] posn_notin[of A sz ys l c] posn_notin[of A sz ys l2 c] unfolding shape_mk P_def[symmetric]  by (auto simp: blank_def)
  from c1 c2 show ?thesis by (auto simp: P_def)
qed

text \<open>The effect of \<^const>\<open>coalesce\<close> on the intervals behind the changed one.\<close>

fun coal :: "ivl \<Rightarrow> ivl list \<Rightarrow> ivl list" where
  "coal n [] = [n]"
| "coal n (m # ns) =
     (if fst n < snd n \<and> fst m \<le> snd n + 1 then coal (fst n, max (snd n) (snd m)) ns
      else n # m # ns)"

lemma coalesce_correct:
  assumes "shape c A (xs @ (l, h) # ys) (mk f hp len sz (posn c sz l))"
  shows "\<exists>f' len'. coalesce (posn c sz l) (mk f hp len sz (posn c sz l)) =
      Some (mk f' hp len' sz (posn c sz l)) \<and>
    shape c A (xs @ coal (l, h) ys) (mk f' hp len' sz (posn c sz l))"
  using assms
proof (induction ys arbitrary: h f len)
  case Nil
  then show ?case by (auto simp: shape_mk coalesce.simps)
next
  case (Cons m ys)
  obtain l2 h2 where m: "m = (l2, h2)" by (cases m)
  from Cons.prems m have *: "0 < sz" "sz < m_iSeqNoTH" "f (posn c sz l) = cell (l, h) (posn c sz l2)"
      "f (posn c sz l2) = cell (l2, h2) (first_pos (posn c sz) ys (- 1))"
      "in_window A sz ((l, h) # (l2, h2) # ys)" "l < l2"
    by (auto simp: shape_mk)
  then have near: "\<bar>l2 - (h + 1)\<bar> < m_iSeqNoTH" by auto
  show ?case
  proof (cases "l < h \<and> l2 \<le> h + 1")
    case True
    with Cons.prems m obtain f1 len1 where
      1: "coalesce_with (posn c sz l) (posn c sz l2) (mk f hp len sz (posn c sz l)) =
          Some (mk f1 hp len1 sz (posn c sz l))"
      and 2: "shape c A (xs @ (l, max h h2) # ys) (mk f1 hp len1 sz (posn c sz l))"
      using coalesce_with_step by blast
    from Cons.IH [OF 2] 1 True * near m show ?thesis
      by (subst coalesce.simps) (auto simp: seq_simps)
  next
    case False
    with Cons.prems * near m show ?thesis
      by (subst coalesce.simps) (auto simp: seq_simps)
  qed
qed

lemma coal_elems: "elems (coal n ns) = elems (n # ns)"
  if "fst n \<le> snd n" "\<forall>m\<in>set ns. fst n < fst m \<and> fst m \<le> snd m" 
  using that by (induction n ns rule: coal.induct) auto

lemma coal_disjoint:
  assumes "disjoint_ivls ns" "\<forall>m\<in>set ns. fst n < fst m \<and> fst m \<le> snd m"
  shows "disjoint_ivls (coal n ns)"
  using assms
proof (induction n ns rule: coal.induct)
  case (2 n m ns)
  then have "\<forall>k\<in>set ns. fst m < fst k" by force
  moreover have "snd n < fst m" if "\<not> (fst n < snd n \<and> fst m \<le> snd n + 1)"
    using 2 that by auto
  ultimately show ?case using 2 by force
qed auto

lemma coal_starts: "\<forall>m\<in>set (coal n ns). fst n \<le> fst m"
  if "\<forall>m\<in>set ns. fst n < fst m"
  using that by (induction n ns rule: coal.induct) auto

lemma insertHead_correct:
  assumes sh: "shape c A ns (mk f hp len sz li)"
    and X: "A \<le> X1" "X1 \<le> X2" "X2 < A + sz" "\<forall>n\<in>set ns. X1 < fst n"
  shows "\<exists>f' len'. insertHead (posn c sz X1) (sq X1) (sq X2) (mk f hp len sz li) =
      Some (mk f' (posn c sz X1) len' sz (posn c sz X1)) \<and>
    shape c A ((X1, X2) # ns) (mk f' (posn c sz X1) len' sz (posn c sz X1))"
proof -
  define P where "P = posn c sz"
  from sh have *: "0 < sz" "sz < m_iSeqNoTH" "in_window A sz ns" "hp = first_pos P ns (- 1)"
    by (auto simp: shape_mk P_def)
  have nin: "P X1 \<notin> P ` starts ns" unfolding P_def using * X by (intro posn_notin) auto
  have rng: "0 \<le> P X" "P X < sz" for X using *(1) by (auto simp: P_def)
  from sh nin rng have bl: "blank (f (P X1))" by (auto simp: shape_mk P_def)
  have near: "X2 - X1 < 2 ^ 31" "\<bar>X2 - X1\<bar> < 2 ^ 31" using X * by (auto simp: m_iSeqNoTH_def)
  let ?f' = "f(P X1 := cell (X1, X2) hp)"
  have c1: "insertHead (P X1) (sq X1) (sq X2) (mk f hp len sz li) =
      Some (mk ?f' (P X1) (len + (X2 - X1 + 1)) sz (P X1))"
    using * X near rng bl
    by (cases "f (P X1)") (auto simp: insertHead_def SRT_ASSERT_def seq_simps cell_def blank_def)
  have c2: "shape c A ((X1, X2) # ns) (mk ?f' (P X1) (len + (X2 - X1 + 1)) sz (P X1))"
    using sh nin * X unfolding shape_mk P_def [symmetric] by auto
  from c1 c2 show ?thesis by (auto simp: P_def)
qed

lemma insertAfter_correct:
  assumes sh: "shape c A (xs @ (l, h) # ys) (mk f hp len sz li)"
    and X: "A \<le> X1" "X1 \<le> X2" "X2 < A + sz" "l < X1" "\<forall>n\<in>set ys. X1 < fst n"
  shows "\<exists>f' len'. insertAfter (posn c sz X1) (posn c sz l) (sq X1) (sq X2) (mk f hp len sz li) =
      Some (mk f' hp len' sz (posn c sz X1)) \<and>
    shape c A (xs @ (l, h) # (X1, X2) # ys) (mk f' hp len' sz (posn c sz X1))"
proof -
  define P where "P = posn c sz"
  from sh have *: "0 < sz" "sz < m_iSeqNoTH" "in_window A sz (xs @ (l, h) # ys)"
      "by_start (xs @ (l, h) # ys)" "f (P l) = cell (l, h) (first_pos P ys (- 1))"
    by (auto simp: shape_mk P_def)
  have ord: "\<forall>n\<in>set xs. fst n < X1" using *(4) X by fastforce
  have nin: "P X1 \<notin> P ` starts (xs @ (l, h) # ys)"
    unfolding P_def using * X ord by (intro posn_notin) auto
  have nin2: "P l \<notin> P ` starts (xs @ ys)"
    unfolding P_def using * by (intro posn_notin) auto
  have rng: "0 \<le> P X" "P X < sz" for X using *(1) by (auto simp: P_def)
  from sh nin rng have bl: "blank (f (P X1))" by (auto simp: shape_mk P_def)
  have near: "X2 - X1 < 2 ^ 31" "\<bar>X2 - X1\<bar> < 2 ^ 31" using X * by (auto simp: m_iSeqNoTH_def)
  let ?f' = "f(P X1 := cell (X1, X2) (first_pos P ys (- 1)), P l := cell (l, h) (P X1))"
  have c1: "insertAfter (P X1) (P l) (sq X1) (sq X2) (mk f hp len sz li) =
      Some (mk ?f' hp (len + (X2 - X1 + 1)) sz (P X1))"
    using * X near rng bl nin
    by (cases "f (P X1)")
      (auto simp: insertAfter_def SRT_ASSERT_def seq_simps cell_def blank_def fun_upd_twist)
  have c2: "shape c A (xs @ (l, h) # (X1, X2) # ys) (mk ?f' hp (len + (X2 - X1 + 1)) sz (P X1))"
    using sh nin nin2 * X ord unfolding shape_mk P_def [symmetric] by (auto simp: image_Un)
  from c1 c2 show ?thesis by (auto simp: P_def)
qed


lemma cell_extend: "l < X \<Longrightarrow> (cell (l, h) q)\<lparr>seqend := sq X\<rparr> = cell (l, X) q"
  by (simp add: cell_def)

text \<open>Enlarging one range in place.\<close>

lemma extend_shape:
  assumes sh: "shape c A (xs @ (l, h) # ys) (mk f hp len sz li)" and X: "h < X" "X < A + sz"
  shows "shape c A (xs @ (l, X) # ys) (mk (f(posn c sz l := (f (posn c sz l))\<lparr>seqend := sq X\<rparr>))
      hp (len + (X - h)) sz (posn c sz l))"
proof -
  define P where "P = posn c sz"
  from sh have *: "0 < sz" "in_window A sz (xs @ (l, h) # ys)"
      "by_start (xs @ (l, h) # ys)" "f (P l) = cell (l, h) (first_pos P ys (- 1))"
    by (auto simp: shape_mk P_def)
  have nin: "P l \<notin> P ` starts (xs @ ys)"
    unfolding P_def using * by (intro posn_notin) auto
  have "(f (P l))\<lparr>seqend := sq X\<rparr> = cell (l, X) (first_pos P ys (- 1))"
    using * X by (simp add: cell_extend)
  with sh nin * X show ?thesis unfolding shape_mk P_def [symmetric] by (auto simp: image_Un)
qed

lemma shape_li:
  "shape c A (xs @ (l, h) # ys) (mk f hp len sz li) \<Longrightarrow>
   shape c A (xs @ (l, h) # ys) (mk f hp len sz (posn c sz l))"
  by (auto simp: shape_mk)

lemma updateElement_correct:
  assumes sh: "shape c A (xs @ (l, h) # ys) (mk f hp len sz li)"
    and X: "l \<le> X2" "X2 < A + sz"
  defines "s' \<equiv> mk (f(posn c sz l := (f (posn c sz l))\<lparr>seqend := sq X2\<rparr>))
      hp (len + (X2 - h)) sz (posn c sz l)"
  shows "updateElement (posn c sz l) (sq l) (sq X2) (mk f hp len sz li) =
    Some (if X2 \<le> h then (False, mk f hp len sz (posn c sz l)) else (True, s'))"
proof -
  from sh have *: "0 < sz" "sz < m_iSeqNoTH" "in_window A sz (xs @ (l, h) # ys)"
      "f (posn c sz l) = cell (l, h) (first_pos (posn c sz) ys (- 1))"
    by (auto simp: shape_mk)
  then have near: "\<bar>X2 - h\<bar> < m_iSeqNoTH" "\<bar>X2 - l\<bar> < 2 ^ 31" "X2 - l < 2 ^ 31" "X2 - h < 2 ^ 31"
    using X by (auto simp: m_iSeqNoTH_def)
  show ?thesis
    using * X near by (auto simp: updateElement_def s'_def seq_simps Let_def)
qed

definition ready :: "int \<Rightarrow> int \<Rightarrow> int set \<Rightarrow> int \<Rightarrow> CSndLossList \<Rightarrow> bool" where
  "ready c A E loc s \<longleftrightarrow> (\<exists>xs l h ys. shape c A (xs @ (l, h) # ys) s \<and>
     loc = posn c (m_iSize s) l \<and> m_iLastInsertPos s = loc \<and>
     disjoint_ivls xs \<and> disjoint_ivls ys \<and> (\<forall>a\<in>set xs. snd a < l) \<and>
     elems (xs @ (l, h) # ys) = E)"

lemma mk_cases: obtains f hp len sz li where "s = mk f hp len sz li"
  by (cases s) auto

lemma ready_coalesce:
  assumes "ready c A E loc s"
  shows "\<exists>ns' s'. coalesce loc s = Some s' \<and> rep c A ns' s' \<and> elems ns' = E \<and> m_iSize s' = m_iSize s"
proof -
  obtain f hp len sz li where s: "s = mk f hp len sz li" by (rule mk_cases)
  with assms obtain xs l h ys where *: "shape c A (xs @ (l, h) # ys) (mk f hp len sz (posn c sz l))"
      "loc = posn c sz l" "li = posn c sz l" "disjoint_ivls xs" "disjoint_ivls ys"
      "\<forall>a\<in>set xs. snd a < l" "elems (xs @ (l, h) # ys) = E"
    by (auto simp: ready_def)
  from *(1) have w: "l \<le> h" "\<forall>m\<in>set ys. l < fst m \<and> fst m \<le> snd m"
    by (auto simp: shape_mk in_window_def)
  from coalesce_correct [OF *(1)] obtain f' len' where
    c: "coalesce loc s = Some (mk f' hp len' sz li)"
    and sh: "shape c A (xs @ coal (l, h) ys) (mk f' hp len' sz li)"
    using s * by auto
  have "elems (xs @ coal (l, h) ys) = E" using coal_elems [of "(l, h)" ys] w *(7) by simp
  moreover have "disjoint_ivls (xs @ coal (l, h) ys)"
    using coal_disjoint [OF *(5), of "(l, h)"] coal_starts [of ys "(l, h)"] w *(4,6)
    by (auto intro: order_less_le_trans)
  ultimately show ?thesis using c sh s by (auto simp: rep_def)
qed

lemma prior_node_correct:
  assumes "shape c A (xs @ n # ys) (mk f hp len sz li)" and "fst n < X"
    and "\<forall>m\<in>set ys. \<bar>fst m - X\<bar> < m_iSeqNoTH"
  shows "\<exists>us m vs. xs @ n # ys = us @ m # vs \<and> fst m < X \<and> (\<forall>k\<in>set vs. X \<le> fst k) \<and>
    prior_node (sq X) (mk f hp len sz li) (posn c sz (fst n)) = Some (posn c sz (fst m))"
  using assms
proof (induction ys arbitrary: xs n)
  case Nil
  then have "prior_node (sq X) (mk f hp len sz li) (posn c sz (fst n)) = Some (posn c sz (fst n))"
    by (subst prior_node.simps) (auto simp: shape_mk)
  with Nil show ?case by (intro exI [of _ xs] exI [of _ n] exI [of _ "[]"]) auto
next
  case (Cons k ys)
  from Cons.prems have *: "f (posn c sz (fst n)) = cell n (posn c sz (fst k))" "0 < sz"
      "seqstart (f (posn c sz (fst k))) = sq (fst k)" "\<forall>j\<in>set ys. fst k < fst j"
    by (auto simp: shape_mk)
  then have step: "prior_node (sq X) (mk f hp len sz li) (posn c sz (fst n)) =
      (if fst k < X then prior_node (sq X) (mk f hp len sz li) (posn c sz (fst k))
       else Some (posn c sz (fst n)))"
    using Cons.prems(3) by (subst prior_node.simps) (auto simp: seq_simps)
  show ?case
  proof (cases "fst k < X")
    case True
    with Cons.IH [of "xs @ [n]" k] Cons.prems have "\<exists>us m vs. xs @ n # k # ys = us @ m # vs \<and>
        fst m < X \<and> (\<forall>k\<in>set vs. X \<le> fst k) \<and>
        prior_node (sq X) (mk f hp len sz li) (posn c sz (fst k)) = Some (posn c sz (fst m))"
      by simp
    with step True show ?thesis by simp
  next
    case False
    with * have "\<forall>j\<in>set (k # ys). X \<le> fst j" by fastforce
    with step False Cons.prems(2) show ?thesis
      by (intro exI [of _ xs] exI [of _ n] exI [of _ "k # ys"]) auto
  qed
qed

lemma start_node:
  assumes sh: "shape c A (n0 # ns) (mk f hp len sz li)" and lt: "fst n0 < X"
    and near: "\<forall>m\<in>set (n0 # ns). \<bar>fst m - X\<bar> < m_iSeqNoTH"
  shows "\<exists>xs n ys. n0 # ns = xs @ n # ys \<and> fst n < X \<and>
    search_start (sq X) (mk f hp len sz li) = Some (posn c sz (fst n))"
proof -
  have hp: "hp = posn c sz (fst n0)" using sh by (simp add: shape_mk)
  have "\<exists>n\<in>set (n0 # ns). fst n < X \<and>
      search_start (sq X) (mk f hp len sz li) = Some (posn c sz (fst n))"
  proof (cases "li = - 1")
    case True
    with hp lt show ?thesis by (auto simp: search_start_def)
  next
    case False
    with sh have "li \<in> posn c sz ` starts (n0 # ns)" by (simp add: shape_mk)
    then obtain n where n: "n \<in> set (n0 # ns)" "li = posn c sz (fst n)" by blast
    from sh have "linked f (posn c sz) (n0 # ns) (- 1)" by (simp add: shape_mk)
    from linked_cell [OF this n(1)] obtain q where "f (posn c sz (fst n)) = cell n q" ..
    with sh n False near hp have e: "search_start (sq X) (mk f hp len sz li) =
        Some (posn c sz (fst (if fst n < X then n else n0)))"
      by (auto simp: shape_mk search_start_def seq_simps)
    show ?thesis using e n(1) lt by (cases "fst n < X") auto
  qed
  then show ?thesis by (metis split_list)
qed

lemma insert_behind_correct:
  assumes sh: "shape c A (n0 # ns) s" and dj: "disjoint_ivls (n0 # ns)"
    and X: "A \<le> X1" "X1 \<le> X2" "X2 < A + m_iSize s" "fst n0 < X1" "X1 \<notin> starts (n0 # ns)"
  shows "\<exists>r s'. insert_behind (posn c (m_iSize s) X1) (sq X1) (sq X2) s = Some (r, s') \<and>
    m_iSize s' = m_iSize s \<and>
    (case r of None \<Rightarrow> shape c A (n0 # ns) s' \<and> {X1..X2} \<subseteq> elems (n0 # ns)
     | Some loc \<Rightarrow> ready c A (elems (n0 # ns) \<union> {X1..X2}) loc s')"
proof -
  obtain f hp len sz li where s: "s = mk f hp len sz li" by (rule mk_cases)
  note sh = sh [unfolded s]
  from sh have w: "0 < sz" "sz < m_iSeqNoTH" "in_window A sz (n0 # ns)" by (auto simp: shape_mk)
  have near: "\<bar>fst m - X1\<bar> < m_iSeqNoTH \<and> \<bar>snd m - X1\<bar> < m_iSeqNoTH \<and> \<bar>snd m - X2\<bar> < m_iSeqNoTH
      \<and> \<bar>snd m + 1 - X1\<bar> < 2 ^ 31 \<and> X2 - snd m < 2 ^ 31" if "m \<in> set (n0 # ns)" for m
    using w X that s by (auto simp: in_window_def m_iSeqNoTH_def)
  obtain xs n ys where sp: "n0 # ns = xs @ n # ys" "fst n < X1"
    and st: "search_start (sq X1) (mk f hp len sz li) = Some (posn c sz (fst n))"
    using start_node [OF sh X(4)] near by blast
  have sh1: "shape c A (xs @ n # ys) (mk f hp len sz li)" using sh sp(1) by simp
  have "\<forall>m\<in>set ys. \<bar>fst m - X1\<bar> < m_iSeqNoTH" using near sp(1) by auto
  from prior_node_correct [OF sh1 sp(2) this] obtain us m vs where
    m: "n0 # ns = us @ m # vs" "fst m < X1" "\<forall>k\<in>set vs. X1 \<le> fst k"
      "prior_node (sq X1) (mk f hp len sz li) (posn c sz (fst n)) = Some (posn c sz (fst m))"
    using sp(1) by auto
  obtain l h where lh: "m = (l, h)" by (cases m)
  have sh2: "shape c A (us @ (l, h) # vs) (mk f hp len sz li)" using sh m(1) lh by simp
  then have cl: "f (posn c sz l) = cell (l, h) (first_pos (posn c sz) vs (- 1))" "l \<le> h"
    by (auto simp: shape_mk)
  have vs: "\<forall>k\<in>set vs. X1 < fst k" using m(1,3) X(5) by force
  have dj2: "disjoint_ivls us" "disjoint_ivls vs" "\<forall>a\<in>set us. snd a < l"
    using dj m(1) lh by (auto simp: disjoint_ivls_simps(3) simp del: disjoint_ivls_simps(2))
      (auto)
  have nr: "\<bar>h - X1\<bar> < m_iSeqNoTH" "\<bar>h - X2\<bar> < m_iSeqNoTH" "\<bar>h + 1 - X1\<bar> < 2 ^ 31" "X2 - h < 2 ^ 31"
    using near [of m] m(1) lh by auto
  have send: "(if l = h then sq l else sq h) = sq h" by simp
  show ?thesis
  proof (cases "h + 1 < X1")
    case True
    from insertAfter_correct [OF sh2 X(1,2)] X(3) m(2) vs lh s obtain f' len' where
      i: "insertAfter (posn c sz X1) (posn c sz l) (sq X1) (sq X2) (mk f hp len sz li) =
          Some (mk f' hp len' sz (posn c sz X1))"
      and sh3: "shape c A (us @ (l, h) # (X1, X2) # vs) (mk f' hp len' sz (posn c sz X1))"
      by auto
    have "ready c A (elems (n0 # ns) \<union> {X1..X2}) (posn c sz X1) (mk f' hp len' sz (posn c sz X1))"
      unfolding ready_def m(1) lh
      using sh3 dj2 True cl
      by (intro exI [of _ "us @ [(l, h)]"] exI [of _ X1] exI [of _ X2] exI [of _ vs]) fastforce
    moreover have "insert_behind (posn c sz X1) (sq X1) (sq X2) s =
        Some (Some (posn c sz X1), mk f' hp len' sz (posn c sz X1))"
      unfolding insert_behind_def s using st m(4) cl w i lh nr True
      by (auto simp: seq_simps)
    ultimately show ?thesis using s by auto
  next
    case False
    show ?thesis
    proof (cases "X2 \<le> h")
      case True
      have "insert_behind (posn c sz X1) (sq X1) (sq X2) s =
          Some (None, mk f hp len sz (posn c sz l))"
        unfolding insert_behind_def s using st m(4) cl w lh nr False True
        by (auto simp: seq_simps Let_def)
      moreover have "{X1..X2} \<subseteq> elems (n0 # ns)" using True m(1,2) lh by auto
      moreover have "shape c A (n0 # ns) (mk f hp len sz (posn c sz l))"
        using shape_li [OF sh2] m(1) lh by simp
      ultimately show ?thesis using s by auto
    next
      case ext: False
      let ?s' = "mk (f(posn c sz l := (f (posn c sz l))\<lparr>seqend := sq X2\<rparr>))
          hp (len + (X2 - h)) sz (posn c sz l)"
      have "insert_behind (posn c sz X1) (sq X1) (sq X2) s = Some (Some (posn c sz l), ?s')"
        unfolding insert_behind_def s using st m(4) cl w lh nr False ext
        by (auto simp: seq_simps Let_def)
      moreover have "shape c A (us @ (l, X2) # vs) ?s'"
        using extend_shape [OF sh2] ext X(3) s by simp
      moreover have "elems (us @ (l, X2) # vs) = elems (n0 # ns) \<union> {X1..X2}"
        using False ext m(1,2) lh X by auto
      ultimately show ?thesis using s dj2 unfolding ready_def by fastforce
    qed
  qed
qed

text \<open>What the branches of \<^verbatim>\<open>insert\<close> hand to \<^const>\<open>coalesce\<close>.\<close>

definition inserted :: "int \<Rightarrow> int \<Rightarrow> ivl list \<Rightarrow> int set \<Rightarrow> int option \<times> CSndLossList \<Rightarrow> bool" where
  "inserted c A ns E rs \<longleftrightarrow> (case rs of
     (None, s) \<Rightarrow> shape c A ns s \<and> E \<subseteq> elems ns
   | (Some loc, s) \<Rightarrow> ready c A (elems ns \<union> E) loc s)"

lemma update_inserted:
  assumes sh: "shape c A (xs @ (l, h) # ys) s" and dj: "disjoint_ivls (xs @ (l, h) # ys)"
    and X: "l \<le> X2" "X2 < A + m_iSize s"
  shows "\<exists>b s'. updateElement (posn c (m_iSize s) l) (sq l) (sq X2) s = Some (b, s') \<and>
    m_iSize s' = m_iSize s \<and>
    inserted c A (xs @ (l, h) # ys) {l..X2} (if b then Some (posn c (m_iSize s) l) else None, s')"
proof -
  obtain f hp len sz li where s: "s = mk f hp len sz li" by (rule mk_cases)
  have sh': "shape c A (xs @ (l, h) # ys) (mk f hp len sz li)" using sh s by simp
  show ?thesis
  proof (cases "X2 \<le> h")
    case True
    then have "{l..X2} \<subseteq> {l..h}" by auto
    then have sub: "{l..X2} \<subseteq> elems (xs @ (l, h) # ys)" by (auto simp del: elems_simps simp: elems_def)
    show ?thesis
      using updateElement_correct [OF sh' X(1)] X(2) s shape_li [OF sh'] sub True
      by (intro exI [of _ False] exI [of _ "mk f hp len sz (posn c sz l)"])
        (simp add: inserted_def del: elems_simps)
  next
    case False
    let ?s' = "mk (f(posn c sz l := (f (posn c sz l))\<lparr>seqend := sq X2\<rparr>))
      hp (len + (X2 - h)) sz (posn c sz l)"
    have "shape c A (xs @ (l, X2) # ys) ?s'" using extend_shape [OF sh'] False X(2) s by simp
    moreover have "elems (xs @ (l, X2) # ys) = elems (xs @ (l, h) # ys) \<union> {l..X2}"
    proof -
      have "{l..h} \<union> {l..X2} = {l..X2}" using False by auto
      then show ?thesis by (simp add: Un_ac)
    qed
    ultimately have "ready c A (elems (xs @ (l, h) # ys) \<union> {l..X2}) (posn c sz l) ?s'"
      unfolding ready_def using dj by (intro exI [of _ xs] exI [of _ l] exI [of _ X2] exI [of _ ys]) simp
    then show ?thesis
      using updateElement_correct [OF sh' X(1)] X(2) s False
      by (intro exI [of _ True] exI [of _ ?s']) (simp add: inserted_def del: elems_simps)
  qed
qed

lemma insert_at_correct:
  assumes sh: "shape c A (n0 # ns) s" and dj: "disjoint_ivls (n0 # ns)"
    and X: "A \<le> X1" "X1 \<le> X2" "X2 < A + m_iSize s"
  shows "\<exists>r s'. insert_at (X1 - fst n0) (posn c (m_iSize s) X1) (sq X1) (sq X2) s = Some (r, s') \<and>
    m_iSize s' = m_iSize s \<and> inserted c A (n0 # ns) {X1..X2} (r, s')"
proof -
  obtain f hp len sz li where s: "s = mk f hp len sz li" by (rule mk_cases)
  from sh s have w: "0 < sz" "hp = posn c sz (fst n0)" "linked f (posn c sz) (n0 # ns) (- 1)"
      "in_window A sz (n0 # ns)" "by_start (n0 # ns)"
    by (auto simp: shape_mk)
  consider "X1 < fst n0" | "X1 = fst n0" | "fst n0 < X1" "X1 \<in> starts ns"
    | "fst n0 < X1" "X1 \<notin> starts (n0 # ns)"
    by force
  then show ?thesis
  proof cases
    case 1
    then have "\<forall>n\<in>set (n0 # ns). X1 < fst n" using w(5) by auto
    from insertHead_correct [OF sh [unfolded s] X(1,2) _ this] X(3) s obtain f' len' where
      i: "insertHead (posn c sz X1) (sq X1) (sq X2) (mk f hp len sz li) =
        Some (mk f' (posn c sz X1) len' sz (posn c sz X1))"
      and sh': "shape c A ((X1, X2) # n0 # ns) (mk f' (posn c sz X1) len' sz (posn c sz X1))"
      by auto
    have "ready c A (elems (n0 # ns) \<union> {X1..X2}) (posn c sz X1)
        (mk f' (posn c sz X1) len' sz (posn c sz X1))"
      unfolding ready_def using sh' dj
      by (intro exI [of _ "[]"] exI [of _ X1] exI [of _ X2] exI [of _ "n0 # ns"]) auto
    with i 1 s show ?thesis by (auto simp: insert_at_def inserted_def)
  next
    case 2
    have "shape c A ([] @ (X1, snd n0) # ns) s" "disjoint_ivls ([] @ (X1, snd n0) # ns)"
      using sh dj 2 by auto
    from update_inserted [OF this X(2,3)] 2 s w show ?thesis by (auto simp: insert_at_def)
  next
    case 3
    then obtain h where "(X1, h) \<in> set ns" by auto
    then obtain xs ys where sp: "n0 # ns = xs @ (X1, h) # ys" by (meson list.set_intros(2) split_list)
    have "f (posn c sz X1) = cell (X1, h) (first_pos (posn c sz) ys (- 1))"
      using w(3) unfolding sp by simp
    with update_inserted [OF sh [unfolded sp] dj [unfolded sp] X(2,3)] 3 s w sp
    show ?thesis by (auto simp: insert_at_def)
  next
    case 4
    have "posn c sz X1 \<notin> posn c sz ` starts (n0 # ns)"
      using w X s 4 by (intro posn_notin) auto
    then have "blank (f (posn c sz X1))" using sh s w(1) by (simp add: shape_mk)
    then have "insert_at (X1 - fst n0) (posn c sz X1) (sq X1) (sq X2) s =
        insert_behind (posn c sz X1) (sq X1) (sq X2) s"
      using 4 s w by (simp add: insert_at_def blank_def)
    with insert_behind_correct [OF sh dj X 4] s show ?thesis
      by (auto simp: inserted_def split: option.splits)
  qed
qed

lemma rep_total: "rep c A ns s \<Longrightarrow> m_iLength s = int (card (elems ns))"
  using total_card [of ns] by (simp add: rep_def shape_defs in_window_def)

lemma rep_empty: "rep c A ns s \<Longrightarrow> m_iLength s = 0 \<longleftrightarrow> ns = []"
proof -
  assume r: "rep c A ns s"
  then have "\<forall>n\<in>set ns. 0 < snd n - fst n + 1" by (auto simp: rep_def shape_defs in_window_def)
  then have "0 \<le> total ns \<and> (ns \<noteq> [] \<longrightarrow> 0 < total ns)" by (induction ns) auto
  with r show ?thesis by (auto simp: rep_def shape_defs)
qed

theorem insert_loss_correct:
  assumes r: "rep c A ns s"
    and X: "A \<le> X1" "X1 \<le> X2" "X2 < A + m_iSize s" "X2 - X1 + 1 < m_iSize s"
  shows "\<exists>c' ns' s'. insert_loss (sq X1) (sq X2) s = Some (int (card ({X1..X2} - elems ns)), s') \<and>
    rep c' A ns' s' \<and> elems ns' = elems ns \<union> {X1..X2} \<and> m_iSize s' = m_iSize s"
proof -
  obtain f hp len sz li where s: "s = mk f hp len sz li" by (rule mk_cases)
  from r s have w: "0 < sz" "sz < m_iSeqNoTH" by (auto simp: rep_def shape_mk)
  have len: "seqlen (sq X1) (sq X2) = X2 - X1 + 1"
    using X w s by (intro seqlen_sq) (auto simp: m_iSeqNoTH_def)
  show ?thesis
  proof (cases ns)
    case Nil
    let ?c = "- X1"
    have "shape ?c A [] (mk f hp len sz li)" using r Nil s by (auto simp: rep_def shape_mk)
    from insertHead_correct [OF this X(1,2)] X(3) s obtain f' len' where
      i: "insertHead 0 (sq X1) (sq X2) (mk f hp len sz li) = Some (mk f' 0 len' sz 0)"
      and sh: "shape ?c A [(X1, X2)] (mk f' 0 len' sz 0)"
      by (auto simp: posn_def)
    from sh have "len' = X2 - X1 + 1" by (simp add: shape_mk)
    with i sh r Nil s X len show ?thesis
      by (intro exI [of _ ?c] exI [of _ "[(X1, X2)]"] exI [of _ "mk f' 0 len' sz 0"])
        (auto simp: insert_loss_def rep_def rep_empty shape_mk Let_def)
  next
    case (Cons n0 ns0)
    from r Cons s have sh: "shape c A (n0 # ns0) s" and dj: "disjoint_ivls (n0 # ns0)"
      and h: "hp = posn c sz (fst n0)" "seqstart (f hp) = sq (fst n0)"
      and n0: "A \<le> fst n0" "fst n0 < A + sz"
      by (auto simp: rep_def shape_mk)
    have off: "seqoff (sq (fst n0)) (sq X1) = X1 - fst n0"
      using n0 X w s by (intro seqoff_sq) auto
    have X': "A \<le> X1" "X1 \<le> X2" "X2 < A + sz" "X2 - X1 + 1 < sz" using X s by auto
    have "0 \<le> hp" "hp < sz" using h w by auto
    then have "0 \<le> hp + (X1 - fst n0) + sz" using n0 X' by linarith
    moreover have "(hp + (X1 - fst n0) + sz) mod sz = posn c sz X1"
      using posn_add [of c sz "fst n0" "X1 - fst n0"] h(1) by simp
    ultimately have loc: "c_mod (hp + (X1 - fst n0) + sz) sz = posn c sz X1" using w by simp
    obtain r1 s1 where i: "insert_at (X1 - fst n0) (posn c sz X1) (sq X1) (sq X2) s = Some (r1, s1)"
      and sz1: "m_iSize s1 = sz" and ins: "inserted c A (n0 # ns0) {X1..X2} (r1, s1)"
      using insert_at_correct [OF sh dj X(1-3)] s by auto
    have il: "insert_loss (sq X1) (sq X2) s = (case r1 of None \<Rightarrow> Some (0, s1)
        | Some loc \<Rightarrow> do { s2 \<leftarrow> coalesce loc s1; Some (m_iLength s2 - len, s2) })"
      using i h(2) off loc len w X' n0 \<open>0 \<le> hp\<close> \<open>hp < sz\<close> rep_empty [OF r] Cons
      by (simp add: insert_loss_def Let_def s)
    show ?thesis
    proof (cases r1)
      case None
      with ins Cons dj have sub: "{X1..X2} \<subseteq> elems ns" and "rep c A ns s1"
        by (simp_all add: inserted_def rep_def del: elems_simps shape_defs disjoint_ivls_simps)
      moreover from sub have "{X1..X2} - elems ns = {}" "elems ns = elems ns \<union> {X1..X2}" by blast+
      ultimately show ?thesis using il None sz1 s by (intro exI [of _ c] exI [of _ ns] exI [of _ s1]) simp
    next
      case (Some loc)
      with ins ready_coalesce [of c A "elems ns \<union> {X1..X2}" loc s1] Cons obtain ns' s2 where
        c2: "coalesce loc s1 = Some s2" and r2: "rep c A ns' s2"
        and e2: "elems ns' = elems ns \<union> {X1..X2}" "m_iSize s2 = sz"
        using sz1 by (auto simp: inserted_def)
      have fin: "finite (elems ns)" by (simp add: elems_def)
      have "card (elems ns') = card (elems ns) + card ({X1..X2} - elems ns)"
        unfolding e2 using fin card_Un_disjoint [of "elems ns" "{X1..X2} - elems ns"]
        by (simp add: Un_Diff_cancel)
      with rep_total [OF r2] rep_total [OF r] il Some c2 r2 e2 s show ?thesis
        by (intro exI [of _ c] exI [of _ ns'] exI [of _ s2]) simp
    qed
  qed
qed

lemma put_tail_eq:
  assumes "0 < sz" "blank (f (posn c sz Y))" "Y \<le> h" "h - Y < m_iSeqNoTH"
  shows "put_tail (posn c sz Y) (sq Y) (sq h) (mk f hp len sz li) =
    Some (mk (f(posn c sz Y := cell (Y, h) (inext (f (posn c sz Y))))) hp len sz li)"
  using assms by (cases "f (posn c sz Y)") (auto simp: put_tail_def blank_def cell_def seq_simps)

text \<open>Taking the first number off the head range.\<close>

definition behead :: "ivl list \<Rightarrow> ivl list" where
  "behead ns = (case ns of [] \<Rightarrow> [] | (l, h) # ys \<Rightarrow> if l = h then ys else (l + 1, h) # ys)"

lemma behead_state:
  assumes sh: "shape c A ((l, h) # ys) (mk f hp len sz li)" and dj: "disjoint_ivls ((l, h) # ys)"
    and cl: "blank q"
    and f': "f' = (if l = h then f(posn c sz l := q)
               else f(posn c sz (l + 1) := cell (l + 1, h) (first_pos (posn c sz) ys (- 1)), posn c sz l := q))"
    and li: "li' = - 1 \<or> li' \<in> posn c sz ` starts ys"
  shows "rep c A (behead ((l, h) # ys))
    (mk f' (first_pos (posn c sz) (behead ((l, h) # ys)) (- 1)) (len - 1) sz li')"
proof -
  define P where "P = posn c sz"
  from sh have *: "0 < sz" "in_window A sz ((l, h) # ys)" "by_start ((l, h) # ys)"
    by (auto simp: shape_mk)
  have nin: "P l \<notin> P ` starts ys" unfolding P_def using * by (intro posn_notin) auto
  show ?thesis
  proof (cases "l = h")
    case True
    with sh dj cl f' li nin show ?thesis unfolding rep_def shape_mk P_def [symmetric]
      by (auto simp: behead_def)
  next
    case False
    have nin1: "P (l + 1) \<notin> P ` starts ((l, h) # ys)"
      unfolding P_def using * dj False by (intro posn_notin) force+
    with sh dj cl f' li nin False show ?thesis unfolding rep_def shape_mk P_def [symmetric]
      by (auto simp: behead_def)
  qed
qed

lemma popLostSeq_correct:
  assumes r: "rep c A ((l, h) # ys) s"
  shows "\<exists>s'. popLostSeq s = Some (sq l, s') \<and> rep c A (behead ((l, h) # ys)) s' \<and>
    m_iSize s' = m_iSize s"
proof -
  obtain f hp len sz li where s: "s = mk f hp len sz li" by (rule mk_cases)
  define P where "P = posn c sz"
  have sh: "shape c A ((l, h) # ys) (mk f hp len sz li)" and dj: "disjoint_ivls ((l, h) # ys)"
    using r s by (auto simp: rep_def)
  from sh have *: "0 < sz" "sz < m_iSeqNoTH" "in_window A sz ((l, h) # ys)" "by_start ((l, h) # ys)"
      "hp = P l" "f (P l) = cell (l, h) (first_pos P ys (- 1))"
    by (auto simp: shape_mk P_def)
  have len: "len \<noteq> 0" using rep_empty [OF r] s by simp
  have nin: "P l \<notin> P ` starts ys" unfolding P_def using * by (intro posn_notin) auto
  define li' where "li' = (if li = hp then - 1 else li)"
  have li': "li' = - 1 \<or> li' \<in> posn c sz ` starts ys"
    using sh * by (auto simp: shape_mk P_def li'_def)
  have loc: "c_mod (P l + 1) sz = P (l + 1)"
    using posn_add [of c sz l 1] * by (simp add: P_def add_nonneg_pos order.strict_implies_order)
  define q where "q = (cell (l, h) (first_pos P ys (- 1)))\<lparr>seqstart := SRT_SEQNO_NONE, seqend := SRT_SEQNO_NONE\<rparr>"
  have q: "blank q" by (simp add: q_def blank_def)
  define f' where "f' = (if l = h then f(posn c sz l := q)
       else f(posn c sz (l + 1) := cell (l + 1, h) (first_pos (posn c sz) ys (- 1)), posn c sz l := q))"
  have "popLostSeq s = Some (sq l, mk f' (first_pos (posn c sz) (behead ((l, h) # ys)) (- 1)) (len - 1) sz li')"
  proof (cases "l = h")
    case True
    with * len show ?thesis
      by (simp add: popLostSeq_def s li'_def f'_def behead_def q_def P_def cell_def Let_def)
  next
    case False
    have "P (l + 1) \<notin> P ` starts ((l, h) # ys)"
      unfolding P_def using * dj False by (intro posn_notin) force+
    with sh * have "blank (f (P (l + 1)))" "P (l + 1) \<noteq> P l" by (auto simp: shape_mk P_def)
    moreover have "h - (l + 1) < m_iSeqNoTH" "l + 1 \<le> h" using * False by auto
    ultimately show ?thesis using * len loc False
      by (simp add: popLostSeq_def s li'_def f'_def behead_def q_def put_tail_eq Let_def P_def cell_def fun_upd_twist)
  qed
  with behead_state [OF sh dj q f'_def li'] s show ?thesis by auto
qed

lemma remove_head_correct:
  assumes r: "rep c A ((l, h) # ys) s"
  shows "\<exists>s'. remove_head (posn c (m_iSize s) l) (sq l) s = Some s' \<and> rep c A (behead ((l, h) # ys)) s' \<and>
    m_iSize s' = m_iSize s"
proof -
  obtain f hp len sz li where s: "s = mk f hp len sz li" by (rule mk_cases)
  define P where "P = posn c sz"
  have sh: "shape c A ((l, h) # ys) (mk f hp len sz li)" and dj: "disjoint_ivls ((l, h) # ys)"
    using r s by (auto simp: rep_def)
  from sh have *: "0 < sz" "sz < m_iSeqNoTH" "in_window A sz ((l, h) # ys)" "by_start ((l, h) # ys)"
      "hp = P l" "f (P l) = cell (l, h) (first_pos P ys (- 1))"
    by (auto simp: shape_mk P_def)
  have nin: "P l \<notin> P ` starts ys" unfolding P_def using * by (intro posn_notin) auto
  define li' where "li' = (if li = hp then - 1 else li)"
  have li': "li' = - 1 \<or> li' \<in> posn c sz ` starts ys"
    using sh * by (auto simp: shape_mk P_def li'_def)
  define q where "q = (cell (l, h) (first_pos P ys (- 1)))\<lparr>seqstart := SRT_SEQNO_NONE, seqend := SRT_SEQNO_NONE\<rparr>"
  have q: "blank q" by (simp add: q_def blank_def)
  define f' where "f' = (if l = h then f(posn c sz l := q)
       else f(posn c sz (l + 1) := cell (l + 1, h) (first_pos (posn c sz) ys (- 1)), posn c sz l := q))"
  have "remove_head (P l) (sq l) s = Some (mk f' (first_pos (posn c sz) (behead ((l, h) # ys)) (- 1)) (len - 1) sz li')"
  proof (cases "l = h")
    case True
    with * show ?thesis
      by (simp add: remove_head_def s li'_def f'_def behead_def q_def P_def cell_def Let_def)
  next
    case False
    have "P (l + 1) \<notin> P ` starts ((l, h) # ys)"
      unfolding P_def using * dj False by (intro posn_notin) force+
    with sh * have "blank (f (P (l + 1)))" "P (l + 1) \<noteq> P l" by (auto simp: shape_mk P_def)
    moreover have "h - (l + 1) < m_iSeqNoTH" "l + 1 \<le> h" using * False by auto
    ultimately show ?thesis using * False
      by (simp add: remove_head_def s li'_def f'_def behead_def q_def put_tail_eq posn_add Let_def P_def
          cell_def fun_upd_twist)
  qed
  with behead_state [OF sh dj q f'_def li'] s show ?thesis by (auto simp: P_def)
qed

text \<open>The clearing loop: from a list \<open>dead @ live\<close> whose head already points at \<open>live\<close>.\<close>

lemma clear_nodes_correct:
  assumes "shape c A (dead @ live) (mk f (first_pos (posn c sz) (dead @ live) (- 1)) len sz li)"
  shows "\<exists>f' len' li'. clear_nodes (first_pos (posn c sz) (dead @ live) (- 1))
      (mk f (first_pos (posn c sz) live (- 1)) len sz li) =
      Some (mk f' (first_pos (posn c sz) live (- 1)) len' sz li') \<and>
    shape c A live (mk f' (first_pos (posn c sz) live (- 1)) len' sz li')"
  using assms
proof (induction dead arbitrary: f len li)
  case Nil
  then show ?case by (subst clear_nodes.simps) auto
next
  case (Cons n dead)
  define P where "P = posn c sz"
  from Cons.prems have *: "0 < sz" "sz < m_iSeqNoTH" "in_window A sz (n # dead @ live)"
      "by_start (n # dead @ live)" "f (P (fst n)) = cell n (first_pos P (dead @ live) (- 1))"
    by (auto simp: shape_mk P_def)
  have nin: "P (fst n) \<notin> P ` starts (dead @ live)"
    unfolding P_def using *(3,4) starts_before(1) [of "dead @ live" "fst n"]
    by (intro posn_notin [of A]) auto
  then have "P (fst n) \<notin> P ` starts live" by auto
  then have hd: "P (fst n) \<noteq> first_pos P live (- 1)" using *(1) by (cases live) (auto simp: P_def)
  have n: "A \<le> fst n" "fst n \<le> snd n" "snd n < A + sz" using *(3) by auto
  have len: "seqlen (sq (fst n)) (sq (snd n)) = snd n - fst n + 1"
    by (rule seqlen_sq) (use n *(2) in \<open>simp_all add: m_iSeqNoTH_def\<close>)
  have rng: "0 \<le> P (fst n)" "P (fst n) < sz" using *(1) by (auto simp: P_def)
  define f1 where "f1 = f(P (fst n) := (cell n (first_pos P (dead @ live) (- 1)))
      \<lparr>seqstart := SRT_SEQNO_NONE, seqend := SRT_SEQNO_NONE\<rparr>)"
  define li1 where "li1 = (if li = P (fst n) then - 1 else li)"
  let ?len1 = "len - (snd n - fst n + 1)"
  have step: "clear_nodes (P (fst n)) (mk f (first_pos P live (- 1)) len sz li) =
      clear_nodes (first_pos P (dead @ live) (- 1)) (mk f1 (first_pos P live (- 1)) ?len1 sz li1)"
    using *(5) hd len rng
    by (subst clear_nodes.simps) (simp add: f1_def li1_def cell_def Let_def)
  have "shape c A (dead @ live) (mk f1 (first_pos P (dead @ live) (- 1)) ?len1 sz li1)"
    using Cons.prems nin unfolding shape_mk P_def [symmetric]
    by (auto simp: f1_def li1_def blank_def image_Un)
  from Cons.IH [OF this [unfolded P_def]] step show ?case by (simp add: P_def)
qed

text \<open>Splitting a range in place, the first half staying in its cell.\<close>

lemma split_shape:
  assumes sh: "shape c A (xs @ (l, h) # ys) (mk f hp len sz li)" and X: "l \<le> X" "X < h"
    and that: "\<forall>m\<in>set ys. h < fst m"
  shows "shape c A (xs @ (l, X) # (X + 1, h) # ys)
    (mk (f(posn c sz (X + 1) := cell (X + 1, h) (first_pos (posn c sz) ys (- 1)),
           posn c sz l := cell (l, X) (posn c sz (X + 1)))) hp len sz li)"
    "blank (f (posn c sz (X + 1)))" "posn c sz (X + 1) \<noteq> posn c sz l"
proof -
  define P where "P = posn c sz"
  from sh have *: "0 < sz" "in_window A sz (xs @ (l, h) # ys)" "by_start (xs @ (l, h) # ys)"
    by (auto simp: shape_mk)
  have nin: "P l \<notin> P ` starts (xs @ ys)" unfolding P_def using * by (intro posn_notin) auto
  have ord: "\<forall>n\<in>set xs. fst n < X + 1" using * X by fastforce
  have nin1: "P (X + 1) \<notin> P ` starts (xs @ (l, h) # ys)"
    unfolding P_def using * X ord that by (intro posn_notin) force+
  show "blank (f (posn c sz (X + 1)))" "posn c sz (X + 1) \<noteq> posn c sz l"
    using sh nin1 *(1) by (auto simp: shape_mk P_def)
  show "shape c A (xs @ (l, X) # (X + 1, h) # ys)
    (mk (f(posn c sz (X + 1) := cell (X + 1, h) (first_pos (posn c sz) ys (- 1)),
           posn c sz l := cell (l, X) (posn c sz (X + 1)))) hp len sz li)"
    using sh X nin nin1 ord that unfolding shape_mk P_def [symmetric] by (auto simp: image_Un)
qed

lemma clear_rep:
  assumes "shape c A (dead @ live) (mk f hp len sz li)" and "disjoint_ivls live"
  shows "\<exists>s'. clear_nodes hp (mk f (first_pos (posn c sz) live (- 1)) len sz li) = Some s' \<and>
    rep c A live s' \<and> m_iSize s' = sz"
proof -
  have "hp = first_pos (posn c sz) (dead @ live) (- 1)" using assms(1) by (simp add: shape_mk)
  with assms clear_nodes_correct [of c A dead live f sz len li] show ?thesis by (auto simp: rep_def)
qed

text \<open>\<^verbatim>\<open>removeUpTo\<close> when the number starts a range behind the head.\<close>

lemma remove_behind_start:
  assumes sh: "shape c A (us @ (X, h) # vs) s" and dj: "disjoint_ivls (us @ (X, h) # vs)"
  shows "\<exists>ns' s'. remove_behind (posn c (m_iSize s) X) (sq X) s = Some s' \<and> rep c A ns' s' \<and>
    elems ns' = elems (us @ (X, h) # vs) \<inter> {X<..} \<and> m_iSize s' = m_iSize s"
proof -
  obtain f hp len sz li where s: "s = mk f hp len sz li" by (rule mk_cases)
  define P where "P = posn c sz"
  note sh = sh [unfolded s]
  from sh have w: "0 < sz" "sz < m_iSeqNoTH" "in_window A sz (us @ (X, h) # vs)"
      "f (P X) = cell (X, h) (first_pos P vs (- 1))"
    by (auto simp: shape_mk P_def)
  have lo: "elems us \<inter> {X<..} = {}" using dj by (force simp: elems_def)
  have hi: "elems vs \<inter> {X<..} = elems vs" using dj w(3) by (force simp: elems_def)
  show ?thesis
  proof (cases "X = h")
    case True
    have "shape c A ((us @ [(X, h)]) @ vs) (mk f hp len sz li)" using sh by simp
    from clear_rep [OF this] dj obtain s' where
      "clear_nodes hp (mk f (first_pos P vs (- 1)) len sz li) = Some s'" "rep c A vs s'" "m_iSize s' = sz"
      by (auto simp: P_def)
    then show ?thesis using w True lo hi dj
      by (intro exI [of _ vs] exI [of _ s']) (auto simp: remove_behind_def s P_def)
  next
    case False
    then have X: "X \<le> X" "X < h" using w(3) by auto
    have vs: "\<forall>m\<in>set vs. h < fst m" using dj by auto
    note sp = split_shape [OF sh X vs]
    let ?f = "f(P (X + 1) := cell (X + 1, h) (first_pos P vs (- 1)), P X := cell (X, X) (P (X + 1)))"
    have "shape c A ((us @ [(X, X)]) @ (X + 1, h) # vs) (mk ?f hp len sz li)" using sp(1) by (simp add: P_def)
    from clear_rep [OF this] dj obtain s' where
      c: "clear_nodes hp (mk ?f (P (X + 1)) len sz li) = Some s'" "rep c A ((X + 1, h) # vs) s'" "m_iSize s' = sz"
      by (auto simp: P_def)
    have nr: "h - (X + 1) < m_iSeqNoTH" using w by auto
    have "remove_behind (P X) (sq X) s = clear_nodes hp (mk ?f (P (X + 1)) len sz li)"
      using w sp(2,3) X nr
      by (simp add: remove_behind_def s put_tail_eq posn_add Let_def P_def cell_def fun_upd_twist)
    moreover have "elems ((X + 1, h) # vs) = elems (us @ (X, h) # vs) \<inter> {X<..}" using lo hi by auto
    ultimately show ?thesis using c by (auto simp: P_def s)
  qed
qed

lemma remove_behind_between:
  assumes sh: "shape c A (n0 # ns) s" and dj: "disjoint_ivls (n0 # ns)"
    and X: "fst n0 < X" "X \<notin> starts (n0 # ns)" "X - A < m_iSeqNoTH"
  shows "\<exists>ns' s'. remove_behind (posn c (m_iSize s) X) (sq X) s = Some s' \<and> rep c A ns' s' \<and>
    elems ns' = elems (n0 # ns) \<inter> {X<..} \<and> m_iSize s' = m_iSize s"
proof -
  obtain f hp len sz li where s: "s = mk f hp len sz li" by (rule mk_cases)
  define P where "P = posn c sz"
  note sh = sh [unfolded s]
  from sh have w: "0 < sz" "sz < m_iSeqNoTH" "in_window A sz (n0 # ns)" "hp = P (fst n0)"
    by (auto simp: shape_mk P_def)
  have near: "\<bar>fst m - X\<bar> < m_iSeqNoTH \<and> \<bar>snd m - X\<bar> < m_iSeqNoTH" if "m \<in> set (n0 # ns)" for m
    using w X(1,3) that by (auto simp: in_window_def)
  have "\<forall>m\<in>set ns. \<bar>fst m - X\<bar> < m_iSeqNoTH" using near by auto
  from prior_node_correct [of c A "[]" n0 ns f hp len sz li X] sh X(1) this obtain us m vs where
    m: "n0 # ns = us @ m # vs" "fst m < X" "\<forall>k\<in>set vs. X \<le> fst k"
      "prior_node (sq X) (mk f hp len sz li) hp = Some (P (fst m))"
    using w by (auto simp: P_def)
  obtain l h where lh: "m = (l, h)" by (cases m)
  note m = m [unfolded lh fst_conv]
  have sh2: "shape c A (us @ (l, h) # vs) (mk f hp len sz li)" using sh m(1) by simp
  then have cl: "f (P l) = cell (l, h) (first_pos P vs (- 1))" "l \<le> h" "h < A + sz" "A \<le> l"
    by (auto simp: shape_mk P_def)
  have vs: "\<forall>k\<in>set vs. X < fst k" using m(1,3) X(2) by force
  have dj2: "disjoint_ivls us" "disjoint_ivls vs" "\<forall>a\<in>set us. snd a < l" "\<forall>a\<in>set vs. h < fst a"
    using dj [unfolded m(1)] by auto
  have nr: "\<bar>h - X\<bar> < m_iSeqNoTH" using near [of "(l, h)"] m(1) by auto
  have nst: "seqstart (f (P X)) \<noteq> sq X"
  proof (cases "P X \<in> P ` starts (n0 # ns)")
    case True
    then obtain n where n: "n \<in> set (n0 # ns)" "P X = P (fst n)" unfolding image_iff by blast
    then have "seqstart (f (P X)) = sq (fst n)"
      using sh linked_cell [of f P "n0 # ns" "- 1" n] by (auto simp: shape_mk P_def)
    moreover have "fst n \<noteq> X" using n(1) X(2) by auto
    ultimately show ?thesis using near [OF n(1)] by (auto simp: seq_simps m_iSeqNoTH_def)
  next
    case False
    then have "blank (f (P X))" using sh w(1) by (auto simp: shape_mk P_def)
    then show ?thesis by (auto simp: blank_def)
  qed
  have lo: "elems us \<inter> {X<..} = {}" using dj2 m(2) cl by (force simp: elems_def)
  have hi: "elems vs \<inter> {X<..} = elems vs" using vs by (force simp: elems_def)
  show ?thesis
  proof (cases "h \<le> X")
    case True
    have "shape c A ((us @ [(l, h)]) @ vs) (mk f hp len sz li)" using sh2 by simp
    from clear_rep [OF this] dj2 obtain s' where
      c: "clear_nodes hp (mk f (first_pos P vs (- 1)) len sz li) = Some s'" "rep c A vs s'" "m_iSize s' = sz"
      by (auto simp: P_def)
    have "remove_behind (P X) (sq X) s = clear_nodes hp (mk f (first_pos P vs (- 1)) len sz li)"
      using w m(4) cl nst nr True by (auto simp: remove_behind_def s P_def seq_simps)
    then show ?thesis using c lo hi True unfolding m(1)
      by (intro exI [of _ vs] exI [of _ s']) (auto simp: s P_def)
  next
    case False
    then have X': "l \<le> X" "X < h" using m(2) by auto
    note sp = split_shape [OF sh2 X' dj2(4)]
    let ?f = "f(P (X + 1) := cell (X + 1, h) (first_pos P vs (- 1)), P l := cell (l, X) (P (X + 1)))"
    have "shape c A ((us @ [(l, X)]) @ (X + 1, h) # vs) (mk ?f hp len sz li)" using sp(1) by (simp add: P_def)
    from clear_rep [OF this] dj2 obtain s' where
      c: "clear_nodes hp (mk ?f (P (X + 1)) len sz li) = Some s'" "rep c A ((X + 1, h) # vs) s'" "m_iSize s' = sz"
      by (auto simp: P_def)
    have nr2: "h - (X + 1) < m_iSeqNoTH" using nr by auto
    have "remove_behind (P X) (sq X) s = clear_nodes hp (mk ?f (P (X + 1)) len sz li)"
      using w m(2,4) sp(2,3) X' nr nr2 nst cl
      by (simp add: remove_behind_def s put_tail_eq posn_add Let_def P_def cell_def fun_upd_twist seq_simps)
    moreover have "elems ((X + 1, h) # vs) = elems (us @ (l, h) # vs) \<inter> {X<..}" using lo hi X' by auto
    ultimately show ?thesis using c unfolding m(1) by (auto simp: P_def s)
  qed
qed

text \<open>\<^verbatim>\<open>removeUpTo\<close> drops exactly the numbers up to its argument.\<close>

theorem removeUpTo_correct:
  assumes r: "rep c A ns s" and X: "\<bar>X - A\<bar> < m_iSeqNoTH - m_iSize s"
  shows "\<exists>ns' s'. removeUpTo (sq X) s = Some s' \<and> rep c A ns' s' \<and>
    elems ns' = elems ns \<inter> {X<..} \<and> m_iSize s' = m_iSize s"
proof (cases ns)
  case Nil
  with r have "m_iLength s = 0" by (simp add: rep_empty)
  with r Nil show ?thesis by (auto simp: removeUpTo_def)
next
  case (Cons n0 ms)
  obtain l h where n0: "n0 = (l, h)" by (cases n0)
  have sh: "shape c A ((l, h) # ms) s" and dj: "disjoint_ivls ((l, h) # ms)"
    using r Cons n0 by (auto simp: rep_def)
  from sh have w: "0 < m_iSize s" "m_iSize s < m_iSeqNoTH" "in_window A (m_iSize s) ((l, h) # ms)"
      "m_iHead s = posn c (m_iSize s) l" "seqstart (m_caSeq s (posn c (m_iSize s) l)) = sq l"
    by (auto simp: shape_def Let_def)
  have ne: "m_iLength s \<noteq> 0" using r Cons by (simp add: rep_empty)
  have off: "seqoff (sq l) (sq X) = X - l"
    by (rule seqoff_sq) (use w X in auto)
  have loc: "c_mod (posn c (m_iSize s) l + (X - l) + m_iSize s) (m_iSize s) = posn c (m_iSize s) X"
    if "l \<le> X"
    using w(1) that posn_add [of c "m_iSize s" l "X - l"] posn_range(1) [OF w(1), of c l]
    by simp
  consider "X < l" | "X = l" | "l < X" by linarith
  then show ?thesis
  proof cases
    case 1
    have "removeUpTo (sq X) s = Some s" using w ne off 1 by (simp add: removeUpTo_def Let_def)
    moreover have "elems ns \<inter> {X<..} = elems ns"
      using 1 dj w(3) Cons n0 by (force simp: elems_def)
    ultimately show ?thesis using r by blast
  next
    case 2
    have "removeUpTo (sq X) s = remove_head (posn c (m_iSize s) l) (sq l) s"
      using w ne off loc 2 by (simp add: removeUpTo_def Let_def)
    moreover have "elems (behead ((l, h) # ms)) = elems ns \<inter> {X<..}"
      using 2 dj w(3) Cons n0 by (force simp: elems_def behead_def)
    ultimately show ?thesis using remove_head_correct [of c A l h ms s] r Cons n0 by auto
  next
    case 3
    have eq: "removeUpTo (sq X) s = remove_behind (posn c (m_iSize s) X) (sq X) s"
      using w ne off loc 3 by (simp add: removeUpTo_def Let_def)
    show ?thesis
    proof (cases "X \<in> starts ns")
      case True
      then obtain m where "m \<in> set ns" "fst m = X" by auto
      then obtain us k vs where "ns = us @ (X, k) # vs" by (metis prod.collapse split_list)
      with remove_behind_start [of c A us X k vs s] r eq show ?thesis by (auto simp: rep_def)
    next
      case False
      have "X - A < m_iSeqNoTH" using X w(1) by auto
      with remove_behind_between [OF sh dj] False 3 eq Cons n0 show ?thesis by auto
    qed
  qed
qed

lemma CSndLossList_new_rep:
  "0 < sz \<Longrightarrow> sz < m_iSeqNoTH \<Longrightarrow> rep c A [] (CSndLossList_new junk sz)"
  by (simp add: rep_def shape_def CSndLossList_new_def)

section \<open>The contract\<close>

text \<open>The list with \<open>sz\<close> cells holds the set \<open>S\<close> of unwrapped numbers, all in the window
  \<open>[A, A + sz)\<close>.\<close>

definition holds :: "int \<Rightarrow> int \<Rightarrow> int set \<Rightarrow> CSndLossList \<Rightarrow> bool" where
  "holds sz A S s \<longleftrightarrow> m_iSize s = sz \<and> (\<exists>c ns. rep c A ns s \<and> elems ns = S)"

datatype loss_call = Insert int int | RemoveUpTo int | Pop

text \<open>One call on the set of numbers, one call on an implementation, and sequences of both.  A call
  comes with the start \<open>A\<close> of the window the sender is using, which may have moved since the last
  call.\<close>

definition call_ok :: "int \<Rightarrow> int \<times> loss_call \<Rightarrow> int set \<Rightarrow> bool" where
  "call_ok sz ac S \<longleftrightarrow> S \<subseteq> {fst ac..<fst ac + sz} \<and> (case snd ac of
       Insert X1 X2 \<Rightarrow> fst ac \<le> X1 \<and> X1 \<le> X2 \<and> X2 < fst ac + sz \<and> X2 - X1 + 1 < sz
     | RemoveUpTo X \<Rightarrow> \<bar>X - fst ac\<bar> < m_iSeqNoTH - sz
     | Pop \<Rightarrow> True)"

definition set_call :: "loss_call \<Rightarrow> int set \<Rightarrow> int set" where
  "set_call a S = (case a of Insert X1 X2 \<Rightarrow> S \<union> {X1..X2} | RemoveUpTo X \<Rightarrow> S \<inter> {X<..}
     | Pop \<Rightarrow> S - {Min S})"

definition set_result :: "loss_call \<Rightarrow> int set \<Rightarrow> int" where
  "set_result a S = (case a of Insert X1 X2 \<Rightarrow> int (card ({X1..X2} - S)) | RemoveUpTo X \<Rightarrow> 0
     | Pop \<Rightarrow> if S = {} then SRT_SEQNO_NONE else sq (Min S))"

primrec set_calls :: "(int \<times> loss_call) list \<Rightarrow> int set \<Rightarrow> int list \<times> int set" where
  "set_calls [] S = ([], S)"
| "set_calls (a # as) S = (let (rs, S') = set_calls as (set_call (snd a) S) in (set_result (snd a) S # rs, S'))"

primrec calls_ok :: "int \<Rightarrow> (int \<times> loss_call) list \<Rightarrow> int set \<Rightarrow> bool" where
  "calls_ok sz [] S = True"
| "calls_ok sz (a # as) S = (call_ok sz a S \<and> calls_ok sz as (set_call (snd a) S))"

definition code_call :: "loss_call \<Rightarrow> CSndLossList \<Rightarrow> (int \<times> CSndLossList) option" where
  "code_call a s = (case a of Insert X1 X2 \<Rightarrow> insert_loss (sq X1) (sq X2) s
     | RemoveUpTo X \<Rightarrow> map_option (Pair 0) (removeUpTo (sq X) s) | Pop \<Rightarrow> popLostSeq s)"

text \<open>Calls in sequence on any implementation \<open>call\<close>.\<close>

primrec run_calls :: "('a \<Rightarrow> 's \<Rightarrow> ('r \<times> 's) option) \<Rightarrow> 'a list \<Rightarrow> 's \<Rightarrow> ('r list \<times> 's) option" where
  "run_calls call [] s = Some ([], s)"
| "run_calls call (a # as) s = do {
     (r, s) \<leftarrow> call a s;
     (rs, s) \<leftarrow> run_calls call as s;
     Some (r # rs, s) }"

text \<open>What the sending side relies on: an implementation of the calls that keeps, for a window
  that may slide, the set of lost numbers, and whose length is its cardinality.\<close>

locale loss_store =
  fixes keeps :: "int \<Rightarrow> int \<Rightarrow> int set \<Rightarrow> 's \<Rightarrow> bool"
    and call :: "loss_call \<Rightarrow> 's \<Rightarrow> (int \<times> 's) option"
    and len :: "'s \<Rightarrow> int"
  assumes slide: "keeps sz A S s \<Longrightarrow> S \<subseteq> {B..<B + sz} \<Longrightarrow> keeps sz B S s"
    and window: "keeps sz A S s \<Longrightarrow> S \<subseteq> {A..<A + sz}"
    and call_law: "keeps sz A S s \<Longrightarrow> call_ok sz (A, a) S \<Longrightarrow>
      \<exists>s'. call a s = Some (set_result a S, s') \<and> keeps sz A (set_call a S) s'"
    and len_law: "keeps sz A S s \<Longrightarrow> len s = int (card S)"
begin

lemma run:
  assumes "keeps sz A S s" and "calls_ok sz as S"
  shows "\<exists>B s'. run_calls call (map snd as) s = Some (fst (set_calls as S), s') \<and>
    keeps sz B (snd (set_calls as S)) s'"
  using assms
proof (induction as arbitrary: A S s)
  case (Cons a as)
  obtain B b where a: "a = (B, b)" by (cases a)
  from Cons.prems a have "keeps sz B S s" "call_ok sz (B, b) S" by (auto simp: call_ok_def intro: slide)
  from call_law [OF this] obtain s1 where s1: "call b s = Some (set_result b S, s1)"
    "keeps sz B (set_call b S) s1" by blast
  from Cons.IH [OF s1(2)] Cons.prems(2) a obtain B' s' where
    "run_calls call (map snd as) s1 = Some (fst (set_calls as (set_call b S)), s')"
    "keeps sz B' (snd (set_calls as (set_call b S))) s'" by auto
  with s1 a show ?case by (auto simp: Let_def split: prod.splits)
qed auto

text \<open>Popping as often as there are numbers returns each of them once, in ascending order.\<close>

lemma drain:
  assumes "keeps sz A S s"
  shows "\<exists>s'. run_calls call (replicate (card S) Pop) s = Some (map sq (sorted_list_of_set S), s') \<and>
    keeps sz A {} s' \<and> len s' = 0"
  using assms
proof (induction "card S" arbitrary: S s)
  case 0
  from window [OF 0(2)] finite_subset have fin: "finite S" by blast
  with 0 have "S = {}" by simp
  with 0 len_law [OF 0(2)] show ?case by auto
next
  case (Suc n)
  from window [OF Suc(3)] finite_subset have fin: "finite S" by blast
  have ne: "S \<noteq> {}" using Suc(2) by auto
  have "call_ok sz (A, Pop) S" using window [OF Suc(3)] by (simp add: call_ok_def)
  from call_law [OF Suc(3) this] ne obtain s1 where s1: "call Pop s = Some (sq (Min S), s1)"
    "keeps sz A (S - {Min S}) s1" by (auto simp: set_result_def set_call_def)
  have n: "n = card (S - {Min S})" using Suc(2) fin ne by (simp add: card_Diff_singleton)
  from Suc(1) [OF n s1(2)] obtain s' where
    "run_calls call (replicate n Pop) s1 = Some (map sq (sorted_list_of_set (S - {Min S})), s')"
    "keeps sz A {} s' \<and> len s' = 0" unfolding n by auto
  moreover have "sorted_list_of_set S = Min S # sorted_list_of_set (S - {Min S})"
    using fin ne by (simp add: sorted_list_of_set_nonempty)
  ultimately show ?case using s1 Suc(2) [symmetric] by simp
qed

end

lemma holds_window: "holds sz A S s \<Longrightarrow> S \<subseteq> {A..<A + sz}"
  by (auto simp: holds_def rep_def shape_def elems_def in_window_def Let_def)

lemma holds_slide:
  assumes "holds sz A S s" and "S \<subseteq> {B..<B + sz}"
  shows "holds sz B S s"
proof -
  obtain c ns where r: "m_iSize s = sz" "rep c A ns s" "elems ns = S" using assms(1) by (auto simp: holds_def)
  have "in_window B sz ns" unfolding in_window_def
  proof
    fix n assume n: "n \<in> set ns"
    then have "fst n \<le> snd n" using r(2) by (auto simp: rep_def shape_def Let_def in_window_def)
    moreover have "{fst n..snd n} \<subseteq> {B..<B + sz}" using n r(3) assms(2) by (auto simp: elems_def)
    ultimately show "B \<le> fst n \<and> fst n \<le> snd n \<and> snd n < B + sz" by auto
  qed
  with r have "rep c B ns s" by (auto simp: rep_def shape_def Let_def)
  with r show ?thesis by (auto simp: holds_def)
qed

lemma holds_pop:
  assumes "holds sz A S s" and "S \<noteq> {}"
  shows "\<exists>s'. popLostSeq s = Some (sq (Min S), s') \<and> holds sz A (S - {Min S}) s'"
proof -
  obtain c ns where r: "m_iSize s = sz" "rep c A ns s" "elems ns = S" using assms(1) by (auto simp: holds_def)
  with assms(2) obtain l h ys where ns: "ns = (l, h) # ys" by (cases ns) auto
  then have o: "l \<le> h" "\<forall>n\<in>set ys. h < fst n" using r(2) by (auto simp: rep_def shape_def Let_def)
  have fin: "finite S" using r(3) by (auto simp: elems_def)
  have "Min S = l" using o fin r(3) ns by (intro Min_eqI) (auto simp: elems_def)
  moreover have "elems (behead ns) = S - {l}" unfolding r(3) [symmetric]
    using o ns by (force simp: behead_def elems_def)
  moreover obtain s' where "popLostSeq s = Some (sq l, s')" "rep c A (behead ns) s'" "m_iSize s' = sz"
    using popLostSeq_correct [of c A l h ys s] r(1,2) ns by auto
  ultimately show ?thesis by (auto simp: holds_def)
qed

lemma holds_pop_empty: "holds sz A {} s \<Longrightarrow> popLostSeq s = Some (SRT_SEQNO_NONE, s)"
proof -
  assume h: "holds sz A {} s"
  then obtain c ns where r: "m_iSize s = sz" "rep c A ns s" "elems ns = {}" by (auto simp: holds_def)
  then have "ns = []" by (cases ns) (auto simp: rep_def shape_def Let_def)
  with r show ?thesis by (auto simp: popLostSeq_def SRT_ASSERT_def rep_def shape_def Let_def)
qed

interpretation snd_list: loss_store holds code_call getLossLength
proof
  show "holds sz A S s \<Longrightarrow> S \<subseteq> {B..<B + sz} \<Longrightarrow> holds sz B S s" for sz A S s B by (rule holds_slide)
  show "holds sz A S s \<Longrightarrow> S \<subseteq> {A..<A + sz}" for sz A S s by (rule holds_window)
  show "holds sz A S s \<Longrightarrow> getLossLength s = int (card S)" for sz A S s
    by (auto simp: holds_def getLossLength_def rep_total)
  fix sz A S s a
  assume h: "holds sz A S s" and ok: "call_ok sz (A, a) S"
  show "\<exists>s'. code_call a s = Some (set_result a S, s') \<and> holds sz A (set_call a S) s'"
  proof (cases a)
    case (Insert X1 X2)
    from h obtain c ns where r: "m_iSize s = sz" "rep c A ns s" "elems ns = S" by (auto simp: holds_def)
    with insert_loss_correct [OF r(2), of X1 X2] ok Insert show ?thesis
      by (auto simp: holds_def code_call_def set_call_def set_result_def call_ok_def)
  next
    case (RemoveUpTo X)
    from h obtain c ns where r: "m_iSize s = sz" "rep c A ns s" "elems ns = S" by (auto simp: holds_def)
    with removeUpTo_correct [OF r(2), of X] ok RemoveUpTo show ?thesis
      by (auto simp: holds_def code_call_def set_call_def set_result_def call_ok_def)
  next
    case Pop
    show ?thesis
    proof (cases "S = {}")
      case True
      with h holds_pop_empty Pop show ?thesis by (auto simp: code_call_def set_call_def set_result_def)
    next
      case False
      with holds_pop [OF h] Pop show ?thesis by (auto simp: code_call_def set_call_def set_result_def)
    qed
  qed
qed


lemma holds_new: "0 < sz \<Longrightarrow> sz < m_iSeqNoTH \<Longrightarrow> holds sz A {} (CSndLossList_new junk sz)"
  using CSndLossList_new_rep [of sz] by (fastforce simp: holds_def CSndLossList_new_def)

section \<open>Properties\<close>

text \<open>C4: the sender's loss list refines a set of sequence numbers.  On a fresh list of \<open>sz\<close> cells,
  any sequence of insert, removeUpTo and popLostSeq calls, each of whose numbers (and those still
  held) fit a window of \<open>sz\<close> numbers that may slide between calls and wrap around, returns: no
  access leaves the array, no assertion fails and no loop runs on.  The returned values are the
  count of newly inserted numbers and the smallest lost number (or none), and the reported
  length is the number of elements.\<close>

theorem snd_loss_calls_refine_set:
  assumes "0 < sz" and "sz < m_iSeqNoTH" and "calls_ok sz as {}"
  shows "\<exists>A s'. run_calls code_call (map snd as) (CSndLossList_new junk sz) =
      Some (fst (set_calls as {}), s') \<and>
    holds sz A (snd (set_calls as {})) s' \<and> getLossLength s' = int (card (snd (set_calls as {})))"
  using snd_list.run [OF holds_new [OF assms(1,2)] assms(3)] snd_list.len_law by blast

theorem snd_loss_calls_refine_set_witness:
  "\<exists>s'. run_calls code_call [Insert 8 9, Insert 5 6, RemoveUpTo 5, Insert 7 8]
      (CSndLossList_new (\<lambda>i. 7) 10) = Some ([2, 2, 0, 1], s') \<and> getLossLength s' = 4"
proof -
  let ?as = "[(0, Insert 8 9), (0, Insert 5 6), (3, RemoveUpTo 5), (4, Insert 7 8)]"
  have e: "{5..6::int} - {8..9} = {5, 6}" "{7..8::int} - ({8..9} \<union> {5..6}) \<inter> {5<..} = {7}"
     "({8..9::int} \<union> {5..6}) \<inter> {5<..} \<union> {7..8} = {6..9}" by auto
  have r: "fst (set_calls ?as {}) = [2, 2, 0, 1]" "snd (set_calls ?as {}) = {6..9}"
    by (simp_all add: set_call_def set_result_def e)
  have "calls_ok 10 ?as {}" by (auto simp: call_ok_def set_call_def m_iSeqNoTH_def)
  from snd_loss_calls_refine_set [OF _ _ this, of "\<lambda>i. 7"] r show ?thesis
    by (auto simp: m_iSeqNoTH_def)
qed

text \<open>C23: the lost numbers come out for retransmission each exactly once and in ascending order
  (also across the wrap of the sequence numbers), and the list is empty afterwards.\<close>

theorem snd_loss_drain:
  assumes "holds sz A S s"
  shows "\<exists>s'. run_calls code_call (replicate (card S) Pop) s = Some (map sq (sorted_list_of_set S), s') \<and>
    holds sz A {} s' \<and> getLossLength s' = 0"
  using assms by (rule snd_list.drain)

theorem snd_loss_drain_witness:
  "\<exists>s s'. insert_loss 2147483646 1 (CSndLossList_new (\<lambda>i. 7) 10) = Some (4, s) \<and>
    run_calls code_call [Pop, Pop, Pop, Pop] s = Some ([2147483646, 2147483647, 0, 1], s') \<and>
    getLossLength s' = 0"
proof -
  have h0: "holds 10 2147483646 {} (CSndLossList_new (\<lambda>i. 7) 10)"
    by (rule holds_new) (auto simp: m_iSeqNoTH_def)
  have ok: "call_ok 10 (2147483646, Insert 2147483646 2147483649) {}" by (simp add: call_ok_def)
  from snd_list.call_law [OF h0 ok] obtain s where
    s: "insert_loss (sq 2147483646) (sq 2147483649) (CSndLossList_new (\<lambda>i. 7) 10) = Some (4, s)"
      "holds 10 2147483646 {2147483646..2147483649} s"
    by (auto simp: code_call_def set_call_def set_result_def)
  have l: "{2147483646..2147483649::int} = set [2147483646, 2147483647, 2147483648, 2147483649]" by auto
  have "sorted_list_of_set {2147483646..2147483649::int} = [2147483646, 2147483647, 2147483648, 2147483649]"
    unfolding l by (subst sorted_list_of_set_sort_remdups) simp
  with snd_loss_drain [OF s(2)] s(1) show ?thesis by (auto simp: sq_def numeral_eq_Suc)
qed

text \<open>The condition on the window is needed: \<open>insert\<close> checks the offset of the first number and
  the length of the range, but not their sum.  With 10 cells, two ranges of nine numbers are both
  accepted; the acknowledgement of number 9 then leaves a head cell that is its own successor
  and a length that still counts all 18 numbers.\<close>

theorem snd_loss_overfull_corrupts:
  "do { (_, s) \<leftarrow> insert_loss 0 8 (CSndLossList_new (\<lambda>i. 0) 10);
        (_, s) \<leftarrow> insert_loss 9 17 s;
        s \<leftarrow> removeUpTo 9 s;
        Some (getLossLength s, inext (m_caSeq s (m_iHead s)) = m_iHead s) } = Some (18, True)"
  by code_simp

end
