(* ===== verification/Packet.thy ===== *)
theory Packet
  imports Prelude "HOL-Library.Word"
begin

text \<open>
  Packets and their wire form: \<^verbatim>\<open>Bits\<close> and the byte order helpers of
  \<^verbatim>\<open>srtcore/utilities.h\<close>, \<^verbatim>\<open>CPacket\<close> of \<^verbatim>\<open>srtcore/packet.h\<close> and
  \<^verbatim>\<open>packet.cpp\<close>, and the part of \<^verbatim>\<open>CChannel\<close> that turns a packet into a
  datagram and back.

  The header is a function from its four fields to 32-bit words; the payload is the memory behind
  \<^verbatim>\<open>m_pcData\<close>, a byte list, with its length kept apart, since the code can make the two
  disagree.  A little-endian host is assumed where memory is read as words.  Reading past the end
  of the payload memory is \<^term>\<open>None\<close>.
\<close>

unbundle bit_operations_syntax

section \<open>Bits and byte order\<close>

type_synonym byte = "8 word"
type_synonym u32 = "32 word"

fun BitsetMask :: "nat \<Rightarrow> nat \<Rightarrow> u32" where
  "BitsetMask L R = (if L \<le> R then push_bit R 1 else push_bit L 1 OR BitsetMask (L - 1) R)"

declare BitsetMask.simps [simp del]

definition bits_fit :: "nat \<Rightarrow> nat \<Rightarrow> u32 \<Rightarrow> bool" where
  "bits_fit L R v \<longleftrightarrow> BitsetMask (L - R) 0 AND v = v"

definition bits_wrap :: "nat \<Rightarrow> nat \<Rightarrow> u32 \<Rightarrow> u32" where
  "bits_wrap L R baseval = push_bit R baseval AND BitsetMask L R"

definition bits_unwrap :: "nat \<Rightarrow> nat \<Rightarrow> u32 \<Rightarrow> u32" where
  "bits_unwrap L R bitset = drop_bit R (bitset AND BitsetMask L R)"

definition store_be32 :: "u32 \<Rightarrow> byte list" where
  "store_be32 v = [ucast (drop_bit 24 v), ucast (drop_bit 16 v), ucast (drop_bit 8 v), ucast v]"

definition store_be16 :: "16 word \<Rightarrow> byte list" where
  "store_be16 v = [ucast (drop_bit 8 v), ucast v]"

text \<open>A 32-bit load from four bytes of memory on a little-endian host, and the word with its bytes
  in the other order, which is what \<^verbatim>\<open>htobe32\<close> and \<^verbatim>\<open>be32toh\<close> give there.\<close>

definition load32 :: "byte list \<Rightarrow> u32" where
  "load32 bs = ucast (bs ! 0) OR push_bit 8 (ucast (bs ! 1)) OR push_bit 16 (ucast (bs ! 2)) OR
     push_bit 24 (ucast (bs ! 3))"

definition swap32 :: "u32 \<Rightarrow> u32" where
  "swap32 v = load32 (store_be32 v)"

text \<open>\<^verbatim>\<open>HtoNLA\<close> and \<^verbatim>\<open>NtoHLA\<close> on \<open>n\<close> words of memory.\<close>

fun swap_words :: "nat \<Rightarrow> byte list \<Rightarrow> byte list" where
  "swap_words 0 bs = bs"
| "swap_words (Suc n) bs = rev (take 4 bs) @ swap_words n (drop 4 bs)"

section \<open>CPacket\<close>

datatype SrtPktHeaderFields = SRT_PH_SEQNO | SRT_PH_MSGNO | SRT_PH_TIMESTAMP | SRT_PH_ID

datatype UDTMessageType = UMSG_HANDSHAKE | UMSG_KEEPALIVE | UMSG_ACK | UMSG_LOSSREPORT
  | UMSG_CGWARNING | UMSG_SHUTDOWN | UMSG_ACKACK | UMSG_DROPREQ | UMSG_PEERERROR | UMSG_EXT

definition msgtype_code :: "UDTMessageType \<Rightarrow> u32" where
  "msgtype_code t = (case t of UMSG_HANDSHAKE \<Rightarrow> 0 | UMSG_KEEPALIVE \<Rightarrow> 1 | UMSG_ACK \<Rightarrow> 2
     | UMSG_LOSSREPORT \<Rightarrow> 3 | UMSG_CGWARNING \<Rightarrow> 4 | UMSG_SHUTDOWN \<Rightarrow> 5 | UMSG_ACKACK \<Rightarrow> 6
     | UMSG_DROPREQ \<Rightarrow> 7 | UMSG_PEERERROR \<Rightarrow> 8 | UMSG_EXT \<Rightarrow> 0x7FFF)"

datatype PacketBoundary = PB_SUBSEQUENT | PB_LAST | PB_FIRST | PB_SOLO

definition boundary_code :: "PacketBoundary \<Rightarrow> u32" where
  "boundary_code b = (case b of PB_SUBSEQUENT \<Rightarrow> 0 | PB_LAST \<Rightarrow> 1 | PB_FIRST \<Rightarrow> 2 | PB_SOLO \<Rightarrow> 3)"

record CPacket =
  m_nHeader :: "SrtPktHeaderFields \<Rightarrow> u32"
  m_pcData :: "byte list"
  m_Length :: nat

definition isControl :: "CPacket \<Rightarrow> bool" where
  "isControl p \<longleftrightarrow> bits_unwrap 31 31 (m_nHeader p SRT_PH_SEQNO) \<noteq> 0"

text \<open>The type field is kept as its number: \<^verbatim>\<open>UDTMessageType(...)\<close> casts any value.\<close>

definition getType :: "CPacket \<Rightarrow> u32" where
  "getType p = bits_unwrap 30 16 (m_nHeader p SRT_PH_SEQNO)"

definition getExtendedType :: "CPacket \<Rightarrow> u32" where
  "getExtendedType p = bits_unwrap 15 0 (m_nHeader p SRT_PH_SEQNO)"

definition setControl :: "UDTMessageType \<Rightarrow> CPacket \<Rightarrow> CPacket" where
  "setControl t p = p\<lparr>m_nHeader := (m_nHeader p)(SRT_PH_SEQNO :=
     BitsetMask 31 31 OR bits_wrap 30 16 (msgtype_code t))\<rparr>"

definition getMsgBoundary :: "CPacket \<Rightarrow> u32" where
  "getMsgBoundary p = bits_unwrap 31 30 (m_nHeader p SRT_PH_MSGNO)"

definition getMsgOrderFlag :: "CPacket \<Rightarrow> bool" where
  "getMsgOrderFlag p \<longleftrightarrow> bits_unwrap 29 29 (m_nHeader p SRT_PH_MSGNO) \<noteq> 0"

definition getMsgSeq :: "bool \<Rightarrow> CPacket \<Rightarrow> u32" where
  "getMsgSeq has_rexmit p =
     (if has_rexmit then bits_unwrap 25 0 (m_nHeader p SRT_PH_MSGNO)
      else bits_unwrap 26 0 (m_nHeader p SRT_PH_MSGNO))"

definition getRexmitFlag :: "CPacket \<Rightarrow> bool" where
  "getRexmitFlag p \<longleftrightarrow> bits_unwrap 26 26 (m_nHeader p SRT_PH_MSGNO) \<noteq> 0"

definition setRexmitFlag :: "bool \<Rightarrow> CPacket \<Rightarrow> CPacket" where
  "setRexmitFlag r p =
     (let clr_msgno = m_nHeader p SRT_PH_MSGNO AND NOT (BitsetMask 26 26)
      in p\<lparr>m_nHeader := (m_nHeader p)(SRT_PH_MSGNO :=
           clr_msgno OR bits_wrap 26 26 (if r then 1 else 0))\<rparr>)"

definition getMsgCryptoFlags :: "CPacket \<Rightarrow> u32" where
  "getMsgCryptoFlags p = bits_unwrap 28 27 (m_nHeader p SRT_PH_MSGNO)"

definition setMsgCryptoFlags :: "u32 \<Rightarrow> CPacket \<Rightarrow> CPacket" where
  "setMsgCryptoFlags spec p =
     (let clr_msgno = m_nHeader p SRT_PH_MSGNO AND NOT (BitsetMask 28 27)
      in p\<lparr>m_nHeader := (m_nHeader p)(SRT_PH_MSGNO := clr_msgno OR bits_wrap 28 27 spec)\<rparr>)"

definition getSeqNo :: "CPacket \<Rightarrow> int" where
  "getSeqNo p = sint (m_nHeader p SRT_PH_SEQNO)"

definition getMsgTimeStamp :: "CPacket \<Rightarrow> int" where
  "getMsgTimeStamp p = uint (m_nHeader p SRT_PH_TIMESTAMP)"

definition is_first :: "CPacket \<Rightarrow> bool" where
  "is_first p \<longleftrightarrow> getMsgBoundary p AND boundary_code PB_FIRST \<noteq> 0"

definition is_last :: "CPacket \<Rightarrow> bool" where
  "is_last p \<longleftrightarrow> getMsgBoundary p AND boundary_code PB_LAST \<noteq> 0"

definition SRT_MSGNO_NONE :: int where "SRT_MSGNO_NONE = - 1"
definition SRT_MSGNO_CONTROL :: int where "SRT_MSGNO_CONTROL = 0"

record SRT_MSGCTRL =
  mc_msgttl :: int
  mc_inorder :: bool
  mc_srctime :: int
  mc_pktseq :: int
  mc_msgno :: int

definition set_data :: "byte list \<Rightarrow> nat \<Rightarrow> CPacket \<Rightarrow> CPacket" where
  "set_data buf len p = p\<lparr>m_pcData := buf, m_Length := len\<rparr>"

definition set_arg :: "u32 option \<Rightarrow> CPacket \<Rightarrow> CPacket option" where
  "set_arg lparam p = map_option (\<lambda>v. p\<lparr>m_nHeader := (m_nHeader p)(SRT_PH_MSGNO := v)\<rparr>) lparam"

text \<open>\<open>lparam\<close> and \<open>rparam\<close> are the pointers of the C++ signature, \<^term>\<open>None\<close> for a null pointer;
  following a null pointer is \<^term>\<open>None\<close>.  The field \<^verbatim>\<open>m_extra_pad\<close> is four zero bytes.\<close>

definition extra_pad :: "byte list" where
  "extra_pad = [0, 0, 0, 0]"

definition pack :: "UDTMessageType \<Rightarrow> u32 option \<Rightarrow> byte list option \<Rightarrow> CPacket \<Rightarrow> CPacket option" where
  "pack pkttype lparam rparam p0 =
     (let p = setControl pkttype p0;
          buf = (case rparam of None \<Rightarrow> [] | Some bs \<Rightarrow> bs);
          body = set_data buf (length buf)
      in case pkttype of
        UMSG_ACK \<Rightarrow> Some (body (case set_arg lparam p of None \<Rightarrow> p | Some q \<Rightarrow> q))
      | UMSG_ACKACK \<Rightarrow> map_option (set_data extra_pad 4) (set_arg lparam p)
      | UMSG_LOSSREPORT \<Rightarrow> Some (body p)
      | UMSG_CGWARNING \<Rightarrow> Some (set_data extra_pad 4 p)
      | UMSG_KEEPALIVE \<Rightarrow>
          Some (set_data extra_pad 4 (case set_arg lparam p of None \<Rightarrow> p | Some q \<Rightarrow> q))
      | UMSG_HANDSHAKE \<Rightarrow> Some (body p)
      | UMSG_SHUTDOWN \<Rightarrow> Some (set_data extra_pad 4 p)
      | UMSG_DROPREQ \<Rightarrow> map_option body (set_arg lparam p)
      | UMSG_PEERERROR \<Rightarrow> map_option (set_data extra_pad 4) (set_arg lparam p)
      | UMSG_EXT \<Rightarrow>
          map_option (\<lambda>v. (case rparam of Some bs \<Rightarrow> body | None \<Rightarrow> set_data extra_pad 4)
             (p\<lparr>m_nHeader := (m_nHeader p)(SRT_PH_SEQNO := m_nHeader p SRT_PH_SEQNO OR v)\<rparr>)) lparam)"

definition swap_header :: "CPacket \<Rightarrow> CPacket" where
  "swap_header p = p\<lparr>m_nHeader := (\<lambda>f. swap32 (m_nHeader p f))\<rparr>"

definition swap_payload :: "CPacket \<Rightarrow> CPacket option" where
  "swap_payload p = (if 4 * (m_Length p div 4) \<le> length (m_pcData p)
     then Some (p\<lparr>m_pcData := swap_words (m_Length p div 4) (m_pcData p)\<rparr>) else None)"

definition toNetworkByteOrder :: "CPacket \<Rightarrow> CPacket option" where
  "toNetworkByteOrder p =
     map_option swap_header (if isControl p then swap_payload p else Some p)"

definition toHostByteOrder :: "CPacket \<Rightarrow> CPacket option" where
  "toHostByteOrder p0 = (let p = swap_header p0 in if isControl p then swap_payload p else Some p)"

section \<open>The datagram\<close>

definition header_fields :: "SrtPktHeaderFields list" where
  "header_fields = [SRT_PH_SEQNO, SRT_PH_MSGNO, SRT_PH_TIMESTAMP, SRT_PH_ID]"

text \<open>What \<^verbatim>\<open>CChannel::sendto\<close> hands to the socket: the memory of the header and then that
  of the payload, after the conversion to network order.\<close>

definition chan_send :: "CPacket \<Rightarrow> byte list option" where
  "chan_send p = do {
     q \<leftarrow> toNetworkByteOrder p;
     if m_Length q \<le> length (m_pcData q)
     then Some (concat (map (\<lambda>f. rev (store_be32 (m_nHeader q f))) header_fields) @
                take (m_Length q) (m_pcData q))
     else None }"

datatype recv_status = RST_OK CPacket | RST_AGAIN

text \<open>What \<^verbatim>\<open>CChannel::recvfrom\<close> makes of a datagram that arrived complete.\<close>

definition chan_recv :: "byte list \<Rightarrow> recv_status option" where
  "chan_recv dgram = (if length dgram < 16 then Some RST_AGAIN
     else map_option RST_OK (toHostByteOrder
       \<lparr>m_nHeader = (\<lambda>f. load32 (drop (case f of SRT_PH_SEQNO \<Rightarrow> 0 | SRT_PH_MSGNO \<Rightarrow> 4
            | SRT_PH_TIMESTAMP \<Rightarrow> 8 | SRT_PH_ID \<Rightarrow> 12) dgram)),
        m_pcData = drop 16 dgram, m_Length = length dgram - 16\<rparr>))"

lemma bit_BitsetMask [simp]: "bit (BitsetMask L R) n \<longleftrightarrow> n < 32 \<and> R \<le> n \<and> n \<le> max L R"
proof (induction L R rule: BitsetMask.induct)
  case (1 L R)
  then show ?case by (subst BitsetMask.simps) (auto simp: bit_simps)
qed

lemma load32_store_be32 [simp]: "load32 (rev (store_be32 v)) = v"
proof (rule bit_word_eqI)
  fix n assume "n < LENGTH(32)"
  then consider "n < 8" | "8 \<le> n" "n < 16" | "16 \<le> n" "n < 24" | "24 \<le> n" "n < 32" by fastforce
  then show "bit (load32 (rev (store_be32 v))) n = bit v n"
    by cases (auto simp: load32_def store_be32_def bit_simps)
qed

lemma list4: "length bs = 4 \<Longrightarrow> \<exists>a b c d. bs = [a, b, c, d]"
  by (auto simp: length_Suc_conv numeral_eq_Suc)

lemma byte_bit: "bit (a :: byte) k \<Longrightarrow> k < 8"
  using bit_imp_le_length by fastforce

lemma byte_bits [simp]: "\<not> bit (a :: byte) (24 + n)" "\<not> bit (a :: byte) (16 + n)" "\<not> bit (a :: byte) (8 + n)"
  by (auto dest: byte_bit)

lemma store_be32_load32 [simp]: "length bs = 4 \<Longrightarrow> store_be32 (load32 bs) = rev bs"
  by (drule list4) (auto simp: load32_def store_be32_def intro!: bit_word_eqI; simp add: bit_simps)

lemma store_be32_length [simp]: "length (store_be32 v) = 4"
  by (simp add: store_be32_def)

lemma swap32_swap32 [simp]: "swap32 (swap32 v) = v"
proof -
  have "swap32 (swap32 v) = load32 (rev (store_be32 v))" by (simp add: swap32_def)
  then show ?thesis by simp
qed

lemma swap_words_inverse:
  "4 * n \<le> length bs \<Longrightarrow> swap_words n (swap_words n bs) = bs"
proof (induction n bs rule: swap_words.induct)
  case (2 n bs)
  then have "length (rev (take 4 bs)) = 4" by simp
  with 2 show ?case by (simp add: append_take_drop_id)
qed simp

lemma swap_words_length [simp]: "length (swap_words n bs) = length bs"
  by (induction n bs rule: swap_words.induct) auto

lemma swap_header_fields [simp]: "m_nHeader (swap_header p) = (\<lambda>f. swap32 (m_nHeader p f))"
  "m_pcData (swap_header p) = m_pcData p" "m_Length (swap_header p) = m_Length p"
  by (simp_all add: swap_header_def)

definition packet_ok :: "CPacket \<Rightarrow> bool" where
  "packet_ok p \<longleftrightarrow> m_Length p = length (m_pcData p)"

section \<open>Properties\<close>

text \<open>The receiving channel undoes what the sending channel did.\<close>

lemma chan_inverse:
  assumes "packet_ok p"
  shows "\<exists>d. chan_send p = Some d \<and> length d = 16 + m_Length p \<and> chan_recv d = Some (RST_OK p)"
proof -
  have len: "4 * (m_Length p div 4) \<le> length (m_pcData p)" using assms by (simp add: packet_ok_def)
  define bs where "bs = (if isControl p then swap_words (m_Length p div 4) (m_pcData p) else m_pcData p)"
  have bs: "length bs = m_Length p" using assms by (simp add: bs_def packet_ok_def)
  define hd where "hd = concat (map (\<lambda>f. store_be32 (m_nHeader p f)) header_fields)"
  have sw: "rev (store_be32 (swap32 v)) = store_be32 v" for v by (simp add: swap32_def)
  have s: "chan_send p = Some (hd @ bs)"
    using len assms bs
    by (auto simp: chan_send_def toNetworkByteOrder_def swap_payload_def bs_def hd_def sw packet_ok_def)
  have l: "length hd = 16" by (simp add: hd_def header_fields_def)
  have ld: "load32 (drop (case f of SRT_PH_SEQNO \<Rightarrow> 0 | SRT_PH_MSGNO \<Rightarrow> 4
            | SRT_PH_TIMESTAMP \<Rightarrow> 8 | SRT_PH_ID \<Rightarrow> 12) (hd @ bs)) = swap32 (m_nHeader p f)" for f
    by (cases f) (simp_all add: hd_def header_fields_def swap32_def load32_def store_be32_def)
  have "chan_recv (hd @ bs) = map_option RST_OK (toHostByteOrder
      \<lparr>m_nHeader = (\<lambda>f. swap32 (m_nHeader p f)), m_pcData = bs, m_Length = m_Length p\<rparr>)"
    using l bs by (simp only: chan_recv_def ld) simp
  also have "\<dots> = Some (RST_OK p)"
    using len assms
    by (cases p) (auto simp: toHostByteOrder_def swap_header_def isControl_def swap_payload_def bs_def
        swap_words_inverse Let_def)
  finally show ?thesis using s l bs by auto
qed

text \<open>C25: a packet sent and received again is the same packet: the datagram built by the sending
  channel, header in network order followed by the payload, with the words of a control payload
  swapped, is accepted by the receiving channel and gives the same header and payload.\<close>

theorem chan_roundtrip:
  assumes "packet_ok p"
  shows "\<exists>d. chan_send p = Some d \<and> length d = 16 + m_Length p \<and> chan_recv d = Some (RST_OK p)"
  using assms by (rule chan_inverse)

theorem chan_roundtrip_witness:
  "\<exists>d. chan_send \<lparr>m_nHeader = (\<lambda>f. 0x80020000), m_pcData = [1, 2, 3, 4, 5], m_Length = 5\<rparr> = Some d \<and>
    length d = 21 \<and>
    chan_recv d = Some (RST_OK \<lparr>m_nHeader = (\<lambda>f. 0x80020000), m_pcData = [1, 2, 3, 4, 5], m_Length = 5\<rparr>)"
  using chan_roundtrip [of "\<lparr>m_nHeader = (\<lambda>f. 0x80020000), m_pcData = [1, 2, 3, 4, 5], m_Length = 5\<rparr>"]
  by (simp add: packet_ok_def)

lemma bit_unwrap: "bit (bits_unwrap L R v) n \<longleftrightarrow> R + n < 32 \<and> R + n \<le> max L R \<and> bit v (R + n)"
  by (auto simp: bits_unwrap_def bit_simps)

lemma bit_wrap: "bit (bits_wrap L R v) n \<longleftrightarrow> n < 32 \<and> R \<le> n \<and> n \<le> max L R \<and> bit v (n - R)"
  by (auto simp: bits_wrap_def bit_simps)

lemmas bit_fields = bit_unwrap bit_wrap bit_and_iff bit_or_iff bit_not_iff bit_BitsetMask

text \<open>A field's value survives writing it into a word in which the field is clear.\<close>

lemma unwrap_wrap:
  assumes "bits_fit L R v" and "R \<le> L" and "L < 32" and "w AND BitsetMask L R = 0"
  shows "bits_unwrap L R (w OR bits_wrap L R v) = v"
proof (rule bit_word_eqI)
  fix n
  have w: "\<not> (bit w (R + n) \<and> R + n \<le> L)"
    using arg_cong [OF assms(4), of "\<lambda>x. bit x (R + n)"] assms(3) by (auto simp: bit_fields)
  have "bit v n \<Longrightarrow> n \<le> L - R"
    using arg_cong [OF assms(1) [unfolded bits_fit_def], of "\<lambda>x. bit x n"] by (auto simp: bit_fields)
  with w assms(2,3) show "bit (bits_unwrap L R (w OR bits_wrap L R v)) n = bit v n"
    by (auto simp: bit_fields)
qed

text \<open>Another field keeps its value.\<close>

lemma unwrap_other:
  assumes "max L R < R' \<or> max L' R' < R"
  shows "bits_unwrap L R (w AND NOT (BitsetMask L' R') OR bits_wrap L' R' v) = bits_unwrap L R w"
  using assms by (intro bit_word_eqI) (auto simp: bit_fields)

lemma clear_field: "(w AND NOT m) AND m = (0 :: u32)"
  by (rule bit_word_eqI) (auto simp: bit_simps)

lemma unwrap_set:
  assumes "bits_fit L R v" and "R \<le> L" and "L < 32"
  shows "bits_unwrap L R (w AND NOT (BitsetMask L R) OR bits_wrap L R v) = v"
  using assms by (intro unwrap_wrap) (auto simp: clear_field)

lemma fit_flag: "bits_fit L L (if b then 1 else 0)"
  by (auto simp: bits_fit_def BitsetMask.simps)

text \<open>The flags of a data packet's message word are independent: setting the retransmission
  flag or the two key bits changes exactly that field and leaves boundary, order and message
  number as they were.\<close>

theorem msgno_flags_independent:
  assumes "spec \<le> 3"
  shows "getRexmitFlag (setRexmitFlag r p) = r \<and> getMsgCryptoFlags (setRexmitFlag r p) = getMsgCryptoFlags p \<and>
    getMsgCryptoFlags (setMsgCryptoFlags spec p) = spec \<and>
    getRexmitFlag (setMsgCryptoFlags spec p) = getRexmitFlag p \<and>
    (\<forall>q \<in> {setRexmitFlag r p, setMsgCryptoFlags spec p}. getMsgBoundary q = getMsgBoundary p \<and>
       getMsgOrderFlag q = getMsgOrderFlag p \<and> getMsgSeq True q = getMsgSeq True p)"
proof -
  have sp: "bits_fit 28 27 spec"
  proof -
    have "spec = 0 \<or> spec = 1 \<or> spec = 2 \<or> spec = 3" using assms by uint_arith
    then show ?thesis by (auto simp: bits_fit_def BitsetMask.simps)
  qed
  show ?thesis
    by (auto simp: setRexmitFlag_def setMsgCryptoFlags_def getRexmitFlag_def getMsgCryptoFlags_def
        getMsgBoundary_def getMsgOrderFlag_def getMsgSeq_def Let_def unwrap_other unwrap_set [OF sp]
        unwrap_set [OF fit_flag] simp del: One_nat_def)
qed

theorem msgno_flags_independent_witness:
  "getMsgCryptoFlags (setMsgCryptoFlags 2 \<lparr>m_nHeader = (\<lambda>f. 0xFFFFFFFF), m_pcData = [], m_Length = 0\<rparr>) = 2"
  using msgno_flags_independent [of 2] by simp

text \<open>Packing a control packet sets the control bit and the type that reading the header gives
  back, for every standard type that has the argument it needs.\<close>

theorem pack_type:
  assumes "pkttype \<noteq> UMSG_EXT" and "pack pkttype lparam rparam p = Some q"
  shows "isControl q \<and> getType q = msgtype_code pkttype \<and> getExtendedType q = 0"
proof -
  have fit: "bits_fit 30 16 (msgtype_code pkttype)"
    by (cases pkttype) (auto simp: msgtype_code_def bits_fit_def BitsetMask.simps)
  have h: "m_nHeader q SRT_PH_SEQNO = BitsetMask 31 31 OR bits_wrap 30 16 (msgtype_code pkttype)"
    using assms by (cases pkttype) (auto simp: pack_def set_arg_def set_data_def setControl_def Let_def
        split: option.splits)
  have "BitsetMask 31 31 AND BitsetMask 30 16 = 0" by (intro bit_word_eqI) (auto simp: bit_fields)
  then have "getType q = msgtype_code pkttype" unfolding getType_def h by (intro unwrap_wrap fit) auto
  moreover have "bit (bits_unwrap 31 31 (m_nHeader q SRT_PH_SEQNO)) 0" unfolding h by (auto simp: bit_fields)
  then have "isControl q" unfolding isControl_def by auto
  moreover have "getExtendedType q = 0" unfolding getExtendedType_def h
    by (intro bit_word_eqI) (auto simp: bit_fields)
  ultimately show ?thesis by simp
qed

theorem pack_type_witness:
  "\<exists>q. pack UMSG_LOSSREPORT None (Some [1, 2, 3, 4]) \<lparr>m_nHeader = (\<lambda>f. 0), m_pcData = [], m_Length = 0\<rparr> = Some q \<and>
    isControl q \<and> getType q = 3"
  using pack_type [of UMSG_LOSSREPORT None "Some [1, 2, 3, 4]" "\<lparr>m_nHeader = (\<lambda>f. 0), m_pcData = [], m_Length = 0\<rparr>"]
  by (simp add: pack_def msgtype_code_def Let_def)

end
