(* ===== verification/SrtlaRec.thy ===== *)
theory SrtlaRec
  imports Complex_Main Packet SeqNo
begin

text \<open>
  The SRTLA receiver: \<^verbatim>\<open>SrtlaRec\<close> of \<^verbatim>\<open>srtcore/srtla_rec.cpp\<close>, the demultiplexer
  that aggregates several UDP links into groups, one group per SRT connection.

  Groups and links are list nodes in the code and are reached through pointers kept in two maps; a
  node here carries its pointer (\<open>gptr\<close>, \<open>lptr\<close>), the maps hold pointers, and following a pointer to
  no node is \<^term>\<open>None\<close>, as is writing past the end of an array.  Time points are integers in
  microseconds, taken as arguments where the code reads the clock; the values of the random device
  are an argument as well.  What goes out on the channel is appended to \<open>m_Sent\<close>.  The EWMAs of the
  code, \<^verbatim>\<open>double\<close>s, are real numbers.  The mutex makes every public method one atomic step.
\<close>

section \<open>Addresses\<close>

text \<open>Addresses and ports are the bytes in memory, in network order.\<close>

datatype sockaddr_any = AF_UNSPEC
  | AF_INET (sin_addr: "byte list") (sin_port: "byte list")
  | AF_INET6 (sin6_addr: "byte list") (sin6_port: "byte list")

definition fnv_step :: "u32 \<Rightarrow> byte \<Rightarrow> u32" where
  "fnv_step hash b = (hash XOR ucast b) * 0x01000193"

definition fnv1a :: "sockaddr_any \<Rightarrow> u32" where
  "fnv1a a = (let (bytes, port_net) = (case a of AF_INET b p \<Rightarrow> (b, p) | AF_INET6 b p \<Rightarrow> (b, p)
        | AF_UNSPEC \<Rightarrow> (replicate 16 0, [0, 0]));
      hash = foldl fnv_step 0x811c9dc5 bytes
    in foldl fnv_step hash port_net)"

fun family :: "sockaddr_any \<Rightarrow> nat" where
  "family AF_UNSPEC = 0"
| "family (AF_INET a p) = 2"
| "family (AF_INET6 a p) = 10"

fun memcmp_less :: "byte list \<Rightarrow> byte list \<Rightarrow> bool" where
  "memcmp_less (a # as) (b # bs) = (a < b \<or> a = b \<and> memcmp_less as bs)"
| "memcmp_less as bs = False"

definition load16 :: "byte list \<Rightarrow> 16 word" where
  "load16 bs = ucast (bs ! 0) OR push_bit 8 (ucast (bs ! 1))"

fun AddrLess :: "sockaddr_any \<Rightarrow> sockaddr_any \<Rightarrow> bool" where
  "AddrLess (AF_INET a p) (AF_INET b q) =
     (if load32 a \<noteq> load32 b then load32 a < load32 b else load16 p < load16 q)"
| "AddrLess (AF_INET6 a p) (AF_INET6 b q) =
     (if memcmp_less a b then True else if memcmp_less b a then False else load16 p < load16 q)"
| "AddrLess a b = (if family a \<noteq> family b then family a < family b else False)"

section \<open>State\<close>

abbreviation SRTLA_ID_LEN :: nat where "SRTLA_ID_LEN \<equiv> 256"
abbreviation SRTLA_ID_HALF :: nat where "SRTLA_ID_HALF \<equiv> 128"
abbreviation REG_LEN :: nat where "REG_LEN \<equiv> 258"
abbreviation SRT_MIN_LEN :: nat where "SRT_MIN_LEN \<equiv> 16"
abbreviation MIN_PAD :: nat where "MIN_PAD \<equiv> 32"
abbreviation RECV_ACK_INT :: nat where "RECV_ACK_INT \<equiv> 10"
abbreviation ACK_FLUSH_US :: int where "ACK_FLUSH_US \<equiv> 10000"
abbreviation MAX_CONNS_PER_GROUP :: nat where "MAX_CONNS_PER_GROUP \<equiv> 16"
abbreviation MAX_GROUPS :: nat where "MAX_GROUPS \<equiv> 200"
abbreviation NAK_FANOUT :: nat where "NAK_FANOUT \<equiv> 2"
abbreviation LINK_FRESH_US :: int where "LINK_FRESH_US \<equiv> 1000000"
abbreviation LINK_PASS_US :: int where "LINK_PASS_US \<equiv> 2000"
abbreviation SN_WINDOW_SIZE :: int where "SN_WINDOW_SIZE \<equiv> 65536"

abbreviation T_KEEPALIVE :: u32 where "T_KEEPALIVE \<equiv> 0x9000"
abbreviation T_SRTLA_ACK :: u32 where "T_SRTLA_ACK \<equiv> 0x9100"
abbreviation T_REG1 :: u32 where "T_REG1 \<equiv> 0x9200"
abbreviation T_REG2 :: u32 where "T_REG2 \<equiv> 0x9201"
abbreviation T_REG3 :: u32 where "T_REG3 \<equiv> 0x9202"
abbreviation T_REG_ERR :: u32 where "T_REG_ERR \<equiv> 0x9210"
abbreviation T_REG_NGP :: u32 where "T_REG_NGP \<equiv> 0x9211"

record Link =
  lptr :: nat
  addr :: sockaddr_any
  last_rcvd :: int
  established :: int
  recovery_start :: int
  last_keepalive :: int
  recovering :: bool
  ack_log :: "nat \<Rightarrow> u32"
  ack_count :: nat
  ack_first_pending :: int
  connectionId :: u32
  recv_acc :: real
  unique_acc :: real
  rate_last :: int
  rate_init :: bool
  transit_ewma :: real
  last_transit :: int
  transit_valid :: bool
  jitter_ewma :: real
  prev_transit :: int
  have_prev_transit :: bool

definition Link_new :: "nat \<Rightarrow> Link" where
  "Link_new p = \<lparr>lptr = p, addr = AF_UNSPEC, last_rcvd = 0, established = 0, recovery_start = 0,
     last_keepalive = 0, recovering = False, ack_log = (\<lambda>_. 0), ack_count = 0, ack_first_pending = 0,
     connectionId = 0, recv_acc = 0, unique_acc = 0, rate_last = 0, rate_init = False,
     transit_ewma = 0, last_transit = 0, transit_valid = False, jitter_ewma = 0, prev_transit = 0,
     have_prev_transit = False\<rparr>"

record Group =
  gptr :: nat
  group_id :: "byte list"
  links :: "Link list"
  socket_id :: int
  bound :: bool
  created_at :: int
  last_addr :: sockaddr_any
  has_last_addr :: bool
  data_seen :: bool
  sn_window :: "int \<Rightarrow> bool"
  sn_max :: seqno
  sn_valid :: bool
  ts_init :: bool
  ts_last_raw :: u32
  sender_ts_acc :: int
  arrival_ref :: int

definition Group_new :: "nat \<Rightarrow> Group" where
  "Group_new p = \<lparr>gptr = p, group_id = replicate SRTLA_ID_LEN 0, links = [], socket_id = - 1,
     bound = False, created_at = 0, last_addr = AF_UNSPEC, has_last_addr = False, data_seen = False,
     sn_window = (\<lambda>_. False), sn_max = 0, sn_valid = False, ts_init = False, ts_last_raw = 0,
     sender_ts_acc = 0, arrival_ref = 0\<rparr>"

datatype transmission = Raw sockaddr_any "byte list" | Pkt sockaddr_any CPacket sockaddr_any

record SrtlaRec =
  m_Groups :: "Group list"
  m_LinkMap :: "sockaddr_any \<rightharpoonup> nat \<times> nat"
  m_EgressMap :: "sockaddr_any \<rightharpoonup> nat"
  m_LastCleanup :: int
  m_LastLinkPass :: int
  m_HaveTimers :: bool
  m_Sent :: "transmission list"
  m_NextPtr :: nat

definition SrtlaRec_new :: SrtlaRec where
  "SrtlaRec_new = \<lparr>m_Groups = [], m_LinkMap = Map.empty, m_EgressMap = Map.empty, m_LastCleanup = 0,
     m_LastLinkPass = 0, m_HaveTimers = False, m_Sent = [], m_NextPtr = 0\<rparr>"

text \<open>Following a pointer, and writing a node back.\<close>

definition get_group :: "nat \<Rightarrow> SrtlaRec \<Rightarrow> Group option" where
  "get_group gp s = find (\<lambda>g. gptr g = gp) (m_Groups s)"

definition get_link :: "nat \<Rightarrow> Group \<Rightarrow> Link option" where
  "get_link lp g = find (\<lambda>l. lptr l = lp) (links g)"

definition put_group :: "Group \<Rightarrow> SrtlaRec \<Rightarrow> SrtlaRec" where
  "put_group g s = s\<lparr>m_Groups := map (\<lambda>h. if gptr h = gptr g then g else h) (m_Groups s)\<rparr>"

definition put_link :: "Link \<Rightarrow> Group \<Rightarrow> Group" where
  "put_link l g = g\<lparr>links := map (\<lambda>k. if lptr k = lptr l then l else k) (links g)\<rparr>"

definition emit :: "transmission \<Rightarrow> SrtlaRec \<Rightarrow> SrtlaRec" where
  "emit t s = s\<lparr>m_Sent := m_Sent s @ [t]\<rparr>"

section \<open>Utilities and feedback senders\<close>

definition peekType :: "CPacket \<Rightarrow> u32" where
  "peekType pkt = drop_bit 16 (m_nHeader pkt SRT_PH_SEQNO) AND 0xFFFF"

text \<open>The result \<open>[]\<close> stands for the returned length 0.\<close>

definition rebuildWire :: "CPacket \<Rightarrow> nat \<Rightarrow> byte list option" where
  "rebuildWire p outcap = (let plen = m_Length p; tlen = 16 + plen; pl = m_pcData p in
     if plen > outcap then Some []
     else if tlen > outcap then Some []
     else if plen > length pl then None
     else let hdr = concat (map (\<lambda>f. store_be32 (m_nHeader p f)) header_fields) in
       Some (hdr @ (if isControl p then
           (let nwords = plen div 4 in
            concat (map (\<lambda>w. store_be32 (load32 (drop (4 * w) pl))) [0..<nwords]) @
            map (\<lambda>b. pl ! b) [nwords * 4..<plen])
         else take plen pl)))"

definition ctEqual :: "byte list \<Rightarrow> byte list \<Rightarrow> nat \<Rightarrow> bool" where
  "ctEqual a b n \<longleftrightarrow> foldl (\<lambda>diff i. diff OR (a ! i XOR b ! i)) 0 [0..<n] = 0"

definition fillRandom :: "(nat \<Rightarrow> u32) \<Rightarrow> nat \<Rightarrow> byte list" where
  "fillRandom rnd n = map (\<lambda>i. ucast (drop_bit (8 * (i mod 4)) (rnd (i div 4)))) [0..<n]"

definition count_milliseconds :: "int \<Rightarrow> int" where
  "count_milliseconds d = c_div d 1000"

definition findLink :: "sockaddr_any \<Rightarrow> SrtlaRec \<Rightarrow> (nat \<times> nat) option" where
  "findLink src s = m_LinkMap s src"

definition findGroupById :: "byte list \<Rightarrow> SrtlaRec \<Rightarrow> nat option" where
  "findGroupById full_id s = foldl (\<lambda>found g.
     if ctEqual (group_id g) full_id SRTLA_ID_LEN then Some (gptr g) else found) None (m_Groups s)"

definition findGroupByEgress :: "sockaddr_any \<Rightarrow> SrtlaRec \<Rightarrow> nat option" where
  "findGroupByEgress peer s = m_EgressMap s peer"

definition findGhostCreator :: "sockaddr_any \<Rightarrow> SrtlaRec \<Rightarrow> Group option" where
  "findGhostCreator src s = find (\<lambda>g. links g = [] \<and> \<not> data_seen g \<and> has_last_addr g \<and>
     last_addr g = src) (m_Groups s)"

definition sendReg2 :: "sockaddr_any \<Rightarrow> Group \<Rightarrow> SrtlaRec \<Rightarrow> SrtlaRec" where
  "sendReg2 dst g = emit (Raw dst (store_be16 (ucast T_REG2) @ take SRTLA_ID_LEN (group_id g)))"

definition sendShort :: "sockaddr_any \<Rightarrow> u32 \<Rightarrow> SrtlaRec \<Rightarrow> SrtlaRec" where
  "sendShort dst type = emit (Raw dst (store_be16 (ucast type) @ replicate (MIN_PAD - 2) 0))"

definition sendReg3 :: "sockaddr_any \<Rightarrow> SrtlaRec \<Rightarrow> SrtlaRec" where
  "sendReg3 dst = sendShort dst T_REG3"

definition sendKeepalive :: "sockaddr_any \<Rightarrow> SrtlaRec \<Rightarrow> SrtlaRec" where
  "sendKeepalive dst = sendShort dst T_KEEPALIVE"

text \<open>The buffer has room for \<^verbatim>\<open>RECV_ACK_INT\<close> numbers; the log has as many entries.\<close>

definition sendSrtlaAck :: "sockaddr_any \<Rightarrow> Link \<Rightarrow> SrtlaRec \<Rightarrow> (Link \<times> SrtlaRec) option" where
  "sendSrtlaAck dst l s = (if ack_count l = 0 then Some (l, s)
     else if ack_count l > RECV_ACK_INT then None
     else Some (l\<lparr>ack_count := 0\<rparr>, emit (Raw dst (store_be32 (push_bit 16 T_SRTLA_ACK) @
        concat (map (\<lambda>i. store_be32 (ack_log l i)) [0..<ack_count l]))) s))"

definition echoKeepalive :: "sockaddr_any \<Rightarrow> CPacket \<Rightarrow> SrtlaRec \<Rightarrow> SrtlaRec option" where
  "echoKeepalive dst pkt s = do {
     buf \<leftarrow> rebuildWire pkt 1500;
     Some (if buf = [] then sendKeepalive dst s
       else emit (Raw dst (buf @ replicate (MIN_PAD - length buf) 0)) s) }"

section \<open>Registration\<close>

definition removeGroup :: "nat \<Rightarrow> SrtlaRec \<Rightarrow> SrtlaRec option" where
  "removeGroup gp s = do {
     g \<leftarrow> get_group gp s;
     Some (s\<lparr>m_LinkMap := foldl (\<lambda>m l. m(addr l := None)) (m_LinkMap s) (links g),
             m_EgressMap := (\<lambda>a. if m_EgressMap s a = Some gp then None else m_EgressMap s a),
             m_Groups := filter (\<lambda>h. gptr h \<noteq> gp) (m_Groups s)\<rparr>) }"

definition oldest_ghost :: "SrtlaRec \<Rightarrow> Group option" where
  "oldest_ghost s = foldl (\<lambda>victim g. if links g = [] \<and> \<not> data_seen g then
       (case victim of None \<Rightarrow> Some g
        | Some v \<Rightarrow> if created_at g < created_at v then Some g else victim)
     else victim) None (m_Groups s)"

definition create_group :: "int \<Rightarrow> (nat \<Rightarrow> u32) \<Rightarrow> sockaddr_any \<Rightarrow> byte list \<Rightarrow> SrtlaRec \<Rightarrow> SrtlaRec" where
  "create_group now rnd src wire s =
     (let g = (Group_new (m_NextPtr s))\<lparr>
            group_id := take SRTLA_ID_HALF (drop 2 wire) @ fillRandom rnd SRTLA_ID_HALF,
            created_at := now, last_addr := src, has_last_addr := True\<rparr>
      in sendReg2 src g (s\<lparr>m_Groups := m_Groups s @ [g], m_NextPtr := m_NextPtr s + 1\<rparr>))"

definition handleReg1 ::
    "int \<Rightarrow> (nat \<Rightarrow> u32) \<Rightarrow> sockaddr_any \<Rightarrow> byte list \<Rightarrow> SrtlaRec \<Rightarrow> SrtlaRec option" where
  "handleReg1 now rnd src wire s =
     (if findLink src s \<noteq> None then Some (sendShort src T_REG_ERR s)
      else case findGhostCreator src s of Some ghost \<Rightarrow> Some (sendReg2 src ghost s)
      | None \<Rightarrow>
        if length (m_Groups s) \<ge> MAX_GROUPS then
          (case oldest_ghost s of None \<Rightarrow> Some (sendShort src T_REG_ERR s)
           | Some victim \<Rightarrow> map_option (create_group now rnd src wire) (removeGroup (gptr victim) s))
        else Some (create_group now rnd src wire s))"

definition join_link :: "int \<Rightarrow> sockaddr_any \<Rightarrow> Group \<Rightarrow> SrtlaRec \<Rightarrow> SrtlaRec" where
  "join_link now src g s =
     (let l = (Link_new (m_NextPtr s))\<lparr>addr := src, last_rcvd := now, established := now,
            last_keepalive := now, connectionId := fnv1a src\<rparr>;
          g' = g\<lparr>links := links g @ [l], last_addr := src, has_last_addr := True\<rparr>
      in sendReg3 src ((put_group g' s)\<lparr>m_NextPtr := m_NextPtr s + 1,
           m_LinkMap := (m_LinkMap s)(src \<mapsto> (gptr g, lptr l))\<rparr>))"

definition handleReg2 :: "int \<Rightarrow> sockaddr_any \<Rightarrow> byte list \<Rightarrow> SrtlaRec \<Rightarrow> SrtlaRec option" where
  "handleReg2 now src wire s =
     (case findGroupById (drop 2 wire) s of None \<Rightarrow> Some (sendShort src T_REG_NGP s)
      | Some gp \<Rightarrow>
        (case findLink src s of
           Some (gp', lp) \<Rightarrow> if gp' \<noteq> gp then Some (sendShort src T_REG_ERR s) else Some (sendReg3 src s)
         | None \<Rightarrow> do {
             g \<leftarrow> get_group gp s;
             if length (links g) \<ge> MAX_CONNS_PER_GROUP then Some (sendShort src T_REG_ERR s)
             else Some (join_link now src g s) }))"


section \<open>Ingress\<close>

definition set_sn :: "seqno \<Rightarrow> bool \<Rightarrow> (int \<Rightarrow> bool) \<Rightarrow> int \<Rightarrow> bool" where
  "set_sn sn b win = win(sn mod SN_WINDOW_SIZE := b)"

definition trackSn :: "Group \<Rightarrow> seqno \<Rightarrow> bool \<times> Group" where
  "trackSn g sn =
     (if \<not> sn_valid g then
        (True, g\<lparr>sn_valid := True, sn_max := sn, sn_window := set_sn sn True (\<lambda>_. False)\<rparr>)
      else let diff = (sn - sn_max g) mod 2 ^ 31 in
      if diff = 0 then (False, g)
      else if diff < 0x40000000 then
        let win = (if diff \<ge> SN_WINDOW_SIZE then (\<lambda>_. False)
                   else foldl (\<lambda>w k. set_sn (sn_max g + k) False w) (sn_window g) [1..diff])
        in (True, g\<lparr>sn_max := sn, sn_window := set_sn sn True win\<rparr>)
      else let back = (sn_max g - sn) mod 2 ^ 31 in
      if back \<ge> SN_WINDOW_SIZE then (False, g)
      else if sn_window g (sn mod SN_WINDOW_SIZE) then (False, g)
      else (True, g\<lparr>sn_window := set_sn sn True (sn_window g)\<rparr>))"

definition EWMA_INV_TAU :: real where "EWMA_INV_TAU = 1 / 1000000"

definition note_liveness :: "int \<Rightarrow> Link \<Rightarrow> Link" where
  "note_liveness now l =
     (if count_milliseconds (now - last_rcvd l) > 4000 \<and> \<not> recovering l
      then l\<lparr>recovering := True, recovery_start := now, last_keepalive := now\<rparr> else l)\<lparr>last_rcvd := now\<rparr>"

definition rate_decay :: "int \<Rightarrow> Link \<Rightarrow> real" where
  "rate_decay now l = (if rate_init l then
     (let dt = real_of_int (now - rate_last l) * EWMA_INV_TAU in if dt \<ge> 1 then 0 else 1 - dt) else 0)"

definition note_rate :: "int \<Rightarrow> nat \<Rightarrow> Link \<Rightarrow> Link" where
  "note_rate now tlen l = (let decay = rate_decay now l in
     l\<lparr>rate_init := True, recv_acc := recv_acc l * decay + real tlen,
       unique_acc := unique_acc l * decay, rate_last := now\<rparr>)"

definition unwrap_ts :: "int \<Rightarrow> u32 \<Rightarrow> Group \<Rightarrow> Group" where
  "unwrap_ts now sender_ts g =
     (if \<not> ts_init g then
        g\<lparr>ts_init := True, ts_last_raw := sender_ts, sender_ts_acc := 0, arrival_ref := now\<rparr>
      else g\<lparr>sender_ts_acc := sender_ts_acc g + sint (sender_ts - ts_last_raw g),
             ts_last_raw := sender_ts\<rparr>)"

definition note_transit :: "int \<Rightarrow> int \<Rightarrow> Link \<Rightarrow> Link" where
  "note_transit now rel l =
     (let l = (if \<not> transit_valid l then l\<lparr>transit_ewma := real_of_int rel, transit_valid := True\<rparr>
               else let a = min 1 (real_of_int (now - last_transit l) * EWMA_INV_TAU)
                    in l\<lparr>transit_ewma := transit_ewma l + (real_of_int rel - transit_ewma l) * a\<rparr>);
          l = l\<lparr>last_transit := now\<rparr>;
          l = (if have_prev_transit l then
                 (let ad = real_of_int \<bar>rel - prev_transit l\<bar>
                  in l\<lparr>jitter_ewma := jitter_ewma l + (ad - jitter_ewma l) / 16\<rparr>)
               else l)
      in l\<lparr>prev_transit := rel, have_prev_transit := True\<rparr>)"

definition log_ack :: "int \<Rightarrow> sockaddr_any \<Rightarrow> u32 \<Rightarrow> Link \<Rightarrow> SrtlaRec \<Rightarrow> (Link \<times> SrtlaRec) option" where
  "log_ack now src sn l s =
     (let l = (if ack_count l = 0 then l\<lparr>ack_first_pending := now\<rparr> else l) in
      if ack_count l \<ge> RECV_ACK_INT then None
      else let l = l\<lparr>ack_log := (ack_log l)(ack_count l := sn), ack_count := ack_count l + 1\<rparr> in
      if ack_count l \<ge> RECV_ACK_INT \<or> now - ack_first_pending l \<ge> ACK_FLUSH_US
      then sendSrtlaAck src l s else Some (l, s))"

definition data_packet ::
    "int \<Rightarrow> sockaddr_any \<Rightarrow> CPacket \<Rightarrow> nat \<Rightarrow> Group \<Rightarrow> Link \<Rightarrow> SrtlaRec \<Rightarrow> (Group \<times> Link \<times> SrtlaRec) option" where
  "data_packet now src pkt tlen g l s =
     (let sn = m_nHeader pkt SRT_PH_SEQNO AND 0x7FFFFFFF;
          (is_new, g) = trackSn g (uint sn);
          rexmit = m_nHeader pkt SRT_PH_MSGNO AND BitsetMask 26 26 \<noteq> 0;
          l = (if is_new then l\<lparr>unique_acc := unique_acc l + real tlen\<rparr> else l);
          (g, l) = (if is_new \<and> \<not> rexmit then
                 (let g = unwrap_ts now (m_nHeader pkt SRT_PH_TIMESTAMP) g;
                      rel = now - arrival_ref g - sender_ts_acc g
                  in (g, note_transit now rel l))
               else (g, l))
      in map_option (Pair g) (log_ack now src sn l s))"

datatype Ingress = SRTLA_DROP | SRTLA_PASS

text \<open>Processing of a datagram from a registered link; \<open>now\<close> is the clock at its arrival.\<close>

definition link_packet ::
    "int \<Rightarrow> sockaddr_any \<Rightarrow> CPacket \<Rightarrow> Group \<Rightarrow> Link \<Rightarrow> SrtlaRec \<Rightarrow> (Ingress \<times> SrtlaRec) option" where
  "link_packet now src pkt g l0 s =
     (let T = peekType pkt;
          plen = m_Length pkt;
          valid_len = (plen \<le> 65535);
          tlen = (if valid_len then plen + 16 else 0);
          l = note_liveness now l0;
          l = (if valid_len then note_rate now tlen l else l)
      in if T = T_KEEPALIVE then
           map_option (Pair SRTLA_DROP) (echoKeepalive src pkt (put_group (put_link l g) s))
         else if T \<ge> 0x9000 then Some (SRTLA_DROP, put_group (put_link l g) s)
         else if \<not> valid_len \<or> tlen < SRT_MIN_LEN then Some (SRTLA_DROP, put_group (put_link l g) s)
         else let g = g\<lparr>last_addr := src, has_last_addr := True, data_seen := True\<rparr> in
           if m_nHeader pkt SRT_PH_SEQNO AND 0x80000000 = 0 then do {
             (g, l, s) \<leftarrow> data_packet now src pkt tlen g l s;
             Some (SRTLA_PASS, put_group (put_link l g) s) }
           else Some (SRTLA_PASS, put_group (put_link l g) s))"

text \<open>\<open>now'\<close> is the second clock reading inside the registration handlers.\<close>

definition onIngress ::
    "int \<Rightarrow> int \<Rightarrow> (nat \<Rightarrow> u32) \<Rightarrow> sockaddr_any \<Rightarrow> CPacket \<Rightarrow> SrtlaRec \<Rightarrow> (Ingress \<times> SrtlaRec) option" where
  "onIngress now now' rnd src pkt s =
     (let T = peekType pkt;
          plen = m_Length pkt;
          tlen = (if plen \<le> 65535 then plen + 16 else 0)
      in if T = T_REG1 \<or> T = T_REG2 then
           (if tlen = REG_LEN then do {
              wire \<leftarrow> rebuildWire pkt REG_LEN;
              map_option (Pair SRTLA_DROP)
                (if length wire = REG_LEN then
                   (if T = T_REG1 then handleReg1 now' rnd src wire s else handleReg2 now' src wire s)
                 else Some s) }
            else Some (SRTLA_DROP, s))
         else (case findLink src s of None \<Rightarrow> Some (SRTLA_DROP, s)
           | Some (gp, lp) \<Rightarrow> do {
               g \<leftarrow> get_group gp s;
               l \<leftarrow> get_link lp g;
               link_packet now src pkt g l s }))"

section \<open>Egress and binding\<close>

definition nak_targets :: "Group \<Rightarrow> sockaddr_any list" where
  "nak_targets g =
     (let is_last = (\<lambda>a. has_last_addr g \<and> a = last_addr g);
          as = map addr (links g);
          head = (case find is_last as of None \<Rightarrow> [] | Some a \<Rightarrow> [a])
      in head @ take (NAK_FANOUT - length head) (filter (\<lambda>a. \<not> is_last a) as))"

definition sendto :: "CPacket \<Rightarrow> sockaddr_any \<Rightarrow> SrtlaRec \<Rightarrow> sockaddr_any \<Rightarrow> SrtlaRec" where
  "sendto pkt src s dst = emit (Pkt dst pkt src) s"

definition onEgress ::
    "sockaddr_any \<Rightarrow> CPacket \<Rightarrow> sockaddr_any \<Rightarrow> SrtlaRec \<Rightarrow> (bool \<times> SrtlaRec) option" where
  "onEgress peer pkt src s =
     (case findGroupByEgress peer s of None \<Rightarrow> Some (False, s)
      | Some gp \<Rightarrow> do {
          g \<leftarrow> get_group gp s;
          Some (True,
            if links g = [] then sendto pkt src s peer
            else if isControl pkt \<and> getType pkt = msgtype_code UMSG_ACK then
              foldl (sendto pkt src) s (map addr (links g))
            else if isControl pkt \<and> getType pkt = msgtype_code UMSG_LOSSREPORT then
              foldl (sendto pkt src) s (nak_targets g)
            else sendto pkt src s (if has_last_addr g then last_addr g else peer)) })"

definition bindGroup :: "sockaddr_any \<Rightarrow> int \<Rightarrow> SrtlaRec \<Rightarrow> SrtlaRec option" where
  "bindGroup peer sid s =
     (case findLink peer s of None \<Rightarrow> Some s
      | Some (gp, lp) \<Rightarrow> do {
          g \<leftarrow> get_group gp s;
          let g = g\<lparr>socket_id := sid, bound := True\<rparr>;
          let g = (if has_last_addr g then g else g\<lparr>last_addr := peer, has_last_addr := True\<rparr>);
          Some ((put_group g s)\<lparr>m_EgressMap := (m_EgressMap s)(peer \<mapsto> gp)\<rparr>) })"

section \<open>Periodic work\<close>

fun flush_links :: "int \<Rightarrow> Link list \<Rightarrow> SrtlaRec \<Rightarrow> (Link list \<times> SrtlaRec) option" where
  "flush_links now [] s = Some ([], s)"
| "flush_links now (l # ls) s = do {
     (l, s) \<leftarrow> (if ack_count l > 0 \<and> now - ack_first_pending l \<ge> ACK_FLUSH_US
               then sendSrtlaAck (addr l) l s else Some (l, s));
     (ls, s) \<leftarrow> flush_links now ls s;
     Some (l # ls, s) }"

fun flush_groups :: "int \<Rightarrow> Group list \<Rightarrow> SrtlaRec \<Rightarrow> (Group list \<times> SrtlaRec) option" where
  "flush_groups now [] s = Some ([], s)"
| "flush_groups now (g # gs) s = do {
     (ls, s) \<leftarrow> flush_links now (links g) s;
     (gs, s) \<leftarrow> flush_groups now gs s;
     Some (g\<lparr>links := ls\<rparr> # gs, s) }"

fun cleanup_links :: "int \<Rightarrow> Link list \<Rightarrow> SrtlaRec \<Rightarrow> Link list \<times> SrtlaRec" where
  "cleanup_links now [] s = ([], s)"
| "cleanup_links now (l # ls) s =
     (if count_milliseconds (now - last_rcvd l) > 4000 then
        cleanup_links now ls (s\<lparr>m_LinkMap := (m_LinkMap s)(addr l := None)\<rparr>)
      else let (l, s) =
          (if recovering l then
             (if count_milliseconds (now - recovery_start l) \<ge> 5000 then (l\<lparr>recovering := False\<rparr>, s)
              else if count_milliseconds (now - last_keepalive l) \<ge> 1000 then
                (l\<lparr>last_keepalive := now\<rparr>, sendKeepalive (addr l) s)
              else (l, s))
           else (l, s));
          (ls, s) = cleanup_links now ls s
        in (l # ls, s))"

definition cleanup_group :: "int \<Rightarrow> SrtlaRec \<Rightarrow> nat \<Rightarrow> SrtlaRec option" where
  "cleanup_group now s gp = do {
     g \<leftarrow> get_group gp s;
     let (ls, s) = cleanup_links now (links g) s;
     let s = put_group (g\<lparr>links := ls\<rparr>) s;
     if ls = [] \<and> count_milliseconds (now - created_at g) > 4000 then removeGroup gp s else Some s }"

fun cleanup_groups :: "int \<Rightarrow> nat list \<Rightarrow> SrtlaRec \<Rightarrow> SrtlaRec option" where
  "cleanup_groups now [] s = Some s"
| "cleanup_groups now (gp # gps) s = do { s \<leftarrow> cleanup_group now s gp; cleanup_groups now gps s }"

definition doCleanup :: "int \<Rightarrow> SrtlaRec \<Rightarrow> SrtlaRec option" where
  "doCleanup now s = cleanup_groups now (map gptr (m_Groups s)) s"

definition onPeriodic :: "int \<Rightarrow> SrtlaRec \<Rightarrow> SrtlaRec option" where
  "onPeriodic now s =
     (if \<not> m_HaveTimers s then
        Some (s\<lparr>m_LastCleanup := now, m_LastLinkPass := now, m_HaveTimers := True\<rparr>)
      else do {
        s \<leftarrow> (if now - m_LastLinkPass s \<ge> LINK_PASS_US then do {
               let s = s\<lparr>m_LastLinkPass := now\<rparr>;
               (gs, s) \<leftarrow> flush_groups now (m_Groups s) s;
               Some (s\<lparr>m_Groups := gs\<rparr>) }
             else Some s);
        if count_milliseconds (now - m_LastCleanup s) \<ge> 3000 then do {
          s \<leftarrow> doCleanup now s;
          Some (s\<lparr>m_LastCleanup := now\<rparr>) }
        else Some s })"

section \<open>Statistics\<close>

text \<open>A conversion of a floating point value outside the range of the integer type is undefined.\<close>

definition to_u32 :: "real \<Rightarrow> int option" where
  "to_u32 x = (if - 1 < x \<and> x < 2 ^ 32 then Some (if x < 0 then \<lceil>x\<rceil> else \<lfloor>x\<rfloor>) else None)"

definition to_i32 :: "real \<Rightarrow> int option" where
  "to_i32 x = (if - (2 ^ 31) - 1 < x \<and> x < 2 ^ 31 then Some (if x < 0 then \<lceil>x\<rceil> else \<lfloor>x\<rfloor>) else None)"

definition bound_group :: "int \<Rightarrow> SrtlaRec \<Rightarrow> Group option" where
  "bound_group sid s = find (\<lambda>g. bound g \<and> socket_id g = sid) (m_Groups s)"

definition fresh_links :: "int \<Rightarrow> Group \<Rightarrow> Link list" where
  "fresh_links now g = filter (\<lambda>l. transit_valid l \<and> now - last_transit l \<le> LINK_FRESH_US) (links g)"

fun min_element :: "real list \<Rightarrow> real" where
  "min_element [] = 0" | "min_element [x] = x"
| "min_element (x # xs) = min x (min_element xs)"

fun max_element :: "real list \<Rightarrow> real" where
  "max_element [] = 0" | "max_element [x] = x"
| "max_element (x # xs) = max x (max_element xs)"

definition holdSteadyUs :: "int \<Rightarrow> int \<Rightarrow> SrtlaRec \<Rightarrow> int option" where
  "holdSteadyUs now sid s = (case bound_group sid s of None \<Rightarrow> Some 0
     | Some grp \<Rightarrow>
       (let transit = map transit_ewma (fresh_links now grp);
            jitter = map jitter_ewma (fresh_links now grp)
        in if transit = [] then Some 0
           else let tmin = min_element transit; tmax = max_element transit; jmax = max_element jitter;
                    hold = (tmax - tmin) + 4 * jmax;
                    hold = (if hold < 0 then 0 else hold);
                    hold = (if hold > 10000000 then 10000000 else hold)
                in to_u32 hold))"

record peer_stats =
  st_connectionId :: u32
  kbpsRecvRate :: int
  kbpsRecvUnique :: int
  transitUs :: int
  usJitter :: int
  establishedMs :: int
  bitrate :: int
  throughput :: int
  st_jitter :: int
  bytesReceived :: int
  uptime :: int

definition fill_peer :: "int \<Rightarrow> Link \<Rightarrow> peer_stats option" where
  "fill_peer now l = do {
     let decay = rate_decay now l;
     rate \<leftarrow> to_u32 (recv_acc l * decay * 8 / 1000);
     uniq \<leftarrow> to_u32 (unique_acc l * decay * 8 / 1000);
     transit \<leftarrow> to_i32 (transit_ewma l);
     jit \<leftarrow> to_u32 (jitter_ewma l);
     let nowMs = count_milliseconds now;
     let estMs = count_milliseconds (established l);
     let uptime_ms = (if nowMs > estMs then nowMs - estMs else 0);
     Some \<lparr>st_connectionId = connectionId l, kbpsRecvRate = rate, kbpsRecvUnique = uniq,
           transitUs = transit, usJitter = jit, establishedMs = estMs,
           bitrate = uniq, throughput = rate, st_jitter = jit, bytesReceived = 0,
           uptime = (if uptime_ms div 1000 > 0xffffffff then 0xffffffff else uptime_ms div 1000)\<rparr> }"

record srtla_stats =
  st_valid :: bool
  version :: int
  numPeers :: int
  nowMs :: int
  timestamp :: int
  peers :: "peer_stats list"
  totalBitrate :: int

definition fillStats :: "int \<Rightarrow> int \<Rightarrow> SrtlaRec \<Rightarrow> srtla_stats option" where
  "fillStats now sid s = (case bound_group sid s of
       None \<Rightarrow> Some \<lparr>st_valid = False, version = 2, numPeers = 0, nowMs = 0, timestamp = 0, peers = [], totalBitrate = 0\<rparr>
     | Some grp \<Rightarrow> do {
         ps \<leftarrow> those (map (fill_peer now) (take 16 (links grp)));
         Some \<lparr>st_valid = True, version = 2, numPeers = int (length ps), nowMs = count_milliseconds now,
               timestamp = count_milliseconds now, peers = ps,
               totalBitrate = sum_list (map bitrate ps) mod 2 ^ 32\<rparr> })"

end
