(* ===== verification/SrtlaProps.thy ===== *)
theory SrtlaProps
  imports SrtlaRec
begin

text \<open>
  Correctness of the SRTLA receiver of \<^verbatim>\<open>SrtlaRec\<close>: the invariant of the registry
  (distinct nodes, both maps exactly consistent with the lists, all size limits), that every public
  method keeps it and returns, and what each method does.
\<close>

section \<open>The registry invariant\<close>

definition link_ok :: "nat \<Rightarrow> Link \<Rightarrow> bool" where
  "link_ok n l \<longleftrightarrow> lptr l < n \<and> ack_count l < RECV_ACK_INT \<and> 0 \<le> unique_acc l \<and>
     unique_acc l \<le> recv_acc l \<and> 0 \<le> jitter_ewma l"

definition group_ok :: "nat \<Rightarrow> Group \<Rightarrow> bool" where
  "group_ok n g \<longleftrightarrow> gptr g < n \<and> length (group_id g) = SRTLA_ID_LEN \<and>
     length (links g) \<le> MAX_CONNS_PER_GROUP \<and> distinct (map lptr (links g)) \<and>
     seq_ok (sn_max g) \<and> (\<forall>l\<in>set (links g). link_ok n l)"

text \<open>All links as (address, group pointer, link pointer), which is what the link map must hold.\<close>

definition link_keys :: "Group \<Rightarrow> (nat \<times> sockaddr_any) list" where
  "link_keys g = map (\<lambda>l. (lptr l, addr l)) (links g)"

definition index :: "Group list \<Rightarrow> (sockaddr_any \<times> nat \<times> nat) set" where
  "index gs = (\<Union>g\<in>set gs. (\<lambda>(lp, a). (a, gptr g, lp)) ` set (link_keys g))"

definition srtla_inv :: "SrtlaRec \<Rightarrow> bool" where
  "srtla_inv s \<longleftrightarrow> distinct (map gptr (m_Groups s)) \<and> length (m_Groups s) \<le> MAX_GROUPS \<and>
     (\<forall>g\<in>set (m_Groups s). group_ok (m_NextPtr s) g) \<and>
     (\<forall>a gp lp. m_LinkMap s a = Some (gp, lp) \<longleftrightarrow> (a, gp, lp) \<in> index (m_Groups s)) \<and>
     (\<forall>a gp. m_EgressMap s a = Some gp \<longrightarrow> gp \<in> gptr ` set (m_Groups s))"

lemma find_key:
  assumes "distinct (map k xs)" and "x \<in> set xs"
  shows "find (\<lambda>y. k y = k x) xs = Some x"
  using assms by (induction xs) auto

lemma find_key_SomeD: "find (\<lambda>y. k y = v) xs = Some x \<Longrightarrow> x \<in> set xs \<and> k x = v"
  by (auto simp: find_Some_iff)

lemma get_groupD: "get_group gp s = Some g \<Longrightarrow> g \<in> set (m_Groups s) \<and> gptr g = gp"
  unfolding get_group_def by (rule find_key_SomeD)

lemma get_group_in: "srtla_inv s \<Longrightarrow> g \<in> set (m_Groups s) \<Longrightarrow> get_group (gptr g) s = Some g"
  unfolding get_group_def by (intro find_key) (auto simp: srtla_inv_def)

lemma get_group_ex: "srtla_inv s \<Longrightarrow> gp \<in> gptr ` set (m_Groups s) \<Longrightarrow> \<exists>g. get_group gp s = Some g"
  using get_group_in by auto

lemma index_groupD: "(a, gp, lp) \<in> index gs \<Longrightarrow> gp \<in> gptr ` set gs"
  by (auto simp: index_def)

lemma inv_groupD: "srtla_inv s \<Longrightarrow> g \<in> set (m_Groups s) \<Longrightarrow> group_ok (m_NextPtr s) g"
  by (simp add: srtla_inv_def)

text \<open>A registered address leads to its link: no pointer of the map dangles.\<close>

lemma findLink_deref:
  assumes inv: "srtla_inv s" and f: "findLink src s = Some (gp, lp)"
  shows "\<exists>g l. get_group gp s = Some g \<and> get_link lp g = Some l \<and> g \<in> set (m_Groups s) \<and> gptr g = gp \<and>
    l \<in> set (links g) \<and> lptr l = lp \<and> addr l = src"
proof -
  have "(src, gp, lp) \<in> index (m_Groups s)" using inv f by (simp add: srtla_inv_def findLink_def)
  then obtain g l where gl: "g \<in> set (m_Groups s)" "gptr g = gp" "l \<in> set (links g)" "lptr l = lp" "addr l = src"
    by (auto simp: index_def link_keys_def)
  moreover have "get_link lp g = Some l" unfolding get_link_def gl(4) [symmetric]
    using inv_groupD [OF inv gl(1)] gl(3) by (intro find_key) (auto simp: group_ok_def)
  ultimately show ?thesis using get_group_in [OF inv gl(1)] by blast
qed

lemma findLink_None: "srtla_inv s \<Longrightarrow> findLink src s = None \<Longrightarrow> (src, gp, lp) \<notin> index (m_Groups s)"
  by (metis findLink_def option.distinct(1) srtla_inv_def)

text \<open>Sending changes nothing but the log.\<close>

definition same_registry :: "SrtlaRec \<Rightarrow> SrtlaRec \<Rightarrow> bool" where
  "same_registry s t \<longleftrightarrow> m_Groups t = m_Groups s \<and> m_LinkMap t = m_LinkMap s \<and>
     m_EgressMap t = m_EgressMap s \<and> m_NextPtr t = m_NextPtr s"

lemma emit_fields [simp]: "m_Groups (emit t s) = m_Groups s" "m_LinkMap (emit t s) = m_LinkMap s"
  "m_EgressMap (emit t s) = m_EgressMap s" "m_NextPtr (emit t s) = m_NextPtr s"
  "m_Sent (emit t s) = m_Sent s @ [t]" "m_LastCleanup (emit t s) = m_LastCleanup s"
  "m_LastLinkPass (emit t s) = m_LastLinkPass s" "m_HaveTimers (emit t s) = m_HaveTimers s"
  by (simp_all add: emit_def)

lemma inv_emit [simp]: "srtla_inv (emit t s) = srtla_inv s"
  by (simp add: srtla_inv_def)

lemmas send_defs = sendReg2_def sendReg3_def sendShort_def sendKeepalive_def sendto_def

lemma inv_send [simp]: "srtla_inv (sendReg2 a g s) = srtla_inv s" "srtla_inv (sendReg3 a s) = srtla_inv s"
  "srtla_inv (sendShort a t s) = srtla_inv s" "srtla_inv (sendKeepalive a s) = srtla_inv s"
  "srtla_inv (sendto p a s b) = srtla_inv s"
  by (simp_all add: send_defs)

lemma inv_sends [simp]: "srtla_inv (foldl (sendto p a) s as) = srtla_inv s"
  by (induction as arbitrary: s) auto

text \<open>Replacing a group by one with the same links.\<close>

lemma put_group_fields [simp]: "m_LinkMap (put_group g s) = m_LinkMap s"
  "m_EgressMap (put_group g s) = m_EgressMap s" "m_NextPtr (put_group g s) = m_NextPtr s"
  "m_Sent (put_group g s) = m_Sent s"
  by (simp_all add: put_group_def)

lemma put_group_ptrs [simp]: "map gptr (m_Groups (put_group g s)) = map gptr (m_Groups s)"
  by (auto simp: put_group_def)

lemma put_group_ptr_set [simp]: "gptr ` set (m_Groups (put_group g s)) = gptr ` set (m_Groups s)"
  by (metis put_group_ptrs set_map)

lemma put_group_length [simp]: "length (m_Groups (put_group g s)) = length (m_Groups s)"
  by (simp add: put_group_def)

lemma put_group_set:
  assumes "distinct (map gptr (m_Groups s))" and "g \<in> set (m_Groups s)" and "gptr g' = gptr g"
  shows "set (m_Groups (put_group g' s)) = insert g' (set (m_Groups s) - {g})"
proof -
  have "h = g" if "h \<in> set (m_Groups s)" "gptr h = gptr g" for h
    using assms(1,2) that by (auto simp: distinct_map dest: inj_onD)
  with assms(2,3) show ?thesis by (auto simp: put_group_def image_iff)
qed

lemma index_insert: "index gs = (\<lambda>(lp, a). (a, gptr g, lp)) ` set (link_keys g) \<union> index (filter (\<lambda>h. h \<noteq> g) gs)"
  if "g \<in> set gs"
  using that by (auto simp: index_def)

lemma index_put:
  assumes "distinct (map gptr (m_Groups s))" and "g \<in> set (m_Groups s)" and "gptr g' = gptr g"
  shows "index (m_Groups (put_group g' s)) =
    (\<lambda>(lp, a). (a, gptr g, lp)) ` set (link_keys g') \<union> index (filter (\<lambda>h. h \<noteq> g) (m_Groups s))"
  using put_group_set [OF assms] assms(3) by (auto simp: index_def)

lemma inv_put:
  assumes inv: "srtla_inv s" and g: "g \<in> set (m_Groups s)" "gptr g' = gptr g"
    and ok: "group_ok (m_NextPtr s) g'" and k: "link_keys g' = link_keys g"
  shows "srtla_inv (put_group g' s)"
proof -
  have d: "distinct (map gptr (m_Groups s))" using inv by (simp add: srtla_inv_def)
  have i: "index (m_Groups (put_group g' s)) = index (m_Groups s)"
    unfolding index_put [OF d g] index_insert [OF g(1)] k ..
  show ?thesis unfolding srtla_inv_def put_group_ptrs put_group_ptr_set put_group_length put_group_fields i
    using inv ok put_group_set [OF d g] by (auto simp: srtla_inv_def)
qed

lemma put_link_keys:
  assumes "group_ok n g" and "l \<in> set (links g)" and "lptr l' = lptr l" and "addr l' = addr l"
  shows "link_keys (put_link l' g) = link_keys g"
proof -
  have "k = l" if "k \<in> set (links g)" "lptr k = lptr l" for k
    using assms(1,2) that by (auto simp: group_ok_def distinct_map dest: inj_onD)
  with assms(3,4) show ?thesis by (auto simp: put_link_def link_keys_def)
qed

lemma link_keys_ptrs: "map lptr (links g) = map fst (link_keys g)"
  by (simp add: link_keys_def)

lemma put_link_ok:
  assumes "group_ok n g" and "l \<in> set (links g)" and "lptr l' = lptr l" and "addr l' = addr l" and "link_ok n l'"
  shows "group_ok n (put_link l' g)"
proof -
  have "map lptr (links (put_link l' g)) = map lptr (links g)"
    using put_link_keys [OF assms(1-4)] by (simp add: link_keys_ptrs)
  then have "distinct (map lptr (links (put_link l' g)))" using assms(1) by (simp add: group_ok_def)
  then show ?thesis using assms by (auto simp: group_ok_def put_link_def simp del: map_map)
qed

text \<open>The steps of ingress keep a link well-formed, and its identity.\<close>

definition same_link :: "Link \<Rightarrow> Link \<Rightarrow> bool" where
  "same_link l l' \<longleftrightarrow> lptr l' = lptr l \<and> addr l' = addr l"

lemma same_link_refl [simp]: "same_link l l"
  by (simp add: same_link_def)

lemma same_link_trans: "same_link a b \<Longrightarrow> same_link b c \<Longrightarrow> same_link a c"
  by (simp add: same_link_def)

lemma note_liveness_ok: "link_ok n l \<Longrightarrow> link_ok n (note_liveness now l) \<and> same_link l (note_liveness now l)"
  by (auto simp: note_liveness_def link_ok_def same_link_def)

lemma rate_decay_nonneg: "0 \<le> rate_decay now l"
  by (auto simp: rate_decay_def Let_def)

lemma note_rate_ok: "link_ok n l \<Longrightarrow> link_ok n (note_rate now tlen l) \<and> same_link l (note_rate now tlen l)"
  using rate_decay_nonneg [of now l] mult_right_mono [of "unique_acc l" "recv_acc l" "rate_decay now l"]
  by (auto simp: note_rate_def link_ok_def same_link_def Let_def)

lemma jitter_step: "0 \<le> j \<Longrightarrow> 0 \<le> j + (real_of_int \<bar>d\<bar> - j) / 16"
  by (simp add: field_simps)

lemma note_transit_ok: "link_ok n l \<Longrightarrow> link_ok n (note_transit now rel l) \<and> same_link l (note_transit now rel l)"
  using jitter_step [of "jitter_ewma l" "rel - prev_transit l"]
  by (auto simp: note_transit_def link_ok_def same_link_def Let_def)

definition pending :: "Link \<Rightarrow> u32 list" where
  "pending l = map (ack_log l) [0..<ack_count l]"

definition ack_datagram :: "u32 list \<Rightarrow> byte list" where
  "ack_datagram sns = [0x91, 0, 0, 0] @ concat (map store_be32 sns)"

lemma sendSrtlaAck_ok:
  assumes "0 < ack_count l" and "ack_count l \<le> RECV_ACK_INT"
  shows "sendSrtlaAck dst l s = Some (l\<lparr>ack_count := 0\<rparr>, emit (Raw dst (ack_datagram (pending l))) s)"
  using assms by (simp add: sendSrtlaAck_def ack_datagram_def pending_def store_be32_def comp_def)

text \<open>A logged number is either pending or goes out at once with all that were pending before.\<close>

lemma log_ack_cases:
  assumes "ack_count l < RECV_ACK_INT"
  obtains l' where "log_ack now src sn l s = Some (l', s)" "pending l' = pending l @ [sn]"
      "ack_count l' < RECV_ACK_INT" "same_link l l'" "unique_acc l' = unique_acc l" "recv_acc l' = recv_acc l"
      "jitter_ewma l' = jitter_ewma l"
    | l' where "log_ack now src sn l s = Some (l', emit (Raw src (ack_datagram (pending l @ [sn]))) s)"
      "pending l' = []" "ack_count l' = 0" "same_link l l'" "unique_acc l' = unique_acc l"
      "recv_acc l' = recv_acc l" "jitter_ewma l' = jitter_ewma l"
proof -
  define l1 where "l1 = (if ack_count l = 0 then l\<lparr>ack_first_pending := now\<rparr> else l)"
  define l2 where "l2 = l1\<lparr>ack_log := (ack_log l1)(ack_count l1 := sn), ack_count := ack_count l1 + 1\<rparr>"
  have f: "ack_count l1 = ack_count l" "ack_log l1 = ack_log l" by (auto simp: l1_def)
  have p: "pending l2 = pending l @ [sn]" using f by (simp add: l2_def pending_def)
  have c: "0 < ack_count l2" "ack_count l2 \<le> RECV_ACK_INT" using assms f by (auto simp: l2_def)
  have e: "log_ack now src sn l s = (if ack_count l2 \<ge> RECV_ACK_INT \<or> now - ack_first_pending l2 \<ge> ACK_FLUSH_US
      then sendSrtlaAck src l2 s else Some (l2, s))"
    using assms f unfolding log_ack_def l1_def [symmetric] by (simp add: l2_def Let_def)
  have o: "same_link l l2" "unique_acc l2 = unique_acc l" "recv_acc l2 = recv_acc l" "jitter_ewma l2 = jitter_ewma l"
    by (auto simp: l2_def l1_def same_link_def)
  show thesis
  proof (cases "ack_count l2 \<ge> RECV_ACK_INT \<or> now - ack_first_pending l2 \<ge> ACK_FLUSH_US")
    case True
    show thesis
      by (rule that(2) [of "l2\<lparr>ack_count := 0\<rparr>"])
        (use True e sendSrtlaAck_ok [OF c, of src s] p o in \<open>auto simp: pending_def same_link_def\<close>)
  next
    case False
    show thesis by (rule that(1) [of l2]) (use False e p o c in auto)
  qed
qed

lemma log_ack_ok:
  assumes "link_ok n l"
  shows "\<exists>l' s'. log_ack now src sn l s = Some (l', s') \<and> link_ok n l' \<and> same_link l l' \<and>
    (s' = s \<or> (\<exists>t. s' = emit t s))"
proof -
  have "ack_count l < RECV_ACK_INT" using assms by (simp add: link_ok_def)
  then show ?thesis
    by (rule log_ack_cases [of l now src sn s]) (use assms in \<open>auto simp: link_ok_def same_link_def\<close>)
qed

lemma trackSn_fields:
  assumes "trackSn g sn = (b, g')"
  shows "gptr g' = gptr g" "links g' = links g" "group_id g' = group_id g" "link_keys g' = link_keys g"
    "seq_ok sn \<Longrightarrow> seq_ok (sn_max g) \<Longrightarrow> seq_ok (sn_max g')"
  using assms by (auto simp: trackSn_def Let_def link_keys_def split: if_splits)

lemma unwrap_ts_fields [simp]: "gptr (unwrap_ts now ts g) = gptr g" "links (unwrap_ts now ts g) = links g"
  "group_id (unwrap_ts now ts g) = group_id g" "sn_max (unwrap_ts now ts g) = sn_max g"
  by (auto simp: unwrap_ts_def)

lemma sn_word_ok: "seq_ok (uint (w AND 0x7FFFFFFF :: u32))"
proof -
  have "uint (w AND 0x7FFFFFFF) \<le> uint (0x7FFFFFFF :: u32)"
    by (simp add: uint_and)
  then show ?thesis by (simp add: seq_ok_def m_iMaxSeqNo_def)
qed

lemma note_rate_room:
  "link_ok n l \<Longrightarrow> unique_acc (note_rate now tlen l) + real tlen \<le> recv_acc (note_rate now tlen l)"
  using rate_decay_nonneg [of now l] mult_right_mono [of "unique_acc l" "recv_acc l" "rate_decay now l"]
  by (auto simp: note_rate_def link_ok_def Let_def)

lemma data_packet_ok:
  assumes g: "group_ok n g" and l: "link_ok n l" "unique_acc l + real tlen \<le> recv_acc l"
  shows "\<exists>g' l' s'. data_packet now src pkt tlen g l s = Some (g', l', s') \<and> group_ok n g' \<and>
    gptr g' = gptr g \<and> links g' = links g \<and> link_ok n l' \<and> same_link l l' \<and> (s' = s \<or> (\<exists>t. s' = emit t s))"
proof -
  define sn where "sn = m_nHeader pkt SRT_PH_SEQNO AND 0x7FFFFFFF"
  obtain is_new g1 where t: "trackSn g (uint sn) = (is_new, g1)" by (cases "trackSn g (uint sn)")
  note tf = trackSn_fields [OF t]
  have g1: "group_ok n g1" using g tf sn_word_ok by (auto simp: group_ok_def sn_def)
  define l1 where "l1 = (if is_new then l\<lparr>unique_acc := unique_acc l + real tlen\<rparr> else l)"
  have l1: "link_ok n l1" "same_link l l1" using l by (auto simp: l1_def link_ok_def same_link_def)
  define b where "b = (is_new \<and> \<not> m_nHeader pkt SRT_PH_MSGNO AND BitsetMask 26 26 \<noteq> 0)"
  define g2 where "g2 = (if b then unwrap_ts now (m_nHeader pkt SRT_PH_TIMESTAMP) g1 else g1)"
  define l2 where "l2 = (if b then note_transit now (now - arrival_ref g2 - sender_ts_acc g2) l1 else l1)"
  have g2: "group_ok n g2" "gptr g2 = gptr g" "links g2 = links g" using g1 tf by (auto simp: g2_def group_ok_def)
  have l2: "link_ok n l2" "same_link l l2"
    using l1 note_transit_ok [OF l1(1)] same_link_trans by (auto simp: l2_def)
  have "data_packet now src pkt tlen g l s = map_option (Pair g2) (log_ack now src sn l2 s)"
    unfolding data_packet_def sn_def [symmetric] by (simp add: t l1_def g2_def l2_def b_def Let_def)
  with log_ack_ok [OF l2(1), of now src sn s] g2 l2(2) same_link_trans show ?thesis by auto
qed

definition pkt_mem_ok :: "CPacket \<Rightarrow> bool" where
  "pkt_mem_ok p \<longleftrightarrow> m_Length p \<le> length (m_pcData p) \<or> m_Length p > 65535"

lemma rebuildWire_ok: "pkt_mem_ok p \<Longrightarrow> cap \<le> 65535 \<Longrightarrow> \<exists>w. rebuildWire p cap = Some w"
  by (auto simp: rebuildWire_def pkt_mem_ok_def Let_def)

lemma link_packet_ok:
  assumes inv: "srtla_inv s" and g: "g \<in> set (m_Groups s)" and l: "l \<in> set (links g)" and p: "pkt_mem_ok pkt"
  shows "\<exists>r s'. link_packet now src pkt g l s = Some (r, s') \<and> srtla_inv s'"
proof -
  define tlen where "tlen = (if m_Length pkt \<le> 65535 then m_Length pkt + 16 else 0)"
  define l1 where "l1 = (if m_Length pkt \<le> 65535 then note_rate now tlen (note_liveness now l) else note_liveness now l)"
  define g1 where "g1 = g\<lparr>last_addr := src, has_last_addr := True, data_seen := True\<rparr>"
  have gok: "group_ok (m_NextPtr s) g" using inv g by (rule inv_groupD)
  then have lok: "link_ok (m_NextPtr s) l" using l by (simp add: group_ok_def)
  have l1: "link_ok (m_NextPtr s) l1" "same_link l l1"
    using note_liveness_ok [OF lok] note_rate_ok [of "m_NextPtr s" "note_liveness now l"]
    by (auto simp: l1_def intro: same_link_trans)
  have put: "srtla_inv (put_group (put_link k h) s')"
    if h: "group_ok (m_NextPtr s) h" "gptr h = gptr g" "links h = links g"
      and k: "link_ok (m_NextPtr s) k" "same_link l k" and s': "s' = s \<or> (\<exists>t. s' = emit t s)" for h k s'
  proof (rule inv_put)
    show "srtla_inv s'" "g \<in> set (m_Groups s')" using inv g s' by auto
    show "gptr (put_link k h) = gptr g" using h(2) by (simp add: put_link_def)
    show "group_ok (m_NextPtr s') (put_link k h)"
      using put_link_ok [OF h(1), of l k] h(3) k l s' by (auto simp: same_link_def)
    show "link_keys (put_link k h) = link_keys g"
      using put_link_keys [OF h(1), of l k] h(3) k l by (auto simp: same_link_def link_keys_def)
  qed
  have g1: "group_ok (m_NextPtr s) g1" "gptr g1 = gptr g" "links g1 = links g"
    using gok by (auto simp: g1_def group_ok_def)
  have e: "link_packet now src pkt g l s =
     (if peekType pkt = T_KEEPALIVE then map_option (Pair SRTLA_DROP) (echoKeepalive src pkt (put_group (put_link l1 g) s))
      else if peekType pkt \<ge> 0x9000 \<or> m_Length pkt > 65535 \<or> tlen < SRT_MIN_LEN
        then Some (SRTLA_DROP, put_group (put_link l1 g) s)
      else if m_nHeader pkt SRT_PH_SEQNO AND 0x80000000 = 0 then do {
             (g, l, s) \<leftarrow> data_packet now src pkt tlen g1 l1 s;
             Some (SRTLA_PASS, put_group (put_link l g) s) }
      else Some (SRTLA_PASS, put_group (put_link l1 g1) s))"
    by (auto simp: link_packet_def Let_def l1_def tlen_def g1_def)
  have base: "srtla_inv (put_group (put_link l1 g) s)" "srtla_inv (put_group (put_link l1 g1) s)"
    using put [OF gok _ _ l1, of s] put [OF g1 l1, of s] by auto
  have ka: "\<exists>s'. echoKeepalive src pkt t = Some s' \<and> srtla_inv s'" if "srtla_inv t" for t
    using rebuildWire_ok [OF p, of 1500] that by (auto simp: echoKeepalive_def)
  have dp: "\<exists>s'. (do { (g, l, s) \<leftarrow> data_packet now src pkt tlen g1 l1 s;
             Some (SRTLA_PASS, put_group (put_link l g) s) }) = Some (SRTLA_PASS, s') \<and> srtla_inv s'"
    if "m_Length pkt \<le> 65535"
  proof -
    have "unique_acc l1 + real tlen \<le> recv_acc l1"
      using note_rate_room [of "m_NextPtr s" "note_liveness now l"] note_liveness_ok [OF lok] that by (auto simp: l1_def)
    from data_packet_ok [OF g1(1) l1(1) this, of now src pkt s] obtain g' l' s' where
      d: "data_packet now src pkt tlen g1 l1 s = Some (g', l', s')" "group_ok (m_NextPtr s) g'" "gptr g' = gptr g"
        "links g' = links g" "link_ok (m_NextPtr s) l'" "same_link l1 l'" "s' = s \<or> (\<exists>t. s' = emit t s)"
      using g1 by auto
    with put [OF d(2-5) same_link_trans [OF l1(2) d(6)] d(7)] show ?thesis by auto
  qed
  show ?thesis unfolding e using base ka [OF base(1)] dp by (auto simp: not_less)
qed

section \<open>Registration and removal keep the invariant\<close>

lemma link_ok_mono: "link_ok n l \<Longrightarrow> n \<le> m \<Longrightarrow> link_ok m l"
  by (auto simp: link_ok_def)

lemma group_ok_mono: "group_ok n g \<Longrightarrow> n \<le> m \<Longrightarrow> group_ok m g"
  by (auto simp: group_ok_def intro: link_ok_mono)

lemma index_append [simp]: "index (xs @ ys) = index xs \<union> index ys"
  by (auto simp: index_def)

lemma index_Nil [simp]: "index [] = {}"
  by (simp add: index_def)

lemma index_single: "index [g] = (\<lambda>(lp, a). (a, gptr g, lp)) ` set (link_keys g)"
  by (simp add: index_def)

lemma inv_linkmap: "srtla_inv s \<Longrightarrow> m_LinkMap s a = Some (gp, lp) \<longleftrightarrow> (a, gp, lp) \<in> index (m_Groups s)"
  by (simp add: srtla_inv_def)

lemma inv_index_unique:
  "srtla_inv s \<Longrightarrow> (a, gp, lp) \<in> index (m_Groups s) \<Longrightarrow> (a, gp', lp') \<in> index (m_Groups s) \<Longrightarrow> gp' = gp \<and> lp' = lp"
  by (metis inv_linkmap option.inject prod.inject)

lemma erase_links: "foldl (\<lambda>m l. m(addr l := None)) m ls = (\<lambda>a. if a \<in> addr ` set ls then None else m a)"
  by (induction ls arbitrary: m) (auto simp: fun_eq_iff)

lemma index_links: "g \<in> set gs \<Longrightarrow> l \<in> set (links g) \<Longrightarrow> (addr l, gptr g, lptr l) \<in> index gs"
  by (force simp: index_def link_keys_def)

lemma index_group_links:
  assumes "distinct (map gptr gs)" and "g \<in> set gs" and "(a, gptr g, lp) \<in> index gs"
  shows "\<exists>l\<in>set (links g). addr l = a \<and> lptr l = lp"
proof -
  from assms(3) obtain h l where h: "h \<in> set gs" "gptr h = gptr g" "l \<in> set (links h)" "addr l = a" "lptr l = lp"
    by (auto simp: index_def link_keys_def)
  with assms(1,2) have "h = g" by (auto simp: distinct_map dest: inj_onD)
  with h show ?thesis by auto
qed

lemma index_filter: "index (filter (\<lambda>h. gptr h \<noteq> gp) gs) = {(a, gp', lp) \<in> index gs. gp' \<noteq> gp}"
  by (auto simp: index_def)

lemma removeGroup_ok:
  assumes inv: "srtla_inv s" and g: "g \<in> set (m_Groups s)"
  shows "\<exists>s'. removeGroup (gptr g) s = Some s' \<and> srtla_inv s' \<and>
    m_Groups s' = filter (\<lambda>h. gptr h \<noteq> gptr g) (m_Groups s) \<and>
    m_LinkMap s' = (\<lambda>a. if a \<in> addr ` set (links g) then None else m_LinkMap s a)"
proof -
  define s' where "s' = s\<lparr>m_LinkMap := foldl (\<lambda>m l. m(addr l := None)) (m_LinkMap s) (links g),
             m_EgressMap := (\<lambda>a. if m_EgressMap s a = Some (gptr g) then None else m_EgressMap s a),
             m_Groups := filter (\<lambda>h. gptr h \<noteq> gptr g) (m_Groups s)\<rparr>"
  have d: "distinct (map gptr (m_Groups s))" using inv by (simp add: srtla_inv_def)
  have lm: "m_LinkMap s' a = Some (gp, lp) \<longleftrightarrow> (a, gp, lp) \<in> index (m_Groups s')" for a gp lp
  proof -
    have "m_LinkMap s' a = Some (gp, lp) \<longleftrightarrow> a \<notin> addr ` set (links g) \<and> (a, gp, lp) \<in> index (m_Groups s)"
      using inv_linkmap [OF inv] by (auto simp: s'_def erase_links)
    moreover have "a \<notin> addr ` set (links g)" if "(a, gp, lp) \<in> index (m_Groups s)" "gp \<noteq> gptr g"
      using inv_index_unique [OF inv that(1)] index_links [OF g] that(2) by fastforce
    moreover have "a \<in> addr ` set (links g)" if "(a, gptr g, lp) \<in> index (m_Groups s)"
      using index_group_links [OF d g that] by auto
    ultimately show ?thesis by (auto simp: s'_def index_filter)
  qed
  have "distinct (map gptr (m_Groups s'))" using d by (simp add: s'_def distinct_map_filter)
  moreover have "length (m_Groups s') \<le> length (m_Groups s)" by (simp add: s'_def)
  then have "length (m_Groups s') \<le> MAX_GROUPS" using inv by (simp add: srtla_inv_def)
  moreover have "gp \<in> gptr ` set (m_Groups s')" if "m_EgressMap s' a = Some gp" for a gp
  proof -
    have "gp \<noteq> gptr g" "gp \<in> gptr ` set (m_Groups s)"
      using that inv by (auto simp: s'_def srtla_inv_def split: if_splits)
    then show ?thesis by (auto simp: s'_def)
  qed
  moreover have "\<forall>h\<in>set (m_Groups s'). group_ok (m_NextPtr s') h" using inv by (auto simp: s'_def srtla_inv_def)
  ultimately have "srtla_inv s'" using lm by (simp add: srtla_inv_def)
  moreover have "removeGroup (gptr g) s = Some s'"
    using get_group_in [OF inv g] by (simp add: removeGroup_def s'_def)
  ultimately show ?thesis by (simp add: s'_def erase_links)
qed

lemma fillRandom_length [simp]: "length (fillRandom rnd n) = n"
  by (simp add: fillRandom_def)

lemma create_group_ok:
  assumes inv: "srtla_inv s" and room: "length (m_Groups s) < MAX_GROUPS" and w: "length wire = REG_LEN"
  shows "srtla_inv (create_group now rnd src wire s)"
proof -
  define g where "g = (Group_new (m_NextPtr s))\<lparr>
            group_id := take SRTLA_ID_HALF (drop 2 wire) @ fillRandom rnd SRTLA_ID_HALF,
            created_at := now, last_addr := src, has_last_addr := True\<rparr>"
  define t where "t = s\<lparr>m_Groups := m_Groups s @ [g], m_NextPtr := m_NextPtr s + 1\<rparr>"
  have g: "gptr g = m_NextPtr s" "links g = []" by (auto simp: g_def Group_new_def)
  have "group_ok (m_NextPtr s + 1) g" using w
    by (simp add: g_def Group_new_def group_ok_def seq_ok_def m_iMaxSeqNo_def)
  moreover have "\<forall>h\<in>set (m_Groups s). group_ok (m_NextPtr s + 1) h"
    using inv by (auto simp: srtla_inv_def intro: group_ok_mono)
  moreover have "m_NextPtr s \<notin> gptr ` set (m_Groups s)"
    using inv_groupD [OF inv] by (fastforce simp: group_ok_def)
  ultimately have "srtla_inv t" using inv g room
    by (auto simp: t_def srtla_inv_def index_single link_keys_def)
  then show ?thesis by (simp add: create_group_def g_def [symmetric] t_def Let_def)
qed

lemma foldl_pick_in:
  assumes "foldl (\<lambda>v g. if P g then (case v of None \<Rightarrow> Some g | Some u \<Rightarrow> if Q g u then Some g else v) else v) v0 gs = Some x"
  shows "v0 = Some x \<or> (x \<in> set gs \<and> P x)"
  using assms
proof (induction gs arbitrary: v0)
  case (Cons g gs)
  then show ?case by (force split: if_splits option.splits)
qed simp

lemma oldest_ghostD: "oldest_ghost s = Some v \<Longrightarrow> v \<in> set (m_Groups s) \<and> links v = [] \<and> \<not> data_seen v"
  unfolding oldest_ghost_def by (drule foldl_pick_in) auto

lemma handleReg1_ok:
  assumes inv: "srtla_inv s" and w: "length wire = REG_LEN"
  shows "\<exists>s'. handleReg1 now rnd src wire s = Some s' \<and> srtla_inv s'"
proof -
  have ev: "\<exists>s'. map_option (create_group now rnd src wire) (removeGroup (gptr v) s) = Some s' \<and> srtla_inv s'"
    if v: "oldest_ghost s = Some v" for v
  proof -
    have vm: "v \<in> set (m_Groups s)" using oldest_ghostD [OF v] by simp
    from removeGroup_ok [OF inv vm] obtain t where t: "removeGroup (gptr v) s = Some t" "srtla_inv t"
      "m_Groups t = filter (\<lambda>h. gptr h \<noteq> gptr v) (m_Groups s)" by blast
    have "length (m_Groups t) < length (m_Groups s)" unfolding t(3) using vm by (intro length_filter_less) auto
    then have "length (m_Groups t) < MAX_GROUPS" using inv by (simp add: srtla_inv_def)
    with create_group_ok [OF t(2) _ w] t(1) show ?thesis by simp
  qed
  show ?thesis using inv ev create_group_ok [OF inv _ w]
    by (auto simp: handleReg1_def not_le split: option.splits)
qed

lemma join_link_ok:
  assumes inv: "srtla_inv s" and g: "g \<in> set (m_Groups s)" and room: "length (links g) < MAX_CONNS_PER_GROUP"
    and new: "findLink src s = None"
  shows "srtla_inv (join_link now src g s)"
proof -
  define l where "l = (Link_new (m_NextPtr s))\<lparr>addr := src, last_rcvd := now, established := now,
            last_keepalive := now, connectionId := fnv1a src\<rparr>"
  define g' where "g' = g\<lparr>links := links g @ [l], last_addr := src, has_last_addr := True\<rparr>"
  define t where "t = (put_group g' s)\<lparr>m_NextPtr := m_NextPtr s + 1,
           m_LinkMap := (m_LinkMap s)(src \<mapsto> (gptr g, lptr l))\<rparr>"
  have d: "distinct (map gptr (m_Groups s))" using inv by (simp add: srtla_inv_def)
  have gok: "group_ok (m_NextPtr s) g" using inv g by (rule inv_groupD)
  have l: "lptr l = m_NextPtr s" "addr l = src" "link_ok (m_NextPtr s + 1) l"
    by (auto simp: l_def Link_new_def link_ok_def)
  have g': "gptr g' = gptr g" by (simp add: g'_def)
  have "m_NextPtr s \<notin> lptr ` set (links g)" using gok by (auto simp: group_ok_def link_ok_def)
  then have g'ok: "group_ok (m_NextPtr s + 1) g'" using gok l room
    by (auto simp: group_ok_def g'_def intro: link_ok_mono)
  note gs = put_group_set [OF d g g']
  have "\<forall>h\<in>set (m_Groups (put_group g' s)). group_ok (m_NextPtr s + 1) h"
    unfolding gs using g'ok inv by (auto simp: srtla_inv_def intro: group_ok_mono)
  moreover have ix: "index (m_Groups (put_group g' s)) = insert (src, gptr g, lptr l) (index (m_Groups s))"
    unfolding index_put [OF d g g'] index_insert [OF g] using l by (auto simp: g'_def link_keys_def)
  have "m_LinkMap t a = Some (gp, lp) \<longleftrightarrow> (a, gp, lp) \<in> index (m_Groups (put_group g' s))" for a gp lp
    unfolding ix using inv_linkmap [OF inv, of a gp lp] findLink_None [OF inv new] by (auto simp: t_def)
  moreover have t: "m_Groups t = m_Groups (put_group g' s)" "m_NextPtr t = m_NextPtr s + 1" "m_EgressMap t = m_EgressMap s"
    by (simp_all add: t_def)
  ultimately have "srtla_inv t" using inv
    unfolding srtla_inv_def t put_group_ptrs put_group_ptr_set put_group_length by blast
  then show ?thesis by (simp add: join_link_def l_def [symmetric] g'_def [symmetric] t_def Let_def)
qed


lemma findGroupByIdD: "findGroupById i s = Some gp \<Longrightarrow> \<exists>g\<in>set (m_Groups s). gptr g = gp \<and> ctEqual (group_id g) i SRTLA_ID_LEN"
proof -
  assume f: "findGroupById i s = Some gp"
  have "foldl (\<lambda>f g. if P g then Some (gptr g) else f) f0 gs = Some gp \<Longrightarrow>
      f0 = Some gp \<or> (\<exists>g\<in>set gs. gptr g = gp \<and> P g)" for P f0 gs
    by (induction gs arbitrary: f0) (force split: if_splits)+
  from this [of "\<lambda>g. ctEqual (group_id g) i SRTLA_ID_LEN" None "m_Groups s"] f show ?thesis
    by (simp add: findGroupById_def)
qed

lemma handleReg2_ok:
  assumes inv: "srtla_inv s"
  shows "\<exists>s'. handleReg2 now src wire s = Some s' \<and> srtla_inv s'"
proof (cases "findGroupById (drop 2 wire) s")
  case None
  then show ?thesis using inv by (simp add: handleReg2_def)
next
  case (Some gp)
  then obtain g where g: "g \<in> set (m_Groups s)" "gptr g = gp" using findGroupByIdD by blast
  have gg: "get_group gp s = Some g" using get_group_in [OF inv g(1)] g(2) by simp
  show ?thesis using Some inv gg join_link_ok [OF inv g(1)]
    by (cases "findLink src s") (auto simp: handleReg2_def not_le)
qed

lemma onIngress_ok:
  assumes inv: "srtla_inv s" and p: "pkt_mem_ok pkt"
  shows "\<exists>r s'. onIngress now now' rnd src pkt s = Some (r, s') \<and> srtla_inv s'"
proof -
  obtain w where w: "rebuildWire pkt REG_LEN = Some w" using rebuildWire_ok [OF p, of REG_LEN] by auto
  have reg: "\<exists>s'. (if length w = REG_LEN then
                   (if T = T_REG1 then handleReg1 now' rnd src w s else handleReg2 now' src w s)
                 else Some s) = Some s' \<and> srtla_inv s'" for T
    using handleReg1_ok [OF inv] handleReg2_ok [OF inv] inv by auto
  have lnk: "\<exists>r s'. (do { g \<leftarrow> get_group gp s; l \<leftarrow> get_link lp g; link_packet now src pkt g l s }) = Some (r, s') \<and>
      srtla_inv s'" if "findLink src s = Some (gp, lp)" for gp lp
    using findLink_deref [OF inv that] link_packet_ok [OF inv _ _ p] by fastforce
  show ?thesis
  proof (cases "peekType pkt = T_REG1 \<or> peekType pkt = T_REG2")
    case True
    then show ?thesis using reg [of "peekType pkt"] w inv by (auto simp: onIngress_def Let_def)
  next
    case False
    then show ?thesis using lnk inv by (cases "findLink src s") (auto simp: onIngress_def Let_def)
  qed
qed

lemma onEgress_ok:
  assumes inv: "srtla_inv s"
  shows "\<exists>r s'. onEgress peer pkt src s = Some (r, s') \<and> srtla_inv s'"
proof (cases "findGroupByEgress peer s")
  case (Some gp)
  then obtain g where "get_group gp s = Some g"
    using get_group_ex [OF inv, of gp] inv by (auto simp: findGroupByEgress_def srtla_inv_def)
  with Some inv show ?thesis by (auto simp: onEgress_def)
qed (use inv in \<open>auto simp: onEgress_def\<close>)

lemma bindGroup_ok:
  assumes inv: "srtla_inv s"
  shows "\<exists>s'. bindGroup peer sid s = Some s' \<and> srtla_inv s'"
proof (cases "findLink peer s")
  case (Some r)
  obtain gp lp where r: "r = (gp, lp)" by (cases r)
  from findLink_deref [OF inv Some [unfolded r]] obtain g where
    g: "get_group gp s = Some g" "g \<in> set (m_Groups s)" "gptr g = gp" by blast
  define g' where "g' = (let h = g\<lparr>socket_id := sid, bound := True\<rparr>
    in if has_last_addr h then h else h\<lparr>last_addr := peer, has_last_addr := True\<rparr>)"
  have g': "gptr g' = gptr g" "link_keys g' = link_keys g" "group_ok (m_NextPtr s) g'"
    using inv_groupD [OF inv g(2)] by (auto simp: g'_def Let_def link_keys_def group_ok_def)
  define t where "t = put_group g' s"
  have t: "srtla_inv t" unfolding t_def using g' by (intro inv_put [OF inv g(2)]) auto
  moreover have "gp \<in> gptr ` set (m_Groups t)" using g by (auto simp: t_def)
  ultimately have "srtla_inv (t\<lparr>m_EgressMap := (m_EgressMap s)(peer \<mapsto> gp)\<rparr>)"
    by (auto simp: srtla_inv_def t_def)
  then show ?thesis using Some g r by (simp add: bindGroup_def g'_def t_def Let_def)
qed (use inv in \<open>simp add: bindGroup_def\<close>)


section \<open>Cleanup and the periodic pass\<close>

definition alive :: "int \<Rightarrow> Link \<Rightarrow> bool" where
  "alive now l \<longleftrightarrow> count_milliseconds (now - last_rcvd l) \<le> 4000"

definition revive :: "int \<Rightarrow> Link \<Rightarrow> SrtlaRec \<Rightarrow> Link \<times> SrtlaRec" where
  "revive now l s = (if recovering l then
             (if count_milliseconds (now - recovery_start l) \<ge> 5000 then (l\<lparr>recovering := False\<rparr>, s)
              else if count_milliseconds (now - last_keepalive l) \<ge> 1000 then
                (l\<lparr>last_keepalive := now\<rparr>, sendKeepalive (addr l) s)
              else (l, s))
           else (l, s))"

lemma cleanup_links_Cons: "cleanup_links now (l # ls) s =
  (if alive now l then (let (l', s1) = revive now l s; (ls', s2) = cleanup_links now ls s1 in (l' # ls', s2))
   else cleanup_links now ls (s\<lparr>m_LinkMap := (m_LinkMap s)(addr l := None)\<rparr>))"
  by (auto simp: revive_def alive_def)

declare cleanup_links.simps(2) [simp del]

lemma revive_spec:
  assumes "revive now l s = (l', s')"
  shows "same_link l l'" "last_rcvd l' = last_rcvd l" "link_ok n l \<Longrightarrow> link_ok n l'"
    "m_Groups s' = m_Groups s" "m_LinkMap s' = m_LinkMap s" "m_EgressMap s' = m_EgressMap s" "m_NextPtr s' = m_NextPtr s"
  using assms by (auto simp: revive_def same_link_def link_ok_def send_defs split: if_splits)

lemma cleanup_links_spec:
  assumes "cleanup_links now ls s = (ls', s')"
  shows "map (\<lambda>l. (lptr l, addr l)) ls' = map (\<lambda>l. (lptr l, addr l)) (filter (alive now) ls) \<and>
    m_LinkMap s' = (\<lambda>a. if a \<in> addr ` set (filter (\<lambda>l. \<not> alive now l) ls) then None else m_LinkMap s a) \<and>
    m_Groups s' = m_Groups s \<and> m_EgressMap s' = m_EgressMap s \<and> m_NextPtr s' = m_NextPtr s \<and>
    ((\<forall>l\<in>set ls. link_ok n l) \<longrightarrow> (\<forall>l\<in>set ls'. link_ok n l)) \<and> (\<forall>l\<in>set ls'. alive now l)"
  using assms
proof (induction ls arbitrary: s ls' s')
  case (Cons l ls)
  show ?case
  proof (cases "alive now l")
    case True
    obtain l1 s1 where r: "revive now l s = (l1, s1)" by (cases "revive now l s")
    obtain ls2 s2 where c: "cleanup_links now ls s1 = (ls2, s2)" by (cases "cleanup_links now ls s1")
    have e: "ls' = l1 # ls2" "s' = s2" using Cons.prems True r c by (auto simp: cleanup_links_Cons)
    show ?thesis using Cons.IH [OF c] revive_spec [OF r] True e
      by (auto simp: same_link_def alive_def)
  next
    case False
    then have "cleanup_links now ls (s\<lparr>m_LinkMap := (m_LinkMap s)(addr l := None)\<rparr>) = (ls', s')"
      using Cons.prems by (simp add: cleanup_links_Cons)
    from Cons.IH [OF this] False show ?thesis by (auto simp: fun_eq_iff)
  qed
qed simp

lemma inv_addr_inj:
  assumes inv: "srtla_inv s" and g: "g \<in> set (m_Groups s)" and l: "l \<in> set (links g)" "k \<in> set (links g)" "addr l = addr k"
  shows "l = k"
proof -
  have "lptr k = lptr l" using inv_index_unique [OF inv] index_links [OF g l(1)] index_links [OF g l(2)] l(3) by metis
  then show ?thesis using inv_groupD [OF inv g] l(1,2) by (auto simp: group_ok_def distinct_map dest: inj_onD)
qed

text \<open>Dropping links from a group, together with their entries in the link map.\<close>

lemma inv_drop_links:
  assumes inv: "srtla_inv s" and g: "g \<in> set (m_Groups s)"
    and g': "gptr g' = gptr g" "group_ok (m_NextPtr s) g'" "link_keys g' = map (\<lambda>l. (lptr l, addr l)) (filter P (links g))"
    and t: "m_Groups t = m_Groups s" "m_EgressMap t = m_EgressMap s" "m_NextPtr t = m_NextPtr s"
      "m_LinkMap t = (\<lambda>a. if a \<in> addr ` set (filter (\<lambda>l. \<not> P l) (links g)) then None else m_LinkMap s a)"
  shows "srtla_inv (put_group g' t)"
proof -
  have d: "distinct (map gptr (m_Groups s))" using inv by (simp add: srtla_inv_def)
  have dt: "distinct (map gptr (m_Groups t))" "g \<in> set (m_Groups t)" using d g t by auto
  have ix: "index (m_Groups (put_group g' t)) =
      {(a, gp, lp) \<in> index (m_Groups s). a \<notin> addr ` set (filter (\<lambda>l. \<not> P l) (links g))}" 
  proof -
    let ?D = "addr ` set (filter (\<lambda>l. \<not> P l) (links g))" and ?o = "index (filter (\<lambda>h. h \<noteq> g) (m_Groups s))"
    have o: "a \<notin> ?D" if o: "(a, gp, lp) \<in> ?o" for a gp lp
    proof
      assume "a \<in> ?D"
      then obtain k where k: "k \<in> set (links g)" "addr k = a" by auto
      from o obtain h where h: "h \<in> set (m_Groups s)" "h \<noteq> g" "gptr h = gp" by (auto simp: index_def)
      have i: "(a, gp, lp) \<in> index (m_Groups s)" using o by (auto simp: index_def)
      have "gp = gptr g" using inv_index_unique [OF inv i] index_links [OF g k(1)] k(2) by auto
      with h g d show False by (auto simp: distinct_map dest: inj_onD)
    qed
    have L: "index (m_Groups (put_group g' t)) = (\<lambda>l. (addr l, gptr g, lptr l)) ` set (filter P (links g)) \<union> ?o"
      unfolding index_put [OF dt g'(1)] g'(3) t(1) by (auto simp: image_iff)
    have R: "index (m_Groups s) = (\<lambda>l. (addr l, gptr g, lptr l)) ` set (links g) \<union> ?o"
      unfolding index_insert [OF g] by (auto simp: link_keys_def image_iff)
    show ?thesis unfolding L R using o inv_addr_inj [OF inv g] by auto blast
  qed
  have "(m_LinkMap t a = Some (gp, lp)) = ((a, gp, lp) \<in> index (m_Groups (put_group g' t)))" for a gp lp
    unfolding ix t(4) using inv_linkmap [OF inv] by auto
  moreover have "\<forall>h\<in>set (m_Groups (put_group g' t)). group_ok (m_NextPtr s) h"
    unfolding put_group_set [OF dt g'(1)] using g'(2) inv t(1) by (auto simp: srtla_inv_def)
  ultimately show ?thesis using inv
    unfolding srtla_inv_def put_group_ptrs put_group_ptr_set put_group_length put_group_fields t by blast
qed


definition dead_addrs :: "int \<Rightarrow> Group \<Rightarrow> sockaddr_any set" where
  "dead_addrs now g = addr ` set (filter (\<lambda>l. \<not> alive now l) (links g))"

lemma cleanup_group_ok:
  assumes inv: "srtla_inv s" and g: "g \<in> set (m_Groups s)"
  shows "\<exists>s'. cleanup_group now s (gptr g) = Some s' \<and> srtla_inv s' \<and>
    m_LinkMap s' = (\<lambda>a. if a \<in> dead_addrs now g then None else m_LinkMap s a) \<and>
    (\<exists>g'. gptr g' = gptr g \<and> (\<forall>l\<in>set (links g'). alive now l) \<and>
      set (m_Groups s') \<subseteq> insert g' (set (m_Groups s) - {g})) \<and>
    {h \<in> set (m_Groups s'). gptr h \<noteq> gptr g} = {h \<in> set (m_Groups s). gptr h \<noteq> gptr g}"
proof -
  obtain ls t where c: "cleanup_links now (links g) s = (ls, t)" by (cases "cleanup_links now (links g) s")
  define g' where "g' = g\<lparr>links := ls\<rparr>"
  define u where "u = put_group g' t"
  note sp = cleanup_links_spec [OF c, of "m_NextPtr s"]
  have gok: "group_ok (m_NextPtr s) g" using inv g by (rule inv_groupD)
  have k: "link_keys g' = map (\<lambda>l. (lptr l, addr l)) (filter (alive now) (links g))"
    using sp by (simp add: g'_def link_keys_def)
  have "length ls = length (filter (alive now) (links g))" using sp map_eq_imp_length_eq by blast
  then have len: "length ls \<le> MAX_CONNS_PER_GROUP" using gok length_filter_le [of "alive now" "links g"]
    unfolding group_ok_def by linarith
  have "map lptr ls = map lptr (filter (alive now) (links g))"
    using arg_cong [OF k, of "map fst"] by (simp add: g'_def link_keys_def comp_def)
  then have "distinct (map lptr ls)" using gok by (simp add: group_ok_def distinct_map_filter)
  then have g'ok: "gptr g' = gptr g" "group_ok (m_NextPtr s) g'"
    using gok len sp by (auto simp: group_ok_def g'_def)
  have u: "srtla_inv u" unfolding u_def
    using sp by (intro inv_drop_links [OF inv g g'ok k]) auto
  have d: "distinct (map gptr (m_Groups s))" using inv by (simp add: srtla_inv_def)
  have gt: "g \<in> set (m_Groups t)" "distinct (map gptr (m_Groups t))" using sp g d by auto
  have us: "set (m_Groups u) = insert g' (set (m_Groups s) - {g})"
    unfolding u_def put_group_set [OF gt(2,1) g'ok(1)] using sp by auto
  then have g'u: "g' \<in> set (m_Groups u)" by simp
  have al: "\<forall>l\<in>set (links g'). alive now l" using sp by (simp add: g'_def)
  have um: "m_LinkMap u = (\<lambda>a. if a \<in> dead_addrs now g then None else m_LinkMap s a)"
    using sp by (simp add: u_def dead_addrs_def)
  have uo: "{h \<in> set (m_Groups u). gptr h \<noteq> gptr g} = {h \<in> set (m_Groups s). gptr h \<noteq> gptr g}"
    using us g'ok(1) by auto
  have e: "cleanup_group now s (gptr g) =
      (if ls = [] \<and> count_milliseconds (now - created_at g) > 4000 then removeGroup (gptr g) u else Some u)"
    using get_group_in [OF inv g] c by (simp add: cleanup_group_def g'_def u_def Let_def)
  from removeGroup_ok [OF u g'u] g'ok obtain v where v: "removeGroup (gptr g) u = Some v" "srtla_inv v"
    "m_Groups v = filter (\<lambda>h. gptr h \<noteq> gptr g) (m_Groups u)"
    "m_LinkMap v = (\<lambda>a. if a \<in> addr ` set (links g') then None else m_LinkMap u a)" by auto
  have vm: "m_LinkMap v = m_LinkMap u" if "ls = []" using v(4) that by (simp add: g'_def)
  have "set (m_Groups v) \<subseteq> insert g' (set (m_Groups s) - {g})" using v(3) us by auto
  moreover have "{h \<in> set (m_Groups v). gptr h \<noteq> gptr g} = {h \<in> set (m_Groups s). gptr h \<noteq> gptr g}"
    unfolding uo [symmetric] using v(3) by auto
  ultimately show ?thesis unfolding e using u v(1,2) vm um uo us al g'ok(1) by (auto intro!: exI [of _ g'])
qed

definition all_alive :: "int \<Rightarrow> nat set \<Rightarrow> SrtlaRec \<Rightarrow> bool" where
  "all_alive now ps s \<longleftrightarrow> (\<forall>g\<in>set (m_Groups s). gptr g \<in> ps \<or> (\<forall>l\<in>set (links g). alive now l))"

definition all_dead :: "int \<Rightarrow> nat set \<Rightarrow> SrtlaRec \<Rightarrow> sockaddr_any set" where
  "all_dead now ps s = (\<Union>g\<in>{g \<in> set (m_Groups s). gptr g \<in> ps}. dead_addrs now g)"

lemma cleanup_groups_ok:
  assumes "srtla_inv s" and "set gps \<subseteq> gptr ` set (m_Groups s)" and "distinct gps" and "all_alive now (set gps) s"
  shows "\<exists>s'. cleanup_groups now gps s = Some s' \<and> srtla_inv s' \<and> all_alive now {} s' \<and>
    m_LinkMap s' = (\<lambda>a. if a \<in> all_dead now (set gps) s then None else m_LinkMap s a)"
  using assms
proof (induction gps arbitrary: s)
  case (Cons gp gps)
  then obtain g where g: "g \<in> set (m_Groups s)" "gptr g = gp" by auto
  from cleanup_group_ok [OF Cons.prems(1) g(1), of now] g(2) obtain s' g' where
    s': "cleanup_group now s gp = Some s'" "srtla_inv s'"
      "m_LinkMap s' = (\<lambda>a. if a \<in> dead_addrs now g then None else m_LinkMap s a)"
      "gptr g' = gp" "\<forall>l\<in>set (links g'). alive now l" "set (m_Groups s') \<subseteq> insert g' (set (m_Groups s) - {g})"
      "{h \<in> set (m_Groups s'). gptr h \<noteq> gp} = {h \<in> set (m_Groups s). gptr h \<noteq> gp}"
    by blast
  have d: "distinct (map gptr (m_Groups s))" using Cons.prems(1) by (simp add: srtla_inv_def)
  have gu: "h = g" if "h \<in> set (m_Groups s)" "gptr h = gp" for h
    using d g that by (auto simp: distinct_map dest: inj_onD)
  have "all_alive now (set gps) s'" using Cons.prems(4) s'(5,6) gu by (fastforce simp: all_alive_def)
  moreover have "set gps \<subseteq> gptr ` set (m_Groups s')" using Cons.prems(2,3) s'(7) by force
  moreover have "{h \<in> set (m_Groups s). gptr h \<in> set (gp # gps)} = insert g {h \<in> set (m_Groups s'). gptr h \<in> set gps}"
  proof (rule set_eqI)
    fix h
    have "h \<in> set (m_Groups s') \<and> gptr h \<noteq> gp \<longleftrightarrow> h \<in> set (m_Groups s) \<and> gptr h \<noteq> gp" using s'(7) by blast
    moreover have "gp \<notin> set gps" using Cons.prems(3) by simp
    ultimately show "h \<in> {h \<in> set (m_Groups s). gptr h \<in> set (gp # gps)} \<longleftrightarrow>
        h \<in> insert g {h \<in> set (m_Groups s'). gptr h \<in> set gps}"
      using gu [of h] g by (cases "gptr h = gp") auto
  qed
  then have "all_dead now (set (gp # gps)) s = dead_addrs now g \<union> all_dead now (set gps) s'"
    by (simp add: all_dead_def)
  ultimately show ?case using Cons.IH [OF s'(2)] Cons.prems(3) s'(1,3) by (auto simp: fun_eq_iff)
qed (simp add: all_alive_def all_dead_def)

lemma doCleanup_ok:
  assumes "srtla_inv s"
  shows "\<exists>s'. doCleanup now s = Some s' \<and> srtla_inv s' \<and> all_alive now {} s' \<and>
    m_LinkMap s' = (\<lambda>a. if a \<in> all_dead now (gptr ` set (m_Groups s)) s then None else m_LinkMap s a)"
proof -
  have "distinct (map gptr (m_Groups s))" using assms by (simp add: srtla_inv_def)
  with cleanup_groups_ok [OF assms, of "map gptr (m_Groups s)" now] show ?thesis
    by (simp add: doCleanup_def all_alive_def)
qed

lemma flush_links_ok:
  assumes "\<forall>l\<in>set ls. link_ok n l"
  shows "\<exists>ls' s'. flush_links now ls s = Some (ls', s') \<and> map (\<lambda>l. (lptr l, addr l)) ls' = map (\<lambda>l. (lptr l, addr l)) ls \<and>
    (\<forall>l\<in>set ls'. link_ok n l) \<and> same_registry s s'"
  using assms
proof (induction ls arbitrary: s)
  case (Cons l ls)
  define b where "b \<longleftrightarrow> ack_count l > 0 \<and> now - ack_first_pending l \<ge> ACK_FLUSH_US"
  define l1 where "l1 = (if b then l\<lparr>ack_count := 0\<rparr> else l)"
  define s1 where "s1 = (if b then emit (Raw (addr l) (ack_datagram (pending l))) s else s)"
  have l: "link_ok n l" using Cons.prems by simp
  have "(if b then sendSrtlaAck (addr l) l s else Some (l, s)) = Some (l1, s1)"
    using sendSrtlaAck_ok [of l "addr l" s] l by (auto simp: b_def l1_def s1_def link_ok_def)
  moreover have "link_ok n l1" "lptr l1 = lptr l" "addr l1 = addr l" "same_registry s s1"
    using l by (auto simp: l1_def s1_def link_ok_def same_registry_def)
  moreover obtain ls' s' where "flush_links now ls s1 = Some (ls', s')"
    "map (\<lambda>l. (lptr l, addr l)) ls' = map (\<lambda>l. (lptr l, addr l)) ls" "\<forall>l\<in>set ls'. link_ok n l" "same_registry s1 s'"
    using Cons.IH [of s1] Cons.prems by auto
  ultimately show ?case by (auto simp: b_def [symmetric] same_registry_def)
qed (simp add: same_registry_def)

lemma flush_groups_ok:
  assumes "\<forall>g\<in>set gs. group_ok n g"
  shows "\<exists>gs' s'. flush_groups now gs s = Some (gs', s') \<and> map (\<lambda>g. (gptr g, link_keys g)) gs' = map (\<lambda>g. (gptr g, link_keys g)) gs \<and>
    (\<forall>g\<in>set gs'. group_ok n g) \<and> same_registry s s'"
  using assms
proof (induction gs arbitrary: s)
  case (Cons g gs)
  have g: "group_ok n g" using Cons.prems by simp
  from flush_links_ok [of "links g" n now s] g obtain ls s1 where
    f: "flush_links now (links g) s = Some (ls, s1)" "map (\<lambda>l. (lptr l, addr l)) ls = map (\<lambda>l. (lptr l, addr l)) (links g)"
      "\<forall>l\<in>set ls. link_ok n l" "same_registry s s1" by (auto simp: group_ok_def)
  have "map lptr ls = map lptr (links g)" using arg_cong [OF f(2), of "map fst"] by (simp add: comp_def)
  moreover have "length ls = length (links g)" using f(2) map_eq_imp_length_eq by blast
  ultimately have "group_ok n (g\<lparr>links := ls\<rparr>)" "link_keys (g\<lparr>links := ls\<rparr>) = link_keys g"
    using g f(2,3) by (auto simp: group_ok_def link_keys_def)
  moreover obtain gs' s' where "flush_groups now gs s1 = Some (gs', s')"
    "map (\<lambda>g. (gptr g, link_keys g)) gs' = map (\<lambda>g. (gptr g, link_keys g)) gs" "\<forall>g\<in>set gs'. group_ok n g" "same_registry s1 s'"
    using Cons.IH [of s1] Cons.prems by auto
  ultimately show ?case using f(1,4) by (auto simp: same_registry_def)
qed (simp add: same_registry_def)

text \<open>Only the link keys of the groups matter for the index.\<close>

lemma inv_same_keys:
  assumes inv: "srtla_inv s" and k: "map (\<lambda>g. (gptr g, link_keys g)) gs = map (\<lambda>g. (gptr g, link_keys g)) (m_Groups s)"
    and ok: "\<forall>g\<in>set gs. group_ok (m_NextPtr s) g"
    and t: "m_Groups t = gs" "m_LinkMap t = m_LinkMap s" "m_EgressMap t = m_EgressMap s" "m_NextPtr t = m_NextPtr s"
  shows "srtla_inv t"
proof -
  have p: "map gptr gs = map gptr (m_Groups s)" using arg_cong [OF k, of "map fst"] by (simp add: comp_def)
  have "index gs = (\<Union>(gp, ks)\<in>set (map (\<lambda>g. (gptr g, link_keys g)) gs). (\<lambda>(lp, a). (a, gp, lp)) ` set ks)" for gs
    by (auto simp: index_def)
  from this [of gs] this [of "m_Groups s"] have "index gs = index (m_Groups s)" unfolding k by metis
  moreover have "length gs = length (m_Groups s)" using k map_eq_imp_length_eq by blast
  moreover have "gptr ` set gs = gptr ` set (m_Groups s)" using p by (metis set_map)
  ultimately show ?thesis using inv ok p unfolding srtla_inv_def t by simp
qed

lemma onPeriodic_ok:
  assumes inv: "srtla_inv s"
  shows "\<exists>s'. onPeriodic now s = Some s' \<and> srtla_inv s'"
proof (cases "m_HaveTimers s")
  case True
  define u where "u = s\<lparr>m_LastLinkPass := now\<rparr>"
  have uok: "\<forall>g\<in>set (m_Groups u). group_ok (m_NextPtr s) g" using inv by (simp add: u_def srtla_inv_def)
  from flush_groups_ok [OF uok, of now u] obtain gs v where
    f: "flush_groups now (m_Groups u) u = Some (gs, v)" "map (\<lambda>g. (gptr g, link_keys g)) gs = map (\<lambda>g. (gptr g, link_keys g)) (m_Groups u)"
      "\<forall>g\<in>set gs. group_ok (m_NextPtr s) g" "same_registry u v" by blast
  define w where "w = (if now - m_LastLinkPass s \<ge> LINK_PASS_US then v\<lparr>m_Groups := gs\<rparr> else s)"
  have "srtla_inv (v\<lparr>m_Groups := gs\<rparr>)"
    by (rule inv_same_keys [OF inv, of gs]) (use f in \<open>auto simp: u_def same_registry_def\<close>)
  then have w: "srtla_inv w" using inv by (simp add: w_def)
  from doCleanup_ok [OF w, of now] obtain x where x: "doCleanup now w = Some x" "srtla_inv x" by blast
  have upd: "srtla_inv (x\<lparr>m_LastCleanup := now\<rparr>)" using x(2) by (simp add: srtla_inv_def)
  have "onPeriodic now s = (if count_milliseconds (now - m_LastCleanup w) \<ge> 3000
      then Some (x\<lparr>m_LastCleanup := now\<rparr>) else Some w)"
    using True f(1) x(1) by (auto simp: onPeriodic_def w_def u_def Let_def)
  then show ?thesis using w upd by auto
qed (use inv in \<open>auto simp: onPeriodic_def srtla_inv_def\<close>)

section \<open>Events\<close>

datatype srtla_event =
    Datagram int int "nat \<Rightarrow> u32" sockaddr_any CPacket
  | Outgoing sockaddr_any CPacket sockaddr_any
  | Bind sockaddr_any int
  | Tick int

definition srtla_step :: "srtla_event \<Rightarrow> SrtlaRec \<Rightarrow> SrtlaRec option" where
  "srtla_step e s = (case e of
       Datagram now now' rnd src pkt \<Rightarrow> map_option snd (onIngress now now' rnd src pkt s)
     | Outgoing peer pkt src \<Rightarrow> map_option snd (onEgress peer pkt src s)
     | Bind peer sid \<Rightarrow> bindGroup peer sid s
     | Tick now \<Rightarrow> onPeriodic now s)"

definition event_ok :: "srtla_event \<Rightarrow> bool" where
  "event_ok e = (case e of Datagram now now' rnd src pkt \<Rightarrow> pkt_mem_ok pkt | _ \<Rightarrow> True)"

interpretation srtla: safe_component srtla_inv event_ok srtla_step
proof
  fix s e
  assume inv: "srtla_inv s" and "event_ok e"
  then show "\<exists>s'. srtla_step e s = Some s' \<and> srtla_inv s'"
    using onIngress_ok [OF inv] onEgress_ok [OF inv] bindGroup_ok [OF inv] onPeriodic_ok [OF inv]
    by (cases e) (fastforce simp: srtla_step_def event_ok_def)+
qed

lemma srtla_inv_new [simp]: "srtla_inv SrtlaRec_new"
  by (simp add: srtla_inv_def SrtlaRec_new_def)

section \<open>Properties\<close>

text \<open>C6: whatever datagrams, outgoing packets, bindings and timer ticks arrive in whatever order
  and with whatever clock readings, the receiver never follows a dangling group or link pointer,
  never writes past a link's acknowledgement log and never reads past a packet, and its registry
  stays consistent: at most 200 groups of at most 16 links, every registered address leads to
  exactly its link and every bound peer to a live group.\<close>

theorem srtla_always_consistent:
  assumes "list_all event_ok es"
  shows "\<exists>s. run_events srtla_step es SrtlaRec_new = Some s \<and> srtla_inv s"
  using srtla.runs [OF srtla_inv_new assms] .

definition sample_wire :: "u32 \<Rightarrow> CPacket" where
  "sample_wire w = \<lparr>m_nHeader = (\<lambda>f. if f = SRT_PH_SEQNO then w else 0), m_pcData = [], m_Length = 0\<rparr>"

theorem srtla_always_consistent_witness:
  "\<exists>s. run_events srtla_step
     [Datagram 0 0 (\<lambda>i. 7) (AF_INET [10, 0, 0, 1] [1, 2]) (sample_wire 0x92000000), Tick 5,
      Datagram 9 9 (\<lambda>i. 7) (AF_INET [10, 0, 0, 1] [1, 2]) (sample_wire 0x00000001)] SrtlaRec_new = Some s \<and> srtla_inv s"
  using srtla_always_consistent [of "[Datagram 0 0 (\<lambda>i. 7) (AF_INET [10, 0, 0, 1] [1, 2]) (sample_wire 0x92000000), Tick 5,
      Datagram 9 9 (\<lambda>i. 7) (AF_INET [10, 0, 0, 1] [1, 2]) (sample_wire 0x00000001)]"]
  by (simp add: event_ok_def pkt_mem_ok_def sample_wire_def)

text \<open>C26: only registered links get through: a datagram that is not a registration and whose source
  is not a registered link is dropped and changes nothing, and a datagram is passed on to the SRT
  connection only when its source is a registered link, its type is none of the SRTLA types and its
  length is valid.\<close>

theorem srtla_admission:
  "(findLink src s = None \<and> peekType pkt \<noteq> T_REG1 \<and> peekType pkt \<noteq> T_REG2 \<longrightarrow>
      onIngress now now' rnd src pkt s = Some (SRTLA_DROP, s)) \<and>
   (onIngress now now' rnd src pkt s = Some (SRTLA_PASS, s') \<longrightarrow>
      findLink src s \<noteq> None \<and> peekType pkt < 0x9000 \<and> m_Length pkt \<le> 65535)"
proof (intro conjI impI)
  assume "findLink src s = None \<and> peekType pkt \<noteq> T_REG1 \<and> peekType pkt \<noteq> T_REG2"
  then show "onIngress now now' rnd src pkt s = Some (SRTLA_DROP, s)" by (simp add: onIngress_def Let_def)
next
  assume p: "onIngress now now' rnd src pkt s = Some (SRTLA_PASS, s')"
  have n: "peekType pkt \<noteq> T_REG1 \<and> peekType pkt \<noteq> T_REG2"
    using p by (auto simp: onIngress_def Let_def split: if_splits option.splits Option.bind_splits)
  then obtain gp lp where f: "findLink src s = Some (gp, lp)"
    using p by (cases "findLink src s") (auto simp: onIngress_def Let_def)
  with p n obtain g l where lp: "link_packet now src pkt g l s = Some (SRTLA_PASS, s')"
    by (auto simp: onIngress_def Let_def split: Option.bind_splits)
  show "findLink src s \<noteq> None" using f by simp
  show "peekType pkt < 0x9000" "m_Length pkt \<le> 65535"
    using lp by (auto simp: link_packet_def Let_def not_le split: if_splits Option.bind_splits)
qed

section \<open>First-seen tracking\<close>

text \<open>The group has seen the unwrapped numbers \<open>S\<close>, the highest being \<open>M\<close>; the bitmap is exact on
  the last 65536 numbers.\<close>

definition tracks :: "int \<Rightarrow> int set \<Rightarrow> Group \<Rightarrow> bool" where
  "tracks M S g \<longleftrightarrow> sn_valid g \<and> sn_max g = sq M \<and> M \<in> S \<and> S \<subseteq> {..M} \<and>
     (\<forall>X. M - SN_WINDOW_SIZE < X \<and> X \<le> M \<longrightarrow> sn_window g (X mod SN_WINDOW_SIZE) = (X \<in> S))"

lemma sq_mod_window: "sq X mod SN_WINDOW_SIZE = X mod SN_WINDOW_SIZE"
  unfolding sq_def by (rule mod_mod_cancel) simp

lemma sq_add_mod_window: "(sq X + k) mod SN_WINDOW_SIZE = (X + k) mod SN_WINDOW_SIZE"
  by (metis mod_add_left_eq sq_mod_window)

lemma window_eq: "\<bar>X - Y\<bar> < SN_WINDOW_SIZE \<Longrightarrow> X mod SN_WINDOW_SIZE = Y mod SN_WINDOW_SIZE \<longleftrightarrow> X = Y"
  using mod_eq_near [of X SN_WINDOW_SIZE Y] by auto

lemma sq_diff_mod: "(sq X - sq Y) mod 2147483648 = (X - Y) mod 2147483648"
  using mod_diff_eq [of X "2 ^ 31" Y] by (simp add: sq_def)

lemma clear_slots: "foldl (\<lambda>w k. set_sn (a + k) False w) w ks p =
    (w p \<and> (\<forall>k\<in>set ks. p \<noteq> (a + k) mod SN_WINDOW_SIZE))"
  by (induction ks arbitrary: w) (auto simp: set_sn_def)

lemma trackSn_first: "\<not> sn_valid g \<Longrightarrow> fst (trackSn g (sq X)) \<and> tracks X {X} (snd (trackSn g (sq X)))"
  by (auto simp: trackSn_def tracks_def set_sn_def sq_mod_window window_eq)

lemma trackSn_ahead:
  assumes t: "tracks M S g" and X: "M < X" "X - M < 2 ^ 30"
  shows "fst (trackSn g (sq X)) \<and> tracks X (insert X S) (snd (trackSn g (sq X)))"
proof -
  have d: "(sq X - sn_max g) mod 2 ^ 31 = X - M"
    using t X by (simp add: tracks_def sq_diff_mod)
  define win where "win = (if X - M \<ge> SN_WINDOW_SIZE then (\<lambda>_. False)
                   else foldl (\<lambda>w k. set_sn (sn_max g + k) False w) (sn_window g) [1..X - M])"
  have e: "trackSn g (sq X) = (True, g\<lparr>sn_max := sq X, sn_window := set_sn (sq X) True win\<rparr>)"
    using t X d by (simp add: trackSn_def tracks_def win_def Let_def)
  have w: "win (Y mod SN_WINDOW_SIZE) = (Y \<in> S)" if Y: "X - SN_WINDOW_SIZE < Y" "Y < X" for Y
  proof (cases "X - M \<ge> SN_WINDOW_SIZE")
    case True
    then show ?thesis using t Y by (auto simp: win_def tracks_def)
  next
    case False
    have c: "win p = (sn_window g p \<and> (\<forall>k\<in>{1..X - M}. p \<noteq> (M + k) mod SN_WINDOW_SIZE))" for p
      using False t by (simp add: win_def clear_slots tracks_def sq_add_mod_window)
    show ?thesis
    proof (cases "Y \<le> M")
      case True
      have "Y mod SN_WINDOW_SIZE \<noteq> (M + k) mod SN_WINDOW_SIZE" if "k \<in> {1..X - M}" for k
        using window_eq [of Y "M + k"] that True Y by auto
      then show ?thesis using c True Y X t by (auto simp: tracks_def)
    next
      case False
      then have "\<not> win (Y mod SN_WINDOW_SIZE)" using c Y by (auto intro!: bexI [of _ "Y - M"])
      moreover have "Y \<notin> S" using False t by (auto simp: tracks_def)
      ultimately show ?thesis by simp
    qed
  qed
  have "sn_window (snd (trackSn g (sq X))) (Y mod SN_WINDOW_SIZE) = (Y \<in> insert X S)"
    if Y: "X - SN_WINDOW_SIZE < Y" "Y \<le> X" for Y
    using w [of Y] window_eq [of Y X] Y unfolding e by (auto simp: set_sn_def sq_mod_window)
  then show ?thesis using t X unfolding e by (auto simp: tracks_def)
qed

lemma trackSn_behind:
  assumes t: "tracks M S g" and X: "X \<le> M" "M - X < 2 ^ 30"
  shows "M - SN_WINDOW_SIZE < X \<Longrightarrow> fst (trackSn g (sq X)) = (X \<notin> S) \<and> tracks M (insert X S) (snd (trackSn g (sq X)))"
    and "X \<le> M - SN_WINDOW_SIZE \<Longrightarrow> trackSn g (sq X) = (False, g)"
proof -
  have b: "(sn_max g - sq X) mod 2 ^ 31 = M - X" using t X by (simp add: tracks_def sq_diff_mod)
  have d: "(sq X - sn_max g) mod 2 ^ 31 = (if X = M then 0 else X - M + 2 ^ 31)"
  proof -
    have "(sq X - sn_max g) mod 2 ^ 31 = (X - M) mod 2 ^ 31" using t by (simp add: tracks_def sq_diff_mod)
    also have "\<dots> = (if X = M then 0 else X - M + 2 ^ 31)"
      using mod_pos_pos_trivial [of "X - M + 2147483648" 2147483648] X by auto
    finally show ?thesis .
  qed
  have e: "trackSn g (sq X) = (if X = M \<or> M - X \<ge> SN_WINDOW_SIZE \<or> sn_window g (X mod SN_WINDOW_SIZE) then (False, g)
      else (True, g\<lparr>sn_window := set_sn (sq X) True (sn_window g)\<rparr>))"
    using t X b d by (auto simp: trackSn_def tracks_def Let_def sq_mod_window)
  show "trackSn g (sq X) = (False, g)" if "X \<le> M - SN_WINDOW_SIZE" using e that by simp
  assume r: "M - SN_WINDOW_SIZE < X"
  then have s: "sn_window g (X mod SN_WINDOW_SIZE) = (X \<in> S)" using t X by (auto simp: tracks_def)
  show "fst (trackSn g (sq X)) = (X \<notin> S) \<and> tracks M (insert X S) (snd (trackSn g (sq X)))"
  proof (cases "X \<in> S")
    case True
    then show ?thesis using e s t by (simp add: insert_absorb)
  next
    case False
    then have "X \<noteq> M" using t by (auto simp: tracks_def)
    with False e r s have e': "trackSn g (sq X) = (True, g\<lparr>sn_window := set_sn (sq X) True (sn_window g)\<rparr>)" by simp
    have "sn_window (snd (trackSn g (sq X))) (Y mod SN_WINDOW_SIZE) = (Y \<in> insert X S)"
      if Y: "M - SN_WINDOW_SIZE < Y" "Y \<le> M" for Y
      using window_eq [of Y X] Y r X t unfolding e' by (auto simp: set_sn_def sq_mod_window tracks_def)
    then show ?thesis using t X False unfolding e' by (auto simp: tracks_def)
  qed
qed



theorem srtla_admission_witness:
  "onIngress 0 0 (\<lambda>i. 7) (AF_INET [10, 0, 0, 1] [1, 2]) (sample_wire 1) SrtlaRec_new = Some (SRTLA_DROP, SrtlaRec_new)"
proof -
  have "findLink (AF_INET [10, 0, 0, 1] [1, 2]) SrtlaRec_new = None" by (simp add: findLink_def SrtlaRec_new_def)
  moreover have "peekType (sample_wire 1) = 0" by (simp add: peekType_def sample_wire_def)
  ultimately show ?thesis using srtla_admission [of "AF_INET [10, 0, 0, 1] [1, 2]" SrtlaRec_new "sample_wire 1"] by simp
qed

section \<open>The wire form\<close>

lemma load32_take: "4 \<le> length bs \<Longrightarrow> load32 (take 4 bs) = load32 bs"
  by (simp add: load32_def)

lemma store_load: "4 \<le> length bs \<Longrightarrow> store_be32 (load32 bs) = rev (take 4 bs)"
  using store_be32_load32 [of "take 4 bs"] by (simp add: load32_take min_def)

lemma store_swap: "4 \<le> length bs \<Longrightarrow> store_be32 (swap32 (load32 bs)) = take 4 bs"
proof -
  assume "4 \<le> length bs"
  have "store_be32 (swap32 v) = rev (store_be32 v)" for v by (simp add: swap32_def)
  then show ?thesis using \<open>4 \<le> length bs\<close> by (simp add: store_load)
qed

lemma swap_words_concat:
  "4 * n \<le> length bs \<Longrightarrow>
   concat (map (\<lambda>w. store_be32 (load32 (drop (4 * w) bs))) [0..<n]) @ drop (4 * n) bs = swap_words n bs"
proof (induction n bs rule: swap_words.induct)
  case (2 n bs)
  have u: "[0..<Suc n] = 0 # map Suc [0..<n]" by (simp add: upt_conv_Cons map_Suc_upt del: upt_Suc)
  have "concat (map (\<lambda>w. store_be32 (load32 (drop (4 * w) bs))) [0..<Suc n]) =
      rev (take 4 bs) @ concat (map (\<lambda>w. store_be32 (load32 (drop (4 * w) (drop 4 bs)))) [0..<n])"
    unfolding u using 2(2) by (simp add: store_load comp_def add.commute del: upt_Suc)
  with 2 show ?case by (simp add: add.commute del: upt_Suc)
qed simp

lemma upt_nth: "n \<le> length bs \<Longrightarrow> map (\<lambda>b. bs ! b) [n..<length bs] = drop n bs"
  by (rule nth_equalityI) auto

text \<open>C31: the datagram the receiver reconstructs from a received packet is byte for byte the one
  that arrived on the socket, so group identifiers and echoed keepalives are exact.\<close>

theorem rebuildWire_exact:
  assumes "chan_recv d = Some (RST_OK p)" and "length d \<le> cap"
  shows "rebuildWire p cap = Some d"
proof -
  have l: "16 \<le> length d" using assms(1) by (auto simp: chan_recv_def split: if_splits)
  define hd where "hd = (\<lambda>f. swap32 (load32 (drop (case f of SRT_PH_SEQNO \<Rightarrow> 0 | SRT_PH_MSGNO \<Rightarrow> 4
            | SRT_PH_TIMESTAMP \<Rightarrow> 8 | SRT_PH_ID \<Rightarrow> 12) d)))"
  define q where "q = \<lparr>m_nHeader = hd, m_pcData = drop 16 d, m_Length = length d - 16\<rparr>"
  define n where "n = (length d - 16) div 4"
  have n: "4 * n \<le> length (drop 16 d)" by (simp add: n_def)
  have p: "p = (if isControl q then q\<lparr>m_pcData := swap_words n (drop 16 d)\<rparr> else q)"
    using assms(1) l n by (auto simp: chan_recv_def toHostByteOrder_def swap_header_def swap_payload_def q_def hd_def n_def
        Let_def split: if_splits)
  have c: "isControl p = isControl q" by (simp add: p isControl_def)
  have len: "m_Length p = length d - 16" "length (m_pcData p) = length d - 16" "m_nHeader p = hd"
    by (auto simp: p q_def)
  have H: "concat (map (\<lambda>f. store_be32 (m_nHeader p f)) header_fields) = take 16 d"
  proof -
    have "take 16 d = take 4 d @ take 4 (drop 4 d) @ take 4 (drop 8 d) @ take 4 (drop 12 d)"
      using take_add [of 4 12 d] take_add [of 4 8 "drop 4 d"] take_add [of 4 4 "drop 8 d"] by simp
    then show ?thesis using l by (simp add: len header_fields_def hd_def store_swap)
  qed
  have P: "(if isControl p then
           (concat (map (\<lambda>w. store_be32 (load32 (drop (4 * w) (m_pcData p)))) [0..<n]) @
            map (\<lambda>b. m_pcData p ! b) [n * 4..<length d - 16])
         else take (length d - 16) (m_pcData p)) = drop 16 d"
  proof (cases "isControl p")
    case True
    then have m: "m_pcData p = swap_words n (drop 16 d)" using c by (simp add: p)
    have "map (\<lambda>b. m_pcData p ! b) [n * 4..<length d - 16] = drop (4 * n) (m_pcData p)"
      using upt_nth [of "4 * n" "m_pcData p"] len(2) n by (simp add: mult.commute)
    then show ?thesis
      using True swap_words_concat [of n "m_pcData p"] swap_words_inverse [OF n] n len(2) m by simp
  next
    case False
    then show ?thesis using c by (simp add: p q_def)
  qed
  have "rebuildWire p cap = Some (take 16 d @ drop 16 d)"
    unfolding rebuildWire_def Let_def len(1,2) H n_def [symmetric] P using assms(2) l by auto
  then show ?thesis by simp
qed

theorem rebuildWire_exact_witness:
  "\<exists>p. chan_recv (replicate 21 0x92) = Some (RST_OK p) \<and> rebuildWire p 1500 = Some (replicate 21 0x92)"
proof -
  define p where "p = (case chan_recv (replicate 21 0x92) of Some (RST_OK p) \<Rightarrow> p)"
  have "chan_recv (replicate 21 0x92) = Some (RST_OK p)"
    by (simp add: p_def chan_recv_def toHostByteOrder_def swap_payload_def swap_header_def Let_def)
  with rebuildWire_exact [OF this, of 1500] show ?thesis by auto
qed

section \<open>Feedback\<close>

lemma sends_log: "m_Sent (foldl (sendto pkt src) s as) = m_Sent s @ map (\<lambda>a. Pkt a pkt src) as"
  by (induction as arbitrary: s) (auto simp: sendto_def)

lemma inv_addrs_distinct:
  assumes "srtla_inv s" and "g \<in> set (m_Groups s)"
  shows "distinct (map addr (links g))"
proof -
  have "distinct (links g)" using inv_groupD [OF assms] by (auto simp: group_ok_def distinct_map)
  then show ?thesis using inv_addr_inj [OF assms] by (auto simp: distinct_map intro!: inj_onI)
qed

lemma find_filter: "find P xs = (case filter P xs of [] \<Rightarrow> None | x # _ \<Rightarrow> Some x)"
  by (induction xs) auto

lemma filter_single:
  assumes "distinct xs"
  shows "filter (\<lambda>x. b \<and> x = y) xs = (if b \<and> y \<in> set xs then [y] else [])"
  using assms by (induction xs) auto

lemma nak_targets_spec:
  assumes d: "distinct (map addr (links g))"
  shows "distinct (nak_targets g) \<and> set (nak_targets g) \<subseteq> addr ` set (links g) \<and>
    length (nak_targets g) = min NAK_FANOUT (length (links g)) \<and>
    (has_last_addr g \<and> last_addr g \<in> addr ` set (links g) \<longrightarrow> hd (nak_targets g) = last_addr g)"
proof -
  define as b where "as = map addr (links g)" and "b \<longleftrightarrow> has_last_addr g \<and> last_addr g \<in> addr ` set (links g)"
  define r where "r = filter (\<lambda>a. \<not> (has_last_addr g \<and> a = last_addr g)) as"
  have f: "filter (\<lambda>a. has_last_addr g \<and> a = last_addr g) as = (if b then [last_addr g] else [])"
    using filter_single [OF d] by (simp add: as_def b_def)
  have n: "nak_targets g = (if b then last_addr g # take (Suc 0) r else take 2 r)"
    unfolding nak_targets_def Let_def find_filter as_def [symmetric] f r_def by simp
  have "length as = length (filter (\<lambda>a. has_last_addr g \<and> a = last_addr g) as) + length r"
    unfolding r_def by (rule sum_length_filter_compl [symmetric])
  then have len: "length (links g) = (if b then 1 else 0) + length r" unfolding f by (simp add: as_def)
  have dr: "distinct r" "set r \<subseteq> addr ` set (links g)" "b \<Longrightarrow> last_addr g \<notin> set r"
    using d by (auto simp: r_def as_def b_def)
  show ?thesis
  proof (cases b)
    case True
    then show ?thesis unfolding b_def [symmetric] using n len dr by (cases r) (auto simp: b_def)
  next
    case False
    then have "nak_targets g = take 2 r" "length (links g) = length r" using n len by auto
    then show ?thesis unfolding b_def [symmetric] using dr False set_take_subset [of 2 r] by auto
  qed
qed


section \<open>Acknowledgement batches\<close>

primrec log_acks :: "sockaddr_any \<Rightarrow> (int \<times> u32) list \<Rightarrow> Link \<Rightarrow> SrtlaRec \<Rightarrow> (Link \<times> SrtlaRec) option" where
  "log_acks src [] l s = Some (l, s)"
| "log_acks src (x # xs) l s = do { (l, s) \<leftarrow> log_ack (fst x) src (snd x) l s; log_acks src xs l s }"



section \<open>Registration\<close>

lemma fold_or_zero: "foldl (\<lambda>d i. d OR f i) d0 xs = (0 :: byte) \<longleftrightarrow> d0 = 0 \<and> (\<forall>i\<in>set xs. f i = 0)"
  by (induction xs arbitrary: d0) (auto simp: or_eq_0_iff)

lemma xor_zero: "a XOR b = (0 :: byte) \<longleftrightarrow> a = b"
  by (metis xor.right_neutral xor.assoc xor_self_eq)

lemma ctEqual_iff: "length a = n \<Longrightarrow> length b = n \<Longrightarrow> ctEqual a b n \<longleftrightarrow> a = b"
  by (simp add: ctEqual_def fold_or_zero list_eq_iff_nth_eq xor_zero Ball_def)


lemma findGroupById_last: "m_Groups s = gs @ [g] \<Longrightarrow> ctEqual (group_id g) i SRTLA_ID_LEN \<Longrightarrow>
    findGroupById i s = Some (gptr g)"
  by (simp add: findGroupById_def)

text \<open>C21: the registration handshake works: an unregistered source that opens a group is answered
  with an identifier whose first half is its own; any unregistered source that then presents
  that identifier is answered with a confirmation and is from then on a link of that group.\<close>

theorem srtla_handshake:
  assumes inv: "srtla_inv s" and a: "findLink a s = None" "findGhostCreator a s = None"
    and room: "length (m_Groups s) < MAX_GROUPS" and w: "length wire = REG_LEN" and b: "findLink b s = None"
  shows "\<exists>s1 i. handleReg1 now rnd a wire s = Some s1 \<and> m_Sent s1 = m_Sent s @ [Raw a ([0x92, 0x01] @ i)] \<and>
    length i = SRTLA_ID_LEN \<and> take SRTLA_ID_HALF i = take SRTLA_ID_HALF (drop 2 wire) \<and>
    (\<exists>s2 lp. handleReg2 now2 b ([0x92, 0x01] @ i) s1 = Some s2 \<and> findLink b s2 = Some (m_NextPtr s, lp) \<and>
      m_Sent s2 = m_Sent s1 @ [Raw b ([0x92, 0x02] @ replicate 30 0)])"
proof -
  define i where "i = take SRTLA_ID_HALF (drop 2 wire) @ fillRandom rnd SRTLA_ID_HALF"
  define g where "g = (Group_new (m_NextPtr s))\<lparr>group_id := i, created_at := now, last_addr := a, has_last_addr := True\<rparr>"
  define s1 where "s1 = create_group now rnd a wire s"
  have i: "length i = SRTLA_ID_LEN" "take SRTLA_ID_HALF i = take SRTLA_ID_HALF (drop 2 wire)"
    using w by (auto simp: i_def)
  have h1: "handleReg1 now rnd a wire s = Some s1" using a room by (simp add: handleReg1_def s1_def)
  have s1: "m_Groups s1 = m_Groups s @ [g]" "m_LinkMap s1 = m_LinkMap s" "m_Sent s1 = m_Sent s @ [Raw a ([0x92, 0x01] @ i)]"
    using i(1) by (simp_all add: s1_def create_group_def g_def i_def sendReg2_def store_be16_def Let_def)
  have inv1: "srtla_inv s1" unfolding s1_def by (rule create_group_ok [OF inv room w])
  have g: "group_id g = i" "gptr g = m_NextPtr s" "links g = []" by (auto simp: g_def Group_new_def)
  have f: "findGroupById i s1 = Some (m_NextPtr s)"
    using findGroupById_last [OF s1(1), of i] g i(1) by (simp add: ctEqual_iff)
  have gg: "get_group (m_NextPtr s) s1 = Some g" using get_group_in [OF inv1, of g] g(2) s1(1) by simp
  have "findLink b s1 = None" using b s1(2) by (simp add: findLink_def)
  then have h2: "handleReg2 now2 b ([0x92, 0x01] @ i) s1 = Some (join_link now2 b g s1)"
    using f gg g(3) by (simp add: handleReg2_def)
  show ?thesis
    using h1 h2 s1(3) i g(2)
    by (intro exI [of _ s1] exI [of _ i]) (simp add: join_link_def send_defs store_be16_def findLink_def Let_def)
qed



theorem srtla_handshake_witness:
  "\<exists>s1 i. handleReg1 5 (\<lambda>k. 7) (AF_INET [10, 0, 0, 1] [1, 2]) (replicate 258 0) SrtlaRec_new = Some s1 \<and> length i = 256 \<and>
    (\<exists>s2 lp. handleReg2 6 (AF_INET [10, 0, 0, 2] [1, 2]) ([0x92, 0x01] @ i) s1 = Some s2 \<and>
       findLink (AF_INET [10, 0, 0, 2] [1, 2]) s2 = Some (0, lp))"
proof -
  have "findLink x SrtlaRec_new = None" "findGhostCreator x SrtlaRec_new = None" "m_NextPtr SrtlaRec_new = 0"
    "length (m_Groups SrtlaRec_new) < MAX_GROUPS" for x
    by (simp_all add: findLink_def findGhostCreator_def SrtlaRec_new_def)
  with srtla_handshake [OF srtla_inv_new, of "AF_INET [10, 0, 0, 1] [1, 2]" "replicate 258 0"
      "AF_INET [10, 0, 0, 2] [1, 2]" 5 "\<lambda>k. 7" 6]
  show ?thesis by (metis length_replicate)
qed

text \<open>A registry with one group of two links, the first of them bound.\<close>

definition demo_links :: "Link list" where
  "demo_links = [(Link_new 1)\<lparr>addr := AF_INET [10, 0, 0, 1] [1, 2]\<rparr>, (Link_new 2)\<lparr>addr := AF_INET [10, 0, 0, 2] [1, 2]\<rparr>]"

definition demo_group :: Group where
  "demo_group = (Group_new 0)\<lparr>links := demo_links, last_addr := AF_INET [10, 0, 0, 2] [1, 2], has_last_addr := True\<rparr>"

definition demo :: SrtlaRec where
  "demo = SrtlaRec_new\<lparr>m_Groups := [demo_group], m_NextPtr := 3,
     m_LinkMap := [AF_INET [10, 0, 0, 1] [1, 2] \<mapsto> (0, 1), AF_INET [10, 0, 0, 2] [1, 2] \<mapsto> (0, 2)],
     m_EgressMap := [AF_INET [10, 0, 0, 1] [1, 2] \<mapsto> 0]\<rparr>"

lemmas demo_defs = demo_def demo_group_def demo_links_def SrtlaRec_new_def Group_new_def Link_new_def

lemma demo_inv: "srtla_inv demo"
  by (auto simp: srtla_inv_def demo_defs group_ok_def link_ok_def index_def link_keys_def seq_ok_def
      m_iMaxSeqNo_def split: if_splits)



section \<open>Timeouts\<close>



section \<open>The reorder hold\<close>

lemma max_element_ge: "x \<in> set xs \<Longrightarrow> x \<le> max_element xs"
  by (induction xs rule: max_element.induct) auto

lemma min_element_le: "x \<in> set xs \<Longrightarrow> min_element xs \<le> x"
  by (induction xs rule: min_element.induct) auto

lemma max_element_in: "xs \<noteq> [] \<Longrightarrow> max_element xs \<in> set xs"
  by (induction xs rule: max_element.induct) (auto simp: max_def)




section \<open>The address order\<close>

fun addr_wf :: "sockaddr_any \<Rightarrow> bool" where
  "addr_wf AF_UNSPEC = True"
| "addr_wf (AF_INET a p) = (length a = 4 \<and> length p = 2)"
| "addr_wf (AF_INET6 a p) = (length a = 16 \<and> length p = 2)"

lemma load32_inject: "length a = 4 \<Longrightarrow> length b = 4 \<Longrightarrow> load32 a = load32 b \<longleftrightarrow> a = b"
  by (metis rev_rev_ident store_be32_load32)

lemma load16_inject:
  assumes "length a = 2" and "length b = 2"
  shows "load16 a = load16 b \<longleftrightarrow> a = b"
proof -
  have bytes: "c = [ucast (load16 c), ucast (drop_bit 8 (load16 c))]" if len: "length c = 2" for c
  proof -
    obtain x y where c: "c = [x, y]" using len by (cases c; cases "tl c") auto
    have "ucast (load16 c) = x" unfolding c
      by (rule bit_word_eqI) (auto simp: load16_def bit_simps)
    moreover have "ucast (drop_bit 8 (load16 c)) = y" unfolding c
      by (rule bit_word_eqI) (auto simp: load16_def bit_simps)
    ultimately show ?thesis using c by simp
  qed
  show ?thesis using bytes [OF assms(1)] bytes [OF assms(2)] by metis
qed

lemma memcmp_irrefl: "\<not> memcmp_less a a"
  by (induction a) auto

lemma memcmp_total: "length a = length b \<Longrightarrow> a \<noteq> b \<Longrightarrow> memcmp_less a b \<or> memcmp_less b a"
  by (induction a b rule: list_induct2) auto

lemma memcmp_trans: "memcmp_less a b \<Longrightarrow> memcmp_less b c \<Longrightarrow> memcmp_less a c"
proof (induction a b arbitrary: c rule: memcmp_less.induct)
  case (1 a as b bs)
  then show ?case by (cases c) auto
qed auto

lemma memcmp_asym: "memcmp_less a b \<Longrightarrow> \<not> memcmp_less b a"
  using memcmp_trans memcmp_irrefl by blast

lemma AddrLess_inet: "AddrLess (AF_INET a p) (AF_INET b q) \<longleftrightarrow>
    load32 a < load32 b \<or> load32 a = load32 b \<and> load16 p < load16 q"
  by auto

lemma AddrLess_inet6: "length a = length b \<Longrightarrow> AddrLess (AF_INET6 a p) (AF_INET6 b q) \<longleftrightarrow>
    memcmp_less a b \<or> a = b \<and> load16 p < load16 q"
  using memcmp_total [of a b] memcmp_irrefl [of a] memcmp_asym [of a b] by (cases "a = b") auto

lemma AddrLess_total:
  assumes "addr_wf a" "addr_wf b" and "\<not> AddrLess a b" and "\<not> AddrLess b a"
  shows "a = b"
proof -
  have "family a = family b" using assms(3,4) by (cases a; cases b) auto
  then consider x p y q where "a = AF_INET x p" "b = AF_INET y q"
    | x p y q where "a = AF_INET6 x p" "b = AF_INET6 y q" | "a = AF_UNSPEC" "b = AF_UNSPEC"
    by (cases a; cases b) auto
  then show ?thesis
  proof cases
    case 1
    have "load32 x = load32 y" using assms(3,4) unfolding 1 AddrLess_inet by (meson linorder_neqE)
    moreover have "load16 p = load16 q" using assms(3,4) calculation unfolding 1 AddrLess_inet by (meson linorder_neqE)
    ultimately show ?thesis using assms(1,2) unfolding 1 by (simp add: load32_inject load16_inject)
  next
    case 2
    have l: "length x = length y" "length y = length x" using assms 2 by auto
    have "x = y" using memcmp_total [OF l(1)] assms(3,4)
      unfolding 2 AddrLess_inet6 [OF l(1)] AddrLess_inet6 [OF l(2)] by blast
    moreover have "load16 p = load16 q" using assms(3,4) calculation
      unfolding 2 AddrLess_inet6 [OF l(1)] AddrLess_inet6 [OF l(2)] by (meson linorder_neqE)
    ultimately show ?thesis using assms(1,2) unfolding 2 by (simp add: load16_inject)
  qed simp
qed

lemma AddrLess_trans:
  assumes "addr_wf a" "addr_wf b" "addr_wf c" and "AddrLess a b" and "AddrLess b c"
  shows "AddrLess a c"
proof -
  have fam: "AddrLess x y \<Longrightarrow> family x \<le> family y" for x y by (cases x; cases y) auto
  have diff: "AddrLess x y" if "family x < family y" for x y using that by (cases x; cases y) auto
  consider "family a < family c" | "family a = family b" "family b = family c"
    using fam [OF assms(4)] fam [OF assms(5)] by linarith
  then show ?thesis
  proof cases
    case 2
    then consider x p y q z r where "a = AF_INET x p" "b = AF_INET y q" "c = AF_INET z r"
      | x p y q z r where "a = AF_INET6 x p" "b = AF_INET6 y q" "c = AF_INET6 z r" | "a = AF_UNSPEC" "b = AF_UNSPEC"
      by (cases a; cases b; cases c) auto
    then show ?thesis
    proof cases
      case 1
      with assms(4,5) show ?thesis unfolding AddrLess_inet 1 by auto
    next
      case c: 2
      have l: "length x = length y" "length y = length z" "length x = length z" using assms c by auto
      from assms(4,5) show ?thesis unfolding c AddrLess_inet6 [OF l(1)] AddrLess_inet6 [OF l(2)] AddrLess_inet6 [OF l(3)]
        using memcmp_trans [of x y z] by auto
    qed (use assms in auto)
  qed (rule diff)
qed

text \<open>The comparator of the address maps is a strict linear order on addresses, and two addresses
  are equivalent under it exactly when they are equal, so the maps behave as maps keyed by
  family, address and port.\<close>

theorem AddrLess_strict_order:
  assumes "addr_wf a" and "addr_wf b" and "addr_wf c"
  shows "\<not> AddrLess a a \<and> (AddrLess a b \<and> AddrLess b c \<longrightarrow> AddrLess a c) \<and>
    (\<not> AddrLess a b \<and> \<not> AddrLess b a \<longleftrightarrow> a = b)"
proof (intro conjI impI)
  show "\<not> AddrLess a a" by (cases a) (auto simp: memcmp_irrefl)
  show "AddrLess a c" if "AddrLess a b \<and> AddrLess b c" using AddrLess_trans [OF assms] that by blast
  have "\<not> AddrLess b b" by (cases b) (auto simp: memcmp_irrefl)
  then show "\<not> AddrLess a b \<and> \<not> AddrLess b a \<longleftrightarrow> a = b" using AddrLess_total [OF assms(1,2)] by blast
qed


theorem AddrLess_strict_order_witness:
  "AddrLess (AF_INET [10, 0, 0, 1] [1, 2]) (AF_INET6 (replicate 16 0) [1, 2]) \<and>
   \<not> AddrLess (AF_INET [10, 0, 0, 1] [1, 2]) (AF_INET [10, 0, 0, 1] [1, 2])"
  using AddrLess_strict_order [of "AF_INET [10, 0, 0, 1] [1, 2]" "AF_INET6 (replicate 16 0) [1, 2]" AF_UNSPEC] by simp

section \<open>Statistics\<close>

definition data_at :: "u32 \<Rightarrow> u32 \<Rightarrow> CPacket" where
  "data_at sn ts = \<lparr>m_nHeader = (\<lambda>f. case f of SRT_PH_SEQNO \<Rightarrow> sn | SRT_PH_TIMESTAMP \<Rightarrow> ts | _ \<Rightarrow> 0),
     m_pcData = [], m_Length = 0\<rparr>"

lemma data_at_sel [simp]: "m_nHeader (data_at sn ts) SRT_PH_SEQNO = sn" "m_nHeader (data_at sn ts) SRT_PH_TIMESTAMP = ts"
  "m_nHeader (data_at sn ts) SRT_PH_MSGNO = 0"
  by (simp_all add: data_at_def)

text \<open>Reading the statistics can be undefined: the sender's timestamps move the smoothed transit by
  any signed 32-bit amount per packet, and three data packets with timestamps half the range
  apart take it outside the 32-bit integer it is converted to.\<close>

theorem srtla_stats_conversion_undefined: "(do {
     (g, l, s) \<leftarrow> data_packet 1000000 AF_UNSPEC (data_at 1 0) 16 (Group_new 0) (Link_new 1) SrtlaRec_new;
     (g, l, s) \<leftarrow> data_packet 2000000 AF_UNSPEC (data_at 2 0x7FFFFFFF) 16 g l s;
     (g, l, s) \<leftarrow> data_packet 3000000 AF_UNSPEC (data_at 3 0xFFFFFFFE) 16 g l s;
     Some (fill_peer 3000000 l) }) = Some None"
  by (simp add: data_packet_def trackSn_def unwrap_ts_def note_transit_def log_ack_def sendSrtlaAck_def
     Group_new_def Link_new_def SrtlaRec_new_def EWMA_INV_TAU_def emit_def fill_peer_def to_i32_def Let_def)

end
