(* ===== verification/FreshLoss.thy ===== *)
theory FreshLoss
  imports SeqNo Intervals
begin

text \<open>
  The receiver's fresh losses, \<^verbatim>\<open>CRcvFreshLoss\<close>, and the loss report plan of the SRTLA mode,
  \<^verbatim>\<open>srtlaPlanNak\<close>, both of \<^verbatim>\<open>srtcore/list.cpp\<close>.  A deque of records is a
  list; times are integers in microseconds, 0 being the zero time point.
\<close>

section \<open>Records\<close>

record CRcvFreshLoss =
  seq0 :: seqno
  seq1 :: seqno
  ttl :: int
  timestamp :: int
  report_time :: int

definition CRcvFreshLoss_new :: "int \<Rightarrow> seqno \<Rightarrow> seqno \<Rightarrow> int \<Rightarrow> CRcvFreshLoss" where
  "CRcvFreshLoss_new now seqlo seqhi initial_age =
     \<lparr>seq0 = seqlo, seq1 = seqhi, ttl = initial_age, timestamp = now, report_time = 0\<rparr>"

datatype Emod = NONE | STRIPPED | SPLIT | DELETE

definition revoke :: "seqno \<Rightarrow> CRcvFreshLoss \<Rightarrow> Emod \<times> CRcvFreshLoss" where
  "revoke sequence r =
     (let diffbegin = seqcmp sequence (seq0 r); diffend = seqcmp sequence (seq1 r) in
      if diffbegin < 0 \<or> diffend > 0 then (NONE, r)
      else if diffbegin = 0 then
        (if diffend = 0 then (DELETE, r) else (STRIPPED, r\<lparr>seq0 := incseq (seq0 r)\<rparr>))
      else if diffend = 0 then (STRIPPED, r\<lparr>seq1 := decseq (seq1 r)\<rparr>)
      else (SPLIT, r))"

definition revoke_range :: "seqno \<Rightarrow> seqno \<Rightarrow> CRcvFreshLoss \<Rightarrow> Emod \<times> CRcvFreshLoss" where
  "revoke_range lo hi r =
     (if lo \<noteq> SRT_SEQNO_NONE \<and> seqcmp lo (seq1 r) > 0 then (DELETE, r)
      else if seqcmp hi (seq0 r) < 0 then (NONE, r)
      else if seqcmp hi (seq1 r) < 0 then (STRIPPED, r\<lparr>seq0 := incseq hi\<rparr>)
      else (DELETE, r))"

text \<open>The result is the output arguments \<^verbatim>\<open>had_ttl\<close> and \<^verbatim>\<open>detect_time\<close> when
  the number was found, and the container.\<close>

fun removeOne :: "CRcvFreshLoss list \<Rightarrow> seqno \<Rightarrow> (int \<times> int) option \<times> CRcvFreshLoss list" where
  "removeOne [] sequence = (None, [])"
| "removeOne (r # rs) sequence =
     (let (wh, r') = revoke sequence r; found = Some (ttl r, timestamp r) in
      case wh of
        NONE \<Rightarrow> (let (f, rs') = removeOne rs sequence in (f, r' # rs'))
      | DELETE \<Rightarrow> (found, rs)
      | SPLIT \<Rightarrow>
          (let upper = r'\<lparr>seq0 := incseq sequence, seq1 := seq1 r'\<rparr>
           in (found, r'\<lparr>seq1 := decseq sequence\<rparr> # upper # rs))
      | STRIPPED \<Rightarrow> (found, r' # rs))"

section \<open>The loss report plan\<close>

record SrtlaNakParams =
  hold_us :: int
  spacing_us :: int
  budget_us :: int
  rtt_us :: int
  margin_us :: int
  cap :: nat

record SrtlaNakPlan =
  report :: "nat list"
  confirmed :: int
  retire :: nat

definition srtlaNakEligible :: "CRcvFreshLoss \<Rightarrow> int \<Rightarrow> SrtlaNakParams \<Rightarrow> bool \<Rightarrow> bool" where
  "srtlaNakEligible rec now params want_first =
     (let first_report = (report_time rec = 0) in
      if first_report \<noteq> want_first then False
      else if ttl rec > 0 then False
      else let age_us = now - timestamp rec in
      if age_us < hold_us params then False
      else let remaining_us = (if budget_us params > 0
          then budget_us params - age_us - rtt_us params - margin_us params else 1) in
      if remaining_us < 0 then False
      else let spacing = (if remaining_us > 0 \<and> c_div remaining_us 2 < spacing_us params
          then max (c_div remaining_us 2) 50000 else spacing_us params) in
      if \<not> first_report \<and> now - report_time rec < spacing then False
      else True)"

fun retire_prefix :: "CRcvFreshLoss list \<Rightarrow> int \<Rightarrow> int \<Rightarrow> nat" where
  "retire_prefix [] now budget = 0"
| "retire_prefix (r # rs) now budget =
     (if now - timestamp r > budget then Suc (retire_prefix rs now budget) else 0)"

definition nak_cost :: "CRcvFreshLoss \<Rightarrow> nat" where
  "nak_cost rec = (if seq0 rec = seq1 rec then 1 else 2)"

text \<open>One pass over the records with the given indices, from the words already used; the result is
  the indices taken, in that order, and the words used.\<close>

fun nak_pass :: "CRcvFreshLoss list \<Rightarrow> int \<Rightarrow> SrtlaNakParams \<Rightarrow> bool \<Rightarrow> nat list \<Rightarrow> nat \<Rightarrow> nat list \<times> nat" where
  "nak_pass fresh now params want_first [] used = ([], used)"
| "nak_pass fresh now params want_first (i # is) used =
     (let rec = fresh ! i in
      if \<not> srtlaNakEligible rec now params want_first then nak_pass fresh now params want_first is used
      else if used + nak_cost rec > cap params then ([], used)
      else let (js, u) = nak_pass fresh now params want_first is (used + nak_cost rec) in (i # js, u))"

definition srtlaPlanNak :: "CRcvFreshLoss list \<Rightarrow> int \<Rightarrow> SrtlaNakParams \<Rightarrow> SrtlaNakPlan" where
  "srtlaPlanNak fresh now params =
     (let ret = (if budget_us params > 0 then retire_prefix fresh now (budget_us params) else 0);
          is = [ret..<length fresh];
          (firsts, used) = nak_pass fresh now params True is 0;
          (repeats, used) = nak_pass fresh now params False is used
      in \<lparr>report = sort (firsts @ repeats),
          confirmed = (\<Sum>i\<leftarrow>firsts. seqoff (seq0 (fresh ! i)) (seq1 (fresh ! i)) + 1),
          retire = ret\<rparr>)"

section \<open>What the records hold\<close>

definition holds_ivl :: "CRcvFreshLoss \<Rightarrow> ivl \<Rightarrow> bool" where
  "holds_ivl r n \<longleftrightarrow> seq0 r = sq (fst n) \<and> seq1 r = sq (snd n) \<and> fst n \<le> snd n"

lemma holds_ivl_pair: "holds_ivl r (l, h) \<longleftrightarrow> seq0 r = sq l \<and> seq1 r = sq h \<and> l \<le> h"
  by (simp add: holds_ivl_def)

abbreviation hold_ivls :: "CRcvFreshLoss list \<Rightarrow> ivl list \<Rightarrow> bool" where
  "hold_ivls rs ns \<equiv> list_all2 holds_ivl rs ns"

definition near :: "int \<Rightarrow> ivl \<Rightarrow> bool" where
  "near X n \<longleftrightarrow> \<bar>X - fst n\<bar> < m_iSeqNoTH \<and> \<bar>X - snd n\<bar> < m_iSeqNoTH"

lemma revoke_cases:
  assumes "holds_ivl r (l, h)" and "near X (l, h)"
  shows "revoke (sq X) r =
    (if X < l \<or> h < X then (NONE, r) else if X = l \<and> X = h then (DELETE, r)
     else if X = l then (STRIPPED, r\<lparr>seq0 := sq (l + 1)\<rparr>)
     else if X = h then (STRIPPED, r\<lparr>seq1 := sq (h - 1)\<rparr>) else (SPLIT, r))"
  using assms by (auto simp: revoke_def holds_ivl_def near_def seq_simps Let_def)

lemma removeOne_spec:
  assumes "hold_ivls rs ns" and "\<forall>n\<in>set ns. near X n" and "disjoint_ivls ns"
  shows "hold_ivls (snd (removeOne rs (sq X))) (ivls_remove ns X) \<and> (fst (removeOne rs (sq X)) = None \<longleftrightarrow> X \<notin> elems ns)"
  using assms
proof (induction rs ns rule: list_all2_induct)
  case (Cons r rs n ns)
  obtain l h where n: "n = (l, h)" by (cases n)
  have r: "holds_ivl r (l, h)" "near X (l, h)" using Cons n by auto
  note rc = revoke_cases [OF r]
  note r' = r(1) [unfolded holds_ivl_pair]
  have nX: "X \<notin> elems ns" if "X \<le> h" using Cons.prems(2) n that by (force simp: elems_def)
  obtain f rs' where t: "removeOne rs (sq X) = (f, rs')" by (cases "removeOne rs (sq X)")
  have ih: "hold_ivls rs' (ivls_remove ns X)" "f = None \<longleftrightarrow> X \<notin> elems ns" using Cons t by auto
  let ?d = "Some (ttl r, timestamp r)"
  have e: "removeOne (r # rs) (sq X) = (if X < l \<or> h < X then (f, r # rs') else if X = l \<and> X = h then (?d, rs)
     else if X = l then (?d, r\<lparr>seq0 := sq (l + 1)\<rparr> # rs) else if X = h then (?d, r\<lparr>seq1 := sq (h - 1)\<rparr> # rs)
     else (?d, r\<lparr>seq1 := sq (X - 1)\<rparr> # r\<lparr>seq0 := sq (X + 1)\<rparr> # rs))"
    by (simp add: rc t Let_def)
  show ?case unfolding e n using r' ih nX Cons.hyps by (auto simp: holds_ivl_pair)
qed simp

text \<open>The history of every record, and the order by detection time, survive.\<close>

lemma revoke_history: "revoke x r = (wh, r') \<Longrightarrow> timestamp r' = timestamp r \<and> ttl r' = ttl r \<and> report_time r' = report_time r"
  by (auto simp: revoke_def Let_def split: if_splits)

lemma removeOne_timestamps:
  "set (map timestamp (snd (removeOne rs x))) \<subseteq> set (map timestamp rs) \<and>
   (sorted (map timestamp rs) \<longrightarrow> sorted (map timestamp (snd (removeOne rs x))))"
proof (induction rs x rule: removeOne.induct)
  case (2 r rs x)
  obtain wh r' where v: "revoke x r = (wh, r')" by (cases "revoke x r")
  obtain f rs' where t: "removeOne rs x = (f, rs')" by (cases "removeOne rs x")
  from 2 v t have "set (map timestamp rs') \<subseteq> set (map timestamp rs)"
      "sorted (map timestamp rs) \<longrightarrow> sorted (map timestamp rs')" if "wh = NONE"
    using that by auto
  then show ?case using v t revoke_history [OF v] by (cases wh) (auto simp: Let_def)
qed simp

section \<open>Properties\<close>

text \<open>C15: removing a recovered number from the fresh losses removes exactly that number: it is
  reported found exactly when a record covers it, the records then cover everything they covered
  but that number, each is a non-empty range, they stay disjoint and in order, and ordered by
  detection time.\<close>

theorem removeOne_exact:
  assumes "hold_ivls rs ns" and "list_all (near X) ns" and "disjoint_ivls ns" and "sorted (map timestamp rs)"
  shows "\<exists>ns'. hold_ivls (snd (removeOne rs (sq X))) ns' \<and> elems ns' = elems ns - {X} \<and> disjoint_ivls ns' \<and>
    (fst (removeOne rs (sq X)) \<noteq> None \<longleftrightarrow> X \<in> elems ns) \<and> sorted (map timestamp (snd (removeOne rs (sq X))))"
proof -
  have ok: "\<forall>n\<in>set ns. fst n \<le> snd n"
    using assms(1) by (induction rule: list_all2_induct) (auto simp: holds_ivl_def)
  have nr: "\<forall>n\<in>set ns. near X n" using assms(2) by (simp add: list_all_iff)
  show ?thesis
    using removeOne_spec [OF assms(1) nr assms(3)] ivls_remove_elems [OF assms(3) ok] ivls_remove_disjoint [OF assms(3) ok]
      removeOne_timestamps [of rs "sq X"] assms(4) by (intro exI [of _ "ivls_remove ns X"]) simp
qed

theorem removeOne_exact_witness:
  "\<exists>ns'. hold_ivls (snd (removeOne [CRcvFreshLoss_new 5 2147483646 3 1] 0)) ns' \<and>
    elems ns' = {2147483646, 2147483647, 2147483649, 2147483650, 2147483651}"
proof -
  have h: "hold_ivls [CRcvFreshLoss_new 5 2147483646 3 1] [(2147483646, 2147483651)]"
    by (simp add: holds_ivl_pair CRcvFreshLoss_new_def sq_def)
  have "elems [(2147483646, 2147483651)] - {2147483648} = {2147483646, 2147483647, 2147483649, 2147483650, 2147483651}"
    by auto
  with removeOne_exact [OF h, of 2147483648] show ?thesis by (auto simp: near_def m_iSeqNoTH_def sq_def)
qed

text \<open>Dropping everything up to a number from a record of fresh losses leaves exactly the later
  part: nothing to do when the record is later, a record that starts right after the number when it
  ends later, and deletion otherwise.\<close>

theorem revoke_range_drops_prefix:
  assumes "holds_ivl r (l, h)" and "near hi (l, h)" and "lo \<le> hi" and "near lo (l, h)"
  shows "revoke_range (sq lo) (sq hi) r =
    (if hi < l then (NONE, r) else if hi < h then (STRIPPED, r\<lparr>seq0 := sq (hi + 1)\<rparr>) else (DELETE, r))"
  using assms by (auto simp: revoke_range_def holds_ivl_pair near_def seq_simps)

theorem revoke_range_drops_prefix_witness:
  "revoke_range 4 6 (CRcvFreshLoss_new 5 2 9 1) = (STRIPPED, CRcvFreshLoss_new 5 7 9 1)"
  using revoke_range_drops_prefix [of "CRcvFreshLoss_new 5 2 9 1" 2 9 6 4]
  by (simp add: holds_ivl_pair near_def CRcvFreshLoss_new_def sq_def m_iSeqNoTH_def)


section \<open>The plan\<close>

lemma nak_pass_spec:
  assumes "nak_pass fresh now params w ms used = (js, u)"
  shows "set js \<subseteq> {i \<in> set ms. srtlaNakEligible (fresh ! i) now params w} \<and>
    u = used + (\<Sum>i\<leftarrow>js. nak_cost (fresh ! i)) \<and> (used \<le> cap params \<longrightarrow> u \<le> cap params) \<and>
    (distinct ms \<longrightarrow> distinct js)"
  using assms
proof (induction ms arbitrary: used js)
  case (Cons i ms)
  show ?case
  proof (cases "srtlaNakEligible (fresh ! i) now params w \<and> used + nak_cost (fresh ! i) \<le> cap params")
    case True
    obtain ks where t: "nak_pass fresh now params w ms (used + nak_cost (fresh ! i)) = (ks, u)" "js = i # ks"
      using Cons.prems True by (auto simp: Let_def split: prod.splits)
    from Cons.IH [OF t(1)] t(2) True show ?thesis by auto
  next
    case False
    show ?thesis
    proof (cases "srtlaNakEligible (fresh ! i) now params w")
      case True
      with False Cons.prems show ?thesis by auto
    next
      case F: False
      with Cons.prems have "nak_pass fresh now params w ms used = (js, u)" by simp
      from Cons.IH [OF this] show ?thesis by auto
    qed
  qed
qed auto

lemma nak_pass_takes_first:
  assumes "nak_pass fresh now params w (ms @ i # ks) used = (js, u)" and "\<forall>k\<in>set ms. \<not> srtlaNakEligible (fresh ! k) now params w"
    and "srtlaNakEligible (fresh ! i) now params w" and "used + 2 \<le> cap params"
  shows "i \<in> set js"
  using assms
proof (induction ms)
  case Nil
  then show ?case by (auto simp: nak_cost_def Let_def split: prod.splits if_splits)
qed simp

lemma retire_prefix_le: "retire_prefix rs now b \<le> length rs"
  by (induction rs) auto

lemma retire_prefix_iff:
  "sorted (map timestamp rs) \<Longrightarrow> i < length rs \<Longrightarrow> i < retire_prefix rs now b \<longleftrightarrow> now - timestamp (rs ! i) > b"
proof (induction rs arbitrary: i)
  case (Cons r rs)
  show ?case
  proof (cases i)
    case (Suc k)
    have le: "timestamp r \<le> timestamp (rs ! k)" using Cons.prems Suc by simp
    have IH: "k < retire_prefix rs now b \<longleftrightarrow> now - timestamp (rs ! k) > b" using Cons Suc by simp
    show ?thesis
    proof (cases "now - timestamp r > b")
      case False
      then have "\<not> now - timestamp (rs ! k) > b" using le by linarith
      with False Suc show ?thesis by simp
    qed (use Suc IH in simp)
  qed simp
qed simp

lemma eligible_first: "srtlaNakEligible r now params w \<Longrightarrow> (report_time r = 0) = w"
  by (auto simp: srtlaNakEligible_def Let_def split: if_splits)

lemma eligible_window:
  assumes "srtlaNakEligible r now params w"
  shows "ttl r \<le> 0 \<and> now - timestamp r \<ge> hold_us params \<and>
    (budget_us params > 0 \<longrightarrow> now - timestamp r + rtt_us params + margin_us params \<le> budget_us params) \<and>
    (report_time r \<noteq> 0 \<longrightarrow> now - report_time r \<ge> min (spacing_us params) 50000)"
  using assms by (auto simp: srtlaNakEligible_def Let_def min_def max_def split: if_splits)

lemma plan_parts:
  obtains firsts repeats u v where "nak_pass fresh now params True [retire (srtlaPlanNak fresh now params)..<length fresh] 0 = (firsts, u)"
    "nak_pass fresh now params False [retire (srtlaPlanNak fresh now params)..<length fresh] u = (repeats, v)"
    "report (srtlaPlanNak fresh now params) = sort (firsts @ repeats)"
    "confirmed (srtlaPlanNak fresh now params) = (\<Sum>i\<leftarrow>firsts. seqoff (seq0 (fresh ! i)) (seq1 (fresh ! i)) + 1)"
proof -
  define ret where "ret = (if budget_us params > 0 then retire_prefix fresh now (budget_us params) else 0)"
  obtain fs u where f: "nak_pass fresh now params True [ret..<length fresh] 0 = (fs, u)" by (cases "nak_pass fresh now params True [ret..<length fresh] 0")
  obtain rs v where r: "nak_pass fresh now params False [ret..<length fresh] u = (rs, v)" by (cases "nak_pass fresh now params False [ret..<length fresh] u")
  have "srtlaPlanNak fresh now params = \<lparr>report = sort (fs @ rs),
      confirmed = (\<Sum>i\<leftarrow>fs. seqoff (seq0 (fresh ! i)) (seq1 (fresh ! i)) + 1), retire = ret\<rparr>"
    unfolding srtlaPlanNak_def ret_def [symmetric] using f r by (simp add: Let_def)
  with f r that show thesis by auto
qed

text \<open>C20: the loss report of an SRTLA receiver is sound: its records are distinct and in sequence order,
  fit the payload, are none of those past the play budget, and each of them has been witnessed, has
  outlived the reorder hold, can still be retransmitted before its deadline and, if it was reported
  before, was so at least the repeat spacing or 50 ms ago.\<close>

theorem nak_plan_sound:
  "sorted_wrt (<) (report (srtlaPlanNak fresh now params)) \<and>
   (\<Sum>i\<leftarrow>report (srtlaPlanNak fresh now params). nak_cost (fresh ! i)) \<le> cap params \<and>
   set (report (srtlaPlanNak fresh now params)) \<subseteq> {i. retire (srtlaPlanNak fresh now params) \<le> i \<and> i < length fresh \<and>
      ttl (fresh ! i) \<le> 0 \<and> now - timestamp (fresh ! i) \<ge> hold_us params \<and>
      (budget_us params \<le> 0 \<or> now - timestamp (fresh ! i) + rtt_us params + margin_us params \<le> budget_us params) \<and>
      (report_time (fresh ! i) = 0 \<or> now - report_time (fresh ! i) \<ge> min (spacing_us params) 50000)}"
proof -
  let ?p = "srtlaPlanNak fresh now params"
  obtain fs rs u v where f: "nak_pass fresh now params True [retire ?p..<length fresh] 0 = (fs, u)"
    and r: "nak_pass fresh now params False [retire ?p..<length fresh] u = (rs, v)" and p: "report ?p = sort (fs @ rs)"
    by (rule plan_parts)
  note fs = nak_pass_spec [OF f] and rs = nak_pass_spec [OF r]
  have "i \<notin> set rs" if "i \<in> set fs" for i
    using that fs rs eligible_first [of "fresh ! i" now params True] eligible_first [of "fresh ! i" now params False] by blast
  then have d0: "distinct (fs @ rs)" using fs rs by auto
  then have d: "distinct (sort (fs @ rs))" by simp
  then have "sorted_wrt (<) (report ?p)" unfolding p by (simp add: strict_sorted_iff)
  moreover have "(\<Sum>i\<leftarrow>report ?p. nak_cost (fresh ! i)) \<le> cap params"
  proof -
    have "(\<Sum>i\<leftarrow>report ?p. nak_cost (fresh ! i)) = (\<Sum>i\<leftarrow>fs @ rs. nak_cost (fresh ! i))" unfolding p
      using d d0 by (simp add: sum_list_distinct_conv_sum_set del: sum_list_append map_append)
    then show ?thesis using fs rs by simp
  qed
  moreover have "retire ?p \<le> i \<and> i < length fresh \<and> ttl (fresh ! i) \<le> 0 \<and> now - timestamp (fresh ! i) \<ge> hold_us params \<and>
      (budget_us params \<le> 0 \<or> now - timestamp (fresh ! i) + rtt_us params + margin_us params \<le> budget_us params) \<and>
      (report_time (fresh ! i) = 0 \<or> now - report_time (fresh ! i) \<ge> min (spacing_us params) 50000)"
    if i: "i \<in> set (report ?p)" for i
  proof -
    have "retire ?p \<le> i" "i < length fresh" using i fs rs unfolding p by auto
    moreover obtain w where "srtlaNakEligible (fresh ! i) now params w" using i fs rs unfolding p by auto
    from eligible_window [OF this] have "ttl (fresh ! i) \<le> 0 \<and> now - timestamp (fresh ! i) \<ge> hold_us params \<and>
      (budget_us params \<le> 0 \<or> now - timestamp (fresh ! i) + rtt_us params + margin_us params \<le> budget_us params) \<and>
      (report_time (fresh ! i) = 0 \<or> now - report_time (fresh ! i) \<ge> min (spacing_us params) 50000)" by linarith
    ultimately show ?thesis by blast
  qed
  ultimately show ?thesis by blast
qed

text \<open>C32: a loss report never starves fresh losses: if it has room for at least one range, the oldest
  eligible loss that was never reported is in it; and the records it retires are exactly those that
  outlived the play budget.\<close>

theorem nak_plan_progress:
  assumes "sorted (map timestamp fresh)" and "budget_us params > 0" and "2 \<le> cap params"
    and "i < length fresh" and "srtlaNakEligible (fresh ! i) now params True"
    and "rtt_us params + margin_us params \<ge> 0"
    and "list_all (\<lambda>k. \<not> srtlaNakEligible (fresh ! k) now params True) [0..<i]"
  shows "i \<in> set (report (srtlaPlanNak fresh now params)) \<and>
    (j < length fresh \<longrightarrow> (j < retire (srtlaPlanNak fresh now params) \<longleftrightarrow> now - timestamp (fresh ! j) > budget_us params))"
proof -
  let ?p = "srtlaPlanNak fresh now params"
  have ret: "retire ?p = retire_prefix fresh now (budget_us params)"
    using assms(2) by (simp add: srtlaPlanNak_def Let_def split: prod.splits)
  note iff = retire_prefix_iff [OF assms(1), of _ now "budget_us params"]
  have "\<not> i < retire ?p" unfolding ret using iff [OF assms(4)] eligible_window [OF assms(5)] assms(2,6) by auto
  then have sp: "[retire ?p..<length fresh] = [retire ?p..<i] @ i # [Suc i..<length fresh]"
    using assms(4) upt_add_eq_append [of "retire ?p" i "length fresh - i"] by (simp add: upt_conv_Cons)
  obtain fs rs u v where f: "nak_pass fresh now params True [retire ?p..<length fresh] 0 = (fs, u)"
    and "nak_pass fresh now params False [retire ?p..<length fresh] u = (rs, v)" and p: "report ?p = sort (fs @ rs)"
    by (rule plan_parts)
  have "i \<in> set fs" using nak_pass_takes_first [OF f [unfolded sp]] assms(3,5,7) by (auto simp: list_all_iff)
  then show ?thesis using iff unfolding p ret by auto
qed


definition sample_params :: "nat \<Rightarrow> SrtlaNakParams" where
  "sample_params c = \<lparr>hold_us = 10, spacing_us = 100, budget_us = 100000, rtt_us = 50, margin_us = 10, cap = c\<rparr>"

theorem nak_plan_progress_witness:
  "1 \<in> set (report (srtlaPlanNak [CRcvFreshLoss_new 2000 1 2 3, CRcvFreshLoss_new 2000 5 9 0] 2500 (sample_params 4)))"
  using nak_plan_progress [of "[CRcvFreshLoss_new 2000 1 2 3, CRcvFreshLoss_new 2000 5 9 0]" "sample_params 4" 1 2500 0]
  by (simp add: sample_params_def CRcvFreshLoss_new_def srtlaNakEligible_def upt_rec)

text \<open>A never reported loss can be crowded out by a repeat: with one word left, a fresh range of two
  words ends the first pass, so a fresh single loss behind it is not considered, and the second pass
  spends the word on a repeated single loss.\<close>

theorem nak_plan_crowding:
  "report (srtlaPlanNak [CRcvFreshLoss_new 2000 1 2 0, CRcvFreshLoss_new 2000 7 7 0,
      (CRcvFreshLoss_new 2000 9 9 0)\<lparr>report_time := 2100\<rparr>] 60000 (sample_params 1)) = [2]"
  by (simp add: srtlaPlanNak_def sample_params_def CRcvFreshLoss_new_def srtlaNakEligible_def nak_cost_def upt_rec)

end
