(* ===== verification/Tsbpd.thy ===== *)
theory Tsbpd
  imports Prelude
begin

text \<open>
  Timestamp based packet delivery: \<^verbatim>\<open>CTsbpdTime\<close> of \<^verbatim>\<open>srtcore/tsbpd_time.cpp\<close>
  and the \<^verbatim>\<open>DriftTracer\<close> of \<^verbatim>\<open>srtcore/utilities.h\<close> it uses.

  Time points and durations are integers in microseconds; packet timestamps are the 32-bit values of
  the header, integers in \<open>[0, 2 ^ 32)\<close>.  The lock makes every public method one atomic step.
\<close>

section \<open>DriftTracer\<close>

record DriftTracer =
  m_qDrift :: int
  m_qOverdrift :: int
  m_qDriftSum :: int
  m_uDriftSpan :: nat

definition DriftTracer_new :: DriftTracer where
  "DriftTracer_new = \<lparr>m_qDrift = 0, m_qOverdrift = 0, m_qDriftSum = 0, m_uDriftSpan = 0\<rparr>"

text \<open>The template arguments are \<open>MAX_SPAN\<close> and \<open>MAX_DRIFT\<close>; \<^verbatim>\<open>CLEAR_ON_UPDATE\<close> has its
  default, true.\<close>

definition drift_update :: "nat \<Rightarrow> int \<Rightarrow> int \<Rightarrow> DriftTracer \<Rightarrow> bool \<times> DriftTracer" where
  "drift_update MAX_SPAN MAX_DRIFT driftval d0 =
     (let d = d0\<lparr>m_qDriftSum := m_qDriftSum d0 + driftval, m_uDriftSpan := m_uDriftSpan d0 + 1,
               m_qOverdrift := 0\<rparr> in
      if m_uDriftSpan d < MAX_SPAN then (False, d)
      else let q = c_div (m_qDriftSum d) (int (m_uDriftSpan d));
               d = d\<lparr>m_qDrift := q, m_qDriftSum := 0, m_uDriftSpan := 0\<rparr> in
      if \<bar>q\<bar> > MAX_DRIFT then
        (let ov = (if q < 0 then - MAX_DRIFT else MAX_DRIFT)
         in (True, d\<lparr>m_qOverdrift := ov, m_qDrift := q - ov\<rparr>))
      else (True, d))"

definition forceDrift :: "int \<Rightarrow> DriftTracer \<Rightarrow> DriftTracer" where
  "forceDrift driftval d = d\<lparr>m_qDrift := driftval\<rparr>"

section \<open>CTsbpdTime\<close>

definition MAX_TIMESTAMP :: int where "MAX_TIMESTAMP = 0xFFFFFFFF"
definition TSBPD_WRAP_PERIOD :: int where "TSBPD_WRAP_PERIOD = 30 * 1000000"
definition TSBPD_DRIFT_MAX_VALUE :: int where "TSBPD_DRIFT_MAX_VALUE = 5000"
definition TSBPD_DRIFT_MAX_SAMPLES :: nat where "TSBPD_DRIFT_MAX_SAMPLES = 1000"

record CTsbpdTime =
  m_iFirstRTT :: int
  m_bTsbPdMode :: bool
  m_tdTsbPdDelay :: int
  m_tsTsbPdTimeBase :: int
  m_bTsbPdWrapCheck :: bool
  m_DriftTracer :: DriftTracer

definition CTsbpdTime_new :: CTsbpdTime where
  "CTsbpdTime_new = \<lparr>m_iFirstRTT = - 1, m_bTsbPdMode = False, m_tdTsbPdDelay = 0, m_tsTsbPdTimeBase = 0,
     m_bTsbPdWrapCheck = False, m_DriftTracer = DriftTracer_new\<rparr>"

definition getBaseTimeNoLock :: "int \<Rightarrow> CTsbpdTime \<Rightarrow> int" where
  "getBaseTimeNoLock timestamp_us s =
     (let carryover_us = (if m_bTsbPdWrapCheck s \<and> timestamp_us \<le> 2 * TSBPD_WRAP_PERIOD
                          then MAX_TIMESTAMP + 1 else 0)
      in m_tsTsbPdTimeBase s + carryover_us)"

definition getPktBaseTimeNoLock :: "int \<Rightarrow> CTsbpdTime \<Rightarrow> int" where
  "getPktBaseTimeNoLock usPktTimestamp s = getBaseTimeNoLock usPktTimestamp s + usPktTimestamp"

definition getBaseTime :: "int \<Rightarrow> CTsbpdTime \<Rightarrow> int" where
  "getBaseTime timestamp_us s = getBaseTimeNoLock timestamp_us s"

definition getPktBaseTime :: "int \<Rightarrow> CTsbpdTime \<Rightarrow> int" where
  "getPktBaseTime usPktTimestamp s = getBaseTime usPktTimestamp s + usPktTimestamp"

definition getPktTime :: "int \<Rightarrow> CTsbpdTime \<Rightarrow> int" where
  "getPktTime usPktTimestamp s =
     getPktBaseTimeNoLock usPktTimestamp s + m_tdTsbPdDelay s + m_qDrift (m_DriftTracer s)"

definition setTsbPdMode :: "int \<Rightarrow> bool \<Rightarrow> int \<Rightarrow> CTsbpdTime \<Rightarrow> CTsbpdTime" where
  "setTsbPdMode timebase wrap delay s = s\<lparr>m_bTsbPdMode := True, m_bTsbPdWrapCheck := wrap,
     m_tsTsbPdTimeBase := timebase, m_tdTsbPdDelay := delay\<rparr>"

definition applyGroupTime :: "int \<Rightarrow> bool \<Rightarrow> int \<Rightarrow> int \<Rightarrow> CTsbpdTime \<Rightarrow> CTsbpdTime" where
  "applyGroupTime timebase wrp delay udrift s = s\<lparr>m_bTsbPdMode := True, m_tsTsbPdTimeBase := timebase,
     m_bTsbPdWrapCheck := wrp, m_tdTsbPdDelay := delay,
     m_DriftTracer := forceDrift udrift (m_DriftTracer s)\<rparr>"

definition applyGroupDrift :: "int \<Rightarrow> bool \<Rightarrow> int \<Rightarrow> CTsbpdTime \<Rightarrow> CTsbpdTime" where
  "applyGroupDrift timebase wrp udrift s = s\<lparr>m_tsTsbPdTimeBase := timebase, m_bTsbPdWrapCheck := wrp,
     m_DriftTracer := forceDrift udrift (m_DriftTracer s)\<rparr>"

definition getInternalTimeBase :: "CTsbpdTime \<Rightarrow> int \<times> bool \<times> int" where
  "getInternalTimeBase s = (m_tsTsbPdTimeBase s, m_bTsbPdWrapCheck s, m_qDrift (m_DriftTracer s))"

definition updateBaseTime :: "int \<Rightarrow> CTsbpdTime \<Rightarrow> CTsbpdTime" where
  "updateBaseTime usPktTimestamp s =
     (if m_bTsbPdWrapCheck s then
        (if usPktTimestamp \<ge> TSBPD_WRAP_PERIOD \<and> usPktTimestamp \<le> TSBPD_WRAP_PERIOD * 2 then
           s\<lparr>m_bTsbPdWrapCheck := False, m_tsTsbPdTimeBase := m_tsTsbPdTimeBase s + (MAX_TIMESTAMP + 1)\<rparr>
         else s)
      else if usPktTimestamp > MAX_TIMESTAMP - TSBPD_WRAP_PERIOD then s\<lparr>m_bTsbPdWrapCheck := True\<rparr>
      else s)"

definition addDriftSample :: "int \<Rightarrow> int \<Rightarrow> int \<Rightarrow> CTsbpdTime \<Rightarrow> bool \<times> CTsbpdTime" where
  "addDriftSample usPktTimestamp tsPktArrival usRTTSample s0 =
     (if \<not> m_bTsbPdMode s0 then (False, s0)
      else let s = (if m_iFirstRTT s0 = - 1 then s0\<lparr>m_iFirstRTT := usRTTSample\<rparr> else s0);
               tdRTTDelta = (if usRTTSample \<ge> 0 then c_div (usRTTSample - m_iFirstRTT s) 2 else 0);
               tsPktBaseTime = getPktBaseTimeNoLock usPktTimestamp s;
               tdDrift = tsPktArrival - tsPktBaseTime - tdRTTDelta;
               (updated, d) = drift_update TSBPD_DRIFT_MAX_SAMPLES TSBPD_DRIFT_MAX_VALUE tdDrift (m_DriftTracer s);
               s = s\<lparr>m_DriftTracer := d\<rparr>
           in (updated, if updated
               then s\<lparr>m_tsTsbPdTimeBase := m_tsTsbPdTimeBase s + m_qOverdrift d\<rparr> else s))"

section \<open>Unwrapped timestamps\<close>

text \<open>The 32-bit timestamp of a packet sent at time \<open>T\<close> of the sender's clock, and the state in
  which the sender's time 0 is the local time \<open>B\<close> and the latest packet seen was sent at \<open>H\<close>.\<close>

definition stamp :: "int \<Rightarrow> int" where
  "stamp T = T mod (MAX_TIMESTAMP + 1)"

definition time_ok :: "int \<Rightarrow> int \<Rightarrow> CTsbpdTime \<Rightarrow> bool" where
  "time_ok B H s \<longleftrightarrow> (\<exists>k. m_tsTsbPdTimeBase s = B + k * (MAX_TIMESTAMP + 1) \<and>
     (if m_bTsbPdWrapCheck s
      then (k + 1) * (MAX_TIMESTAMP + 1) - TSBPD_WRAP_PERIOD \<le> H \<and> H < (k + 1) * (MAX_TIMESTAMP + 1) + TSBPD_WRAP_PERIOD
      else (k * (MAX_TIMESTAMP + 1) + TSBPD_WRAP_PERIOD \<le> H \<or> k = 0 \<and> 0 \<le> H) \<and>
        H \<le> k * (MAX_TIMESTAMP + 1) + MAX_TIMESTAMP - TSBPD_WRAP_PERIOD))"

lemmas time_consts = MAX_TIMESTAMP_def TSBPD_WRAP_PERIOD_def

lemma stamp_epoch: "k * 4294967296 \<le> T \<Longrightarrow> T < (k + 1) * 4294967296 \<Longrightarrow> stamp T = T - k * 4294967296"
proof -
  assume "k * 4294967296 \<le> T" "T < (k + 1) * 4294967296"
  then have "(T - k * 4294967296) mod 4294967296 = T - k * 4294967296" by (intro mod_pos_pos_trivial) auto
  moreover have "(T - k * 4294967296) mod 4294967296 = T mod 4294967296"
    using mod_mult_self1 [of T "- k" 4294967296] by simp
  ultimately show ?thesis by (simp add: stamp_def time_consts)
qed

lemma time_step:
  assumes ok: "time_ok B H s" and T: "\<bar>T - H\<bar> \<le> TSBPD_WRAP_PERIOD" "0 \<le> T"
  shows "getPktBaseTime (stamp T) s = B + T \<and> time_ok B (max H T) (updateBaseTime (stamp T) s)"
proof -
  obtain k where k: "m_tsTsbPdTimeBase s = B + k * 4294967296"
    and inv: "if m_bTsbPdWrapCheck s
      then (k + 1) * 4294967296 - 30000000 \<le> H \<and> H < (k + 1) * 4294967296 + 30000000
      else (k * 4294967296 + 30000000 \<le> H \<or> k = 0 \<and> 0 \<le> H) \<and> H \<le> k * 4294967296 + 4294967295 - 30000000"
    using ok by (auto simp: time_ok_def time_consts split: if_splits)
  have T': "H - 30000000 \<le> T" "T \<le> H + 30000000" using T(1) by (auto simp: time_consts)
  note defs = getPktBaseTime_def getBaseTime_def getBaseTimeNoLock_def updateBaseTime_def time_ok_def time_consts Let_def
  show ?thesis
  proof (cases "m_bTsbPdWrapCheck s")
    case False
    with inv T' T(2) have e: "k * 4294967296 \<le> T" "T < (k + 1) * 4294967296" by (auto simp: algebra_simps)
    note st = stamp_epoch [OF e]
    show ?thesis unfolding st using False inv T' k e
      by (auto simp: defs intro!: exI [of _ k])
  next
    case True
    note inv = inv [simplified True, simplified]
    show ?thesis
    proof (cases "T < (k + 1) * 4294967296")
      case e: True
      then have "k * 4294967296 \<le> T" using inv T' by (auto simp: algebra_simps)
      note st = stamp_epoch [OF this e]
      show ?thesis unfolding st using True inv T' k e
        by (auto simp: defs algebra_simps intro!: exI [of _ k])
    next
      case False
      have "T < (k + 1 + 1) * 4294967296" using inv T' by (auto simp: algebra_simps)
      with False have st: "stamp T = T - (k + 1) * 4294967296" by (intro stamp_epoch) auto
      show ?thesis
      proof (cases "stamp T \<ge> 30000000")
        case ge: True
        show ?thesis using True inv T' k False ge unfolding st
          by (auto simp: defs algebra_simps intro!: exI [of _ "k + 1"])
      next
        case lt: False
        show ?thesis using True inv T' k False lt unfolding st
          by (auto simp: defs algebra_simps intro!: exI [of _ k])
      qed
    qed
  qed
qed

text \<open>A receiver that takes the sent packets \<open>Ts\<close> (their unwrapped sending times) in order of
  arrival, computes the base time of each and passes its timestamp to \<^verbatim>\<open>updateBaseTime\<close>.\<close>

fun receive_times :: "int list \<Rightarrow> CTsbpdTime \<Rightarrow> int list \<times> CTsbpdTime" where
  "receive_times [] s = ([], s)"
| "receive_times (T # Ts) s =
     (let (bs, s') = receive_times Ts (updateBaseTime (stamp T) s)
      in (getPktBaseTime (stamp T) s # bs, s'))"

fun steady_times :: "int \<Rightarrow> int list \<Rightarrow> bool" where
  "steady_times H [] = True"
| "steady_times H (T # Ts) \<longleftrightarrow> 0 \<le> T \<and> \<bar>T - H\<bar> \<le> TSBPD_WRAP_PERIOD \<and> steady_times (max H T) Ts"

lemma receive_times_ok:
  "time_ok B H s \<Longrightarrow> steady_times H Ts \<Longrightarrow>
   fst (receive_times Ts s) = map ((+) B) Ts \<and> time_ok B (foldl max H Ts) (snd (receive_times Ts s))"
proof (induction Ts arbitrary: H s)
  case (Cons T Ts)
  note step = time_step [OF Cons.prems(1), of T]
  have "fst (receive_times Ts (updateBaseTime (stamp T) s)) = map ((+) B) Ts \<and>
    time_ok B (foldl max (max H T) Ts) (snd (receive_times Ts (updateBaseTime (stamp T) s)))"
    using Cons.prems step by (intro Cons.IH) auto
  then show ?case using Cons.prems step by (auto simp: case_prod_beta Let_def)
qed simp

section \<open>Properties\<close>

text \<open>C18: The 32-bit timestamps are unwrapped exactly, for ever.  Let \<^verbatim>\<open>setTsbPdMode\<close> be
  called with the local time \<open>B\<close> of the sender's time 0, when the sender's clock shows \<open>T0\<close>, not in the
  last 30 seconds before a wrap.  Then for every
  sequence of packets, of any length and over any number of wraps, in which each packet was sent within
  30 seconds of the latest one received before it, the base time computed for the packet sent at
  \<open>T\<close> is \<open>B + T\<close>: reordered packets on both sides of a wrap included.\<close>

theorem tsbpd_unwraps_timestamps:
  assumes "0 \<le> T0" "T0 \<le> MAX_TIMESTAMP - TSBPD_WRAP_PERIOD" "steady_times T0 Ts"
  shows "fst (receive_times Ts (setTsbPdMode B False delay s)) = map ((+) B) Ts"
proof -
  have "time_ok B T0 (setTsbPdMode B False delay s)"
    using assms by (auto simp: time_ok_def setTsbPdMode_def intro!: exI [of _ 0])
  from receive_times_ok [OF this assms(3)] show ?thesis by simp
qed

text \<open>Five packets around the first wrap, 10 seconds apart and one of them reordered across it; the
  last two end the wrap check.\<close>

lemma tsbpd_unwraps_timestamps_witness:
  "fst (receive_times [4264000000, 4290000000, 4297000000, 4293000000, 4326000000, 4330000000]
     (setTsbPdMode 77 False 120000 CTsbpdTime_new)) =
   [4264000077, 4290000077, 4297000077, 4293000077, 4326000077, 4330000077]"
  using tsbpd_unwraps_timestamps [of 4260000000 "[4264000000, 4290000000, 4297000000, 4293000000, 4326000000, 4330000000]"
      77 120000 CTsbpdTime_new]
  by (simp add: time_consts)

lemma drift_update_cases:
  assumes "drift_update N M v d = (u, d')" "m_uDriftSpan d < N" "0 < M"
  shows "if m_uDriftSpan d + 1 < N
    then \<not> u \<and> m_qDrift d' = m_qDrift d \<and> m_qOverdrift d' = 0 \<and>
      m_qDriftSum d' = m_qDriftSum d + v \<and> m_uDriftSpan d' = m_uDriftSpan d + 1
    else u \<and> m_qDrift d' + m_qOverdrift d' = c_div (m_qDriftSum d + v) (int N) \<and>
      m_qOverdrift d' \<in> {- M, 0, M} \<and> (m_qOverdrift d' = 0 \<longrightarrow> \<bar>m_qDrift d'\<bar> \<le> M) \<and>
      m_qDriftSum d' = 0 \<and> m_uDriftSpan d' = 0"
proof -
  have "m_uDriftSpan d + 1 < N \<or> N = Suc (m_uDriftSpan d)" using assms(2) by auto
  then show ?thesis using assms(1,3)
    by (auto simp: drift_update_def Let_def split: if_splits)
qed

text \<open>The samples a sequence of ACKACK packets gives, and the calls themselves with their results.\<close>

fun drift_of :: "CTsbpdTime \<Rightarrow> int \<times> int \<times> int \<Rightarrow> int" where
  "drift_of s (ts, arrival, rtt) =
     arrival - getPktBaseTime ts s - (if rtt \<ge> 0 then c_div (rtt - m_iFirstRTT s) 2 else 0)"

fun drift_samples :: "(int \<times> int \<times> int) list \<Rightarrow> CTsbpdTime \<Rightarrow> bool list \<times> CTsbpdTime" where
  "drift_samples [] s = ([], s)"
| "drift_samples ((ts, arrival, rtt) # es) s =
     (let (u, s) = addDriftSample ts arrival rtt s; (us, s) = drift_samples es s in (u # us, s))"

lemma addDriftSample_eq:
  assumes "m_bTsbPdMode s" "m_iFirstRTT s \<noteq> - 1"
  shows "addDriftSample ts arrival rtt s =
    (let (u, d) = drift_update TSBPD_DRIFT_MAX_SAMPLES TSBPD_DRIFT_MAX_VALUE (drift_of s (ts, arrival, rtt)) (m_DriftTracer s)
     in (u, if u then s\<lparr>m_DriftTracer := d, m_tsTsbPdTimeBase := m_tsTsbPdTimeBase s + m_qOverdrift d\<rparr>
            else s\<lparr>m_DriftTracer := d\<rparr>))"
  using assms
  by (auto simp: addDriftSample_def Let_def getPktBaseTime_def getBaseTime_def getPktBaseTimeNoLock_def case_prod_beta)

lemma drift_of_tracer [simp]: "drift_of (s\<lparr>m_DriftTracer := d\<rparr>) e = drift_of s e"
  by (cases e) (simp add: getPktBaseTime_def getBaseTime_def getBaseTimeNoLock_def)

lemma drift_samples_collect:
  assumes "m_bTsbPdMode s" "m_iFirstRTT s \<noteq> - 1" "m_uDriftSpan (m_DriftTracer s) + length es < TSBPD_DRIFT_MAX_SAMPLES"
  shows "\<exists>d. drift_samples es s = (replicate (length es) False, s\<lparr>m_DriftTracer := d\<rparr>) \<and>
    m_qDrift d = m_qDrift (m_DriftTracer s) \<and> m_uDriftSpan d = m_uDriftSpan (m_DriftTracer s) + length es \<and>
    m_qDriftSum d = m_qDriftSum (m_DriftTracer s) + (\<Sum>e\<leftarrow>es. drift_of s e)"
  using assms
proof (induction es arbitrary: s)
  case Nil
  then show ?case by (intro exI [of _ "m_DriftTracer s"]) simp
next
  case (Cons e es)
  obtain ts arrival rtt where e: "e = (ts, arrival, rtt)" by (cases e)
  obtain u d where d: "drift_update TSBPD_DRIFT_MAX_SAMPLES TSBPD_DRIFT_MAX_VALUE (drift_of s e) (m_DriftTracer s) = (u, d)"
    by fastforce
  have 1: "\<not> u \<and> m_qDrift d = m_qDrift (m_DriftTracer s) \<and> m_uDriftSpan d = m_uDriftSpan (m_DriftTracer s) + 1 \<and>
      m_qDriftSum d = m_qDriftSum (m_DriftTracer s) + drift_of s e"
    using drift_update_cases [OF d] Cons.prems(3) by (simp add: TSBPD_DRIFT_MAX_VALUE_def)
  have 2: "addDriftSample ts arrival rtt s = (False, s\<lparr>m_DriftTracer := d\<rparr>)"
    using Cons.prems d 1 by (simp add: addDriftSample_eq e del: drift_of.simps)
  obtain d' where "drift_samples es (s\<lparr>m_DriftTracer := d\<rparr>) =
      (replicate (length es) False, s\<lparr>m_DriftTracer := d, m_DriftTracer := d'\<rparr>)"
    "m_qDrift d' = m_qDrift d" "m_uDriftSpan d' = m_uDriftSpan d + length es"
    "m_qDriftSum d' = m_qDriftSum d + (\<Sum>e\<leftarrow>es. drift_of s e)"
    using Cons.IH [of "s\<lparr>m_DriftTracer := d\<rparr>"] Cons.prems 1 by (auto simp del: drift_of.simps)
  then show ?case using 1 2 e by (intro exI [of _ d']) (simp del: drift_of.simps)
qed

lemma drift_samples_append:
  "drift_samples (es @ es') s =
     (let (us, s) = drift_samples es s; (us', s) = drift_samples es' s in (us @ us', s))"
proof (induction es arbitrary: s)
  case (Cons e es)
  then show ?case by (cases e) (simp add: case_prod_beta Let_def)
qed simp



text \<open>C35: Members of a group deliver at the same times.  A member that takes over the
  internal time base and the latency of another (\<^verbatim>\<open>applyGroupTime\<close>) computes the delivery time
  of every packet timestamp as the other does, and goes on doing so through every common sequence of
  received data packets, wraps included; a member that only takes over the drift
  (\<^verbatim>\<open>applyGroupDrift\<close>) does so too if the two latencies were equal.\<close>

theorem tsbpd_group_agrees:
  "getInternalTimeBase a = (tb, wrp, udrift) \<Longrightarrow>
   getPktTime ts (fold updateBaseTime us (applyGroupTime tb wrp (m_tdTsbPdDelay a) udrift b)) =
     getPktTime ts (fold updateBaseTime us a) \<and>
   getPktTime ts (fold updateBaseTime us (applyGroupDrift tb wrp udrift b)) - m_tdTsbPdDelay b =
     getPktTime ts (fold updateBaseTime us a) - m_tdTsbPdDelay a"
proof -
  let ?same = "\<lambda>x y. m_tsTsbPdTimeBase x = m_tsTsbPdTimeBase y \<and> m_bTsbPdWrapCheck x = m_bTsbPdWrapCheck y \<and>
    m_qDrift (m_DriftTracer x) = m_qDrift (m_DriftTracer y)"
  have delay: "m_tdTsbPdDelay (fold updateBaseTime us x) = m_tdTsbPdDelay x" for x
    by (induction us arbitrary: x) (auto simp: updateBaseTime_def)
  have step: "?same (updateBaseTime u x) (updateBaseTime u y)" if "?same x y" for u x y
    using that by (simp add: updateBaseTime_def)
  have same: "?same (fold updateBaseTime us x) (fold updateBaseTime us y)" if "?same x y" for x y
    using that
  proof (induction us arbitrary: x y)
    case (Cons u us)
    show ?case using Cons.IH [OF step [OF Cons.prems]] by simp
  qed simp
  have time: "getPktTime ts x - m_tdTsbPdDelay x = getPktTime ts y - m_tdTsbPdDelay y" if "?same x y" for x y
    using that by (simp add: getPktTime_def getPktBaseTimeNoLock_def getBaseTimeNoLock_def)
  assume "getInternalTimeBase a = (tb, wrp, udrift)"
  then have "?same (applyGroupTime tb wrp (m_tdTsbPdDelay a) udrift b) a" "?same (applyGroupDrift tb wrp udrift b) a"
    by (auto simp: getInternalTimeBase_def applyGroupTime_def applyGroupDrift_def forceDrift_def)
  note this [THEN same, THEN time]
  then show ?thesis by (simp add: delay) (simp add: applyGroupTime_def applyGroupDrift_def)
qed

lemma tsbpd_group_agrees_witness:
  "getPktTime 31000000 (fold updateBaseTime [4294000000, 31000000]
     (applyGroupTime 500 False 120000 40 CTsbpdTime_new)) = 500 + 4294967296 + 31000000 + 120000 + 40"
  using tsbpd_group_agrees [of "applyGroupTime 500 False 120000 40 CTsbpdTime_new" 500 False 40 31000000
      "[4294000000, 31000000]" CTsbpdTime_new]
  by (simp add: getInternalTimeBase_def applyGroupTime_def forceDrift_def updateBaseTime_def time_consts
      getPktTime_def getPktBaseTimeNoLock_def getBaseTimeNoLock_def)

end
