(* ===== verification/UnitQueue.thy ===== *)
theory UnitQueue
  imports Packet
begin

text \<open>
  The receiver's pool of packet units: \<^verbatim>\<open>CUnit\<close> and \<^verbatim>\<open>CUnitQueue\<close> of
  \<^verbatim>\<open>srtcore/queue.h\<close> and \<^verbatim>\<open>queue.cpp\<close>.

  The blocks of the circular list all have \<open>m_iBlockSize\<close> units and are linked in the order of their
  allocation, so the units are kept in one list, block after block: a unit is its index there, a block
  its number, and the block after the last one is the first.  Whether an allocation succeeds is an
  argument.  Reading a unit outside the list and a failed \<^verbatim>\<open>SRT_ASSERT\<close> are \<^term>\<open>None\<close>.
\<close>

section \<open>The code\<close>

record CUnit =
  m_Packet :: CPacket
  m_bTaken :: bool

record CUnitQueue =
  m_pUnits :: "CUnit list"
  m_pCurrQueue :: nat
  m_pAvailUnit :: nat
  m_iSize :: nat
  m_iNumTaken :: int
  m_iBlockSize :: nat

text \<open>The units of a new block; the packet they hold is whatever memory gives them.\<close>

definition allocateEntry :: "bool \<Rightarrow> CPacket \<Rightarrow> nat \<Rightarrow> CUnit list option" where
  "allocateEntry success garbage iNumUnits =
     (if success then Some (replicate iNumUnits \<lparr>m_Packet = garbage, m_bTaken = False\<rparr>) else None)"

text \<open>\<^term>\<open>None\<close> is the exception of the constructor.\<close>

definition CUnitQueue_new :: "bool \<Rightarrow> CPacket \<Rightarrow> nat \<Rightarrow> CUnitQueue option" where
  "CUnitQueue_new success garbage initNumUnits = do {
     us \<leftarrow> allocateEntry success garbage initNumUnits;
     Some \<lparr>m_pUnits = us, m_pCurrQueue = 0, m_pAvailUnit = 0, m_iSize = initNumUnits, m_iNumTaken = 0,
       m_iBlockSize = initNumUnits\<rparr> }"

definition increase_units :: "bool \<Rightarrow> CPacket \<Rightarrow> CUnitQueue \<Rightarrow> int \<times> CUnitQueue" where
  "increase_units success garbage q =
     (case allocateEntry success garbage (m_iBlockSize q) of
        None \<Rightarrow> (- 1, q)
      | Some us \<Rightarrow> (0, q\<lparr>m_pUnits := m_pUnits q @ us, m_iSize := m_iSize q + m_iBlockSize q\<rparr>))"

text \<open>The inner loop: the index of the unit it stops at and how many units have been checked.\<close>

function avail_in_block :: "CUnit list \<Rightarrow> nat \<Rightarrow> nat \<Rightarrow> nat \<Rightarrow> (bool \<times> nat \<times> nat) option" where
  "avail_in_block us e a units_checked =
     (if a = e then Some (False, a, units_checked)
      else if a \<ge> length us then None
      else if \<not> m_bTaken (us ! a) then Some (True, a, units_checked)
      else avail_in_block us e (Suc a) (Suc units_checked))"
  by pat_completeness auto
termination
  by (relation "measure (\<lambda>(us, e, a, c). length us - a)") auto

declare avail_in_block.simps [simp del]

definition next_block :: "CUnitQueue \<Rightarrow> nat" where
  "next_block q = Suc (m_pCurrQueue q) mod (m_iSize q div m_iBlockSize q)"

partial_function (option) avail_loop :: "nat \<Rightarrow> CUnitQueue \<Rightarrow> (nat option \<times> CUnitQueue) option" where
  "avail_loop units_checked q = do {
     (found, a, units_checked) \<leftarrow>
       avail_in_block (m_pUnits q) (Suc (m_pCurrQueue q) * m_iBlockSize q) (m_pAvailUnit q) units_checked;
     if found then Some (Some a, q\<lparr>m_pAvailUnit := a\<rparr>)
     else let q = q\<lparr>m_pCurrQueue := next_block q, m_pAvailUnit := next_block q * m_iBlockSize q\<rparr> in
       if units_checked < m_iSize q then avail_loop units_checked q else Some (None, q) }"

declare avail_loop.simps [code]

definition getNextAvailUnit :: "bool \<Rightarrow> CPacket \<Rightarrow> CUnitQueue \<Rightarrow> (nat option \<times> CUnitQueue) option" where
  "getNextAvailUnit success garbage q =
     (let iNumUnitsTotal = int (m_iSize q);
          q = (if m_iNumTaken q * 10 > iNumUnitsTotal * 9 then snd (increase_units success garbage q) else q)
      in if m_iNumTaken q \<ge> int (m_iSize q) then Some (None, q)
         else avail_loop 0 q)"

definition makeUnitFree :: "nat \<Rightarrow> CUnitQueue \<Rightarrow> CUnitQueue option" where
  "makeUnitFree u q =
     (if u < length (m_pUnits q) \<and> m_bTaken (m_pUnits q ! u)
      then Some (q\<lparr>m_pUnits := (m_pUnits q)[u := (m_pUnits q ! u)\<lparr>m_bTaken := False\<rparr>], m_iNumTaken := m_iNumTaken q - 1\<rparr>)
      else None)"

definition makeUnitTaken :: "nat \<Rightarrow> CUnitQueue \<Rightarrow> CUnitQueue option" where
  "makeUnitTaken u q =
     (if u < length (m_pUnits q) \<and> \<not> m_bTaken (m_pUnits q ! u)
      then Some (q\<lparr>m_pUnits := (m_pUnits q)[u := (m_pUnits q ! u)\<lparr>m_bTaken := True\<rparr>], m_iNumTaken := m_iNumTaken q + 1\<rparr>)
      else None)"

section \<open>Invariant\<close>

definition taken_units :: "CUnitQueue \<Rightarrow> nat set" where
  "taken_units q = {u. u < length (m_pUnits q) \<and> m_bTaken (m_pUnits q ! u)}"

definition uq_ok :: "CUnitQueue \<Rightarrow> bool" where
  "uq_ok q \<longleftrightarrow> 0 < m_iBlockSize q \<and> length (m_pUnits q) = m_iSize q \<and> m_iBlockSize q dvd m_iSize q \<and>
     m_pCurrQueue q < m_iSize q div m_iBlockSize q \<and>
     m_pCurrQueue q * m_iBlockSize q \<le> m_pAvailUnit q \<and> m_pAvailUnit q < Suc (m_pCurrQueue q) * m_iBlockSize q \<and>
     m_iNumTaken q = int (card (taken_units q))"

lemma finite_taken [simp]: "finite (taken_units q)"
  by (simp add: taken_units_def)

lemma taken_units_cong [simp]:
  "taken_units (q\<lparr>m_pCurrQueue := c\<rparr>) = taken_units q" "taken_units (q\<lparr>m_pAvailUnit := a\<rparr>) = taken_units q"
  "taken_units (q\<lparr>m_iNumTaken := t\<rparr>) = taken_units q" "taken_units (q\<lparr>m_iSize := n\<rparr>) = taken_units q"
  by (simp_all add: taken_units_def)

lemma taken_units_append:
  "taken_units (q\<lparr>m_pUnits := m_pUnits q @ replicate n \<lparr>m_Packet = g, m_bTaken = False\<rparr>\<rparr>) = taken_units q"
proof -
  have "m_bTaken ((m_pUnits q @ replicate n \<lparr>m_Packet = g, m_bTaken = False\<rparr>) ! x) \<longleftrightarrow>
      x < length (m_pUnits q) \<and> m_bTaken (m_pUnits q ! x)" if "x < length (m_pUnits q) + n" for x
    using that nth_replicate [of "x - length (m_pUnits q)" n] by (auto simp: nth_append)
  then show ?thesis by (auto simp: taken_units_def)
qed

lemma makeUnitTaken_ok:
  assumes "uq_ok q" "makeUnitTaken u q = Some q'"
  shows "uq_ok q'" "taken_units q' = insert u (taken_units q)" "u \<notin> taken_units q"
proof -
  show t: "taken_units q' = insert u (taken_units q)" and n: "u \<notin> taken_units q"
    using assms(2) by (auto simp: makeUnitTaken_def taken_units_def nth_list_update split: if_splits)
  show "uq_ok q'" using assms t n by (auto simp: makeUnitTaken_def uq_ok_def split: if_splits)
qed

lemma makeUnitFree_ok:
  assumes "uq_ok q" "makeUnitFree u q = Some q'"
  shows "uq_ok q'" "taken_units q' = taken_units q - {u}" "u \<in> taken_units q"
proof -
  show t: "taken_units q' = taken_units q - {u}" and n: "u \<in> taken_units q"
    using assms(2) by (auto simp: makeUnitFree_def taken_units_def nth_list_update split: if_splits)
  have "card (taken_units q) = Suc (card (taken_units q'))"
    using n t card_Suc_Diff1 [of "taken_units q" u] by simp
  moreover have "m_iBlockSize q' = m_iBlockSize q" "m_iSize q' = m_iSize q" "m_pCurrQueue q' = m_pCurrQueue q"
    "m_pAvailUnit q' = m_pAvailUnit q" "m_iNumTaken q' = m_iNumTaken q - 1" "length (m_pUnits q') = length (m_pUnits q)"
    using assms(2) by (auto simp: makeUnitFree_def split: if_splits)
  ultimately show "uq_ok q'" using assms(1) by (simp add: uq_ok_def)
qed

lemma increase_units_ok:
  assumes "uq_ok q"
  shows "uq_ok (snd (increase_units success garbage q))"
proof -
  have "(m_iSize q + m_iBlockSize q) div m_iBlockSize q = Suc (m_iSize q div m_iBlockSize q)"
    using assms by (simp add: uq_ok_def)
  then show ?thesis using assms
    by (simp add: increase_units_def allocateEntry_def uq_ok_def taken_units_append)
qed

lemma avail_in_block_spec:
  assumes "a \<le> e" "e \<le> length us" "avail_in_block us e a c = r"
  obtains a' where "a \<le> a'" "a' < e" "\<not> m_bTaken (us ! a')" "r = Some (True, a', c + (a' - a))"
    | "\<forall>i. a \<le> i \<and> i < e \<longrightarrow> m_bTaken (us ! i)" "r = Some (False, e, c + (e - a))"
  using assms
proof (induction us e a c arbitrary: thesis rule: avail_in_block.induct)
  case (1 us e a c)
  show ?case
  proof (cases "a = e \<or> \<not> m_bTaken (us ! a)")
    case True
    then show ?thesis
    proof (cases "a = e")
      case True
      then have "r = Some (False, a, c)" using 1(6) by (simp add: avail_in_block.simps)
      then show ?thesis using True by (intro 1(3)) auto
    next
      case False
      then have "r = Some (True, a, c)" using True 1(4,5,6) by (simp add: avail_in_block.simps)
      then show ?thesis using False True 1(4) by (intro 1(2) [of a]) auto
    qed
  next
    case False
    then have a: "a \<noteq> e" "\<not> length us \<le> a" "\<not> \<not> m_bTaken (us ! a)" and le: "Suc a \<le> e" using 1(4,5) by auto
    have r: "avail_in_block us e (Suc a) (Suc c) = r" using 1(6) a by (subst (asm) avail_in_block.simps) auto
    show ?thesis
    proof (rule "1.IH" [OF a _ _ le 1(5) r])
      fix a' assume "Suc a \<le> a'" "a' < e" "\<not> m_bTaken (us ! a')" "r = Some (True, a', Suc c + (a' - Suc a))"
      then show ?thesis by (intro 1(2) [of a']) auto
    next
      assume *: "\<forall>i. Suc a \<le> i \<and> i < e \<longrightarrow> m_bTaken (us ! i)" "r = Some (False, e, Suc c + (e - Suc a))"
      have "m_bTaken (us ! i)" if "a \<le> i \<and> i < e" for i using that * a by (cases "i = a") auto
      then show ?thesis using * le by (intro 1(3)) auto
    qed
  qed
qed

text \<open>The distance from unit \<open>a\<close> forward to unit \<open>f\<close> in a ring of \<open>n\<close> units.\<close>

definition ahead :: "nat \<Rightarrow> nat \<Rightarrow> nat \<Rightarrow> nat" where
  "ahead n a f = (if a \<le> f then f - a else f + n - a)"

lemma block_end:
  assumes "uq_ok q"
  shows "Suc (m_pCurrQueue q) * m_iBlockSize q \<le> m_iSize q"
    "next_block q * m_iBlockSize q = (if Suc (m_pCurrQueue q) * m_iBlockSize q = m_iSize q then 0
       else Suc (m_pCurrQueue q) * m_iBlockSize q)"
    "next_block q < m_iSize q div m_iBlockSize q"
proof -
  obtain B where B: "m_iSize q = B * m_iBlockSize q" using assms by (auto simp: uq_ok_def dvd_def)
  have b: "0 < m_iBlockSize q" "m_iSize q div m_iBlockSize q = B" "m_pCurrQueue q < B"
    using assms B by (auto simp: uq_ok_def)
  show "Suc (m_pCurrQueue q) * m_iBlockSize q \<le> m_iSize q"
    using b unfolding B by (intro mult_right_mono) auto
  show "next_block q * m_iBlockSize q = (if Suc (m_pCurrQueue q) * m_iBlockSize q = m_iSize q then 0
       else Suc (m_pCurrQueue q) * m_iBlockSize q)"
  proof (cases "Suc (m_pCurrQueue q) = B")
    case False
    then have "Suc (m_pCurrQueue q) < B" using b by auto
    then show ?thesis using b False B by (simp add: next_block_def del: mult_Suc)
  qed (use b B in \<open>simp add: next_block_def del: mult_Suc\<close>)
  show "next_block q < m_iSize q div m_iBlockSize q" using b by (simp add: next_block_def)
qed

lemma avail_loop_finds:
  assumes "uq_ok q" "f < m_iSize q" "\<not> m_bTaken (m_pUnits q ! f)" "c + ahead (m_iSize q) (m_pAvailUnit q) f < m_iSize q"
  shows "\<exists>u q'. avail_loop c q = Some (Some u, q') \<and> u < m_iSize q \<and> u \<notin> taken_units q \<and> uq_ok q' \<and>
    m_pUnits q' = m_pUnits q \<and> m_iSize q' = m_iSize q"
  using assms
proof (induction "ahead (m_iSize q) (m_pAvailUnit q) f" arbitrary: q c rule: less_induct)
  case less
  let ?e = "Suc (m_pCurrQueue q) * m_iBlockSize q" and ?a = "m_pAvailUnit q"
  note be = block_end [OF less.prems(1)]
  have a: "?a < ?e" "length (m_pUnits q) = m_iSize q" using less.prems(1) by (auto simp: uq_ok_def)
  consider a' where "?a \<le> a'" "a' < ?e" "\<not> m_bTaken (m_pUnits q ! a')"
      "avail_in_block (m_pUnits q) ?e ?a c = Some (True, a', c + (a' - ?a))"
    | "\<forall>i. ?a \<le> i \<and> i < ?e \<longrightarrow> m_bTaken (m_pUnits q ! i)"
      "avail_in_block (m_pUnits q) ?e ?a c = Some (False, ?e, c + (?e - ?a))"
    using avail_in_block_spec [of ?a ?e "m_pUnits q" c] a be(1) by (metis less_imp_le)
  then show ?case
  proof cases
    case 1
    then have "avail_loop c q = Some (Some a', q\<lparr>m_pAvailUnit := a'\<rparr>)" by (subst avail_loop.simps) simp
    moreover have "uq_ok (q\<lparr>m_pAvailUnit := a'\<rparr>)" using less.prems(1) 1 by (auto simp: uq_ok_def)
    ultimately show ?thesis using 1 a be(1) by (auto simp: taken_units_def)
  next
    case 2
    define q1 where "q1 = q\<lparr>m_pCurrQueue := next_block q, m_pAvailUnit := next_block q * m_iBlockSize q\<rparr>"
    have f: "\<not> (?a \<le> f \<and> f < ?e)" using 2 less.prems(3) by auto
    have d: "ahead (m_iSize q1) (m_pAvailUnit q1) f + (?e - ?a) = ahead (m_iSize q) ?a f"
      using f a be(1,2) less.prems(2) by (auto simp: q1_def ahead_def)
    then have lt: "c + (?e - ?a) < m_iSize q" and lt': "c + (?e - ?a) + ahead (m_iSize q1) (m_pAvailUnit q1) f < m_iSize q1"
      and less': "ahead (m_iSize q1) (m_pAvailUnit q1) f < ahead (m_iSize q) ?a f"
      using less.prems(4) a(1) by (auto simp: q1_def)
    have loop: "avail_loop c q = avail_loop (c + (?e - ?a)) q1"
      by (subst avail_loop.simps) (simp add: 2 lt Let_def q1_def [symmetric] del: mult_Suc, simp add: q1_def lt del: mult_Suc)
    have ok: "uq_ok q1" using less.prems(1) be(3) by (auto simp: uq_ok_def q1_def)
    show ?thesis unfolding loop using less.hyps [OF less' ok _ _ lt'] less.prems(2,3)
      by (auto simp: q1_def)
  qed
qed

text \<open>A block is only appended: the units there are keep their places and packets.\<close>

lemma getNextAvailUnit_spec:
  assumes "uq_ok q"
  shows "\<exists>r q'. getNextAvailUnit success garbage q = Some (r, q') \<and> uq_ok q' \<and> taken_units q' = taken_units q \<and>
    (r = None \<longleftrightarrow> \<not> success \<and> taken_units q = {..< m_iSize q}) \<and>
    (\<forall>u. r = Some u \<longrightarrow> u < m_iSize q' \<and> u \<notin> taken_units q') \<and>
    (\<exists>us. m_pUnits q' = m_pUnits q @ us)"
proof -
  define q1 where "q1 = (if m_iNumTaken q * 10 > int (m_iSize q) * 9 then snd (increase_units success garbage q) else q)"
  have ok: "uq_ok q1" using assms increase_units_ok by (simp add: q1_def)
  have tk: "taken_units q1 = taken_units q"
    by (auto simp: q1_def increase_units_def allocateEntry_def taken_units_append)
  have app: "\<exists>us. m_pUnits q1 = m_pUnits q @ us" by (auto simp: q1_def increase_units_def allocateEntry_def)
  have sz: "m_iSize q \<le> m_iSize q1" by (auto simp: q1_def increase_units_def allocateEntry_def)
  have num: "m_iNumTaken q1 = int (card (taken_units q))" using ok tk by (auto simp: uq_ok_def)
  have sub: "taken_units q \<subseteq> {..< m_iSize q}" using assms by (auto simp: taken_units_def uq_ok_def)
  have full: "m_iNumTaken q1 \<ge> int (m_iSize q1) \<longleftrightarrow> \<not> success \<and> taken_units q = {..< m_iSize q}"
  proof
    assume *: "m_iNumTaken q1 \<ge> int (m_iSize q1)"
    have card: "card (taken_units q) \<le> m_iSize q" using card_mono [OF _ sub] by simp
    then have "card (taken_units q) = card {..< m_iSize q}" "m_iSize q1 = m_iSize q" using * num sz by auto
    then have "taken_units q = {..< m_iSize q}" "m_iSize q1 = m_iSize q"
      using card_subset_eq [OF _ sub] by simp_all
    moreover from this have "\<not> success"
      using assms by (auto simp: q1_def increase_units_def allocateEntry_def uq_ok_def split: if_splits)
    ultimately show "\<not> success \<and> taken_units q = {..< m_iSize q}" by simp
  next
    assume *: "\<not> success \<and> taken_units q = {..< m_iSize q}"
    then have "m_iSize q1 = m_iSize q" by (auto simp: q1_def increase_units_def allocateEntry_def)
    then show "m_iNumTaken q1 \<ge> int (m_iSize q1)" using * num by simp
  qed
  show ?thesis
  proof (cases "m_iNumTaken q1 \<ge> int (m_iSize q1)")
    case True
    then have "getNextAvailUnit success garbage q = Some (None, q1)"
      by (simp add: getNextAvailUnit_def Let_def q1_def [symmetric])
    then show ?thesis using full True ok tk app by auto
  next
    case False
    then have e: "getNextAvailUnit success garbage q = avail_loop 0 q1"
      by (simp add: getNextAvailUnit_def Let_def q1_def [symmetric])
    have "\<not> {..< m_iSize q1} \<subseteq> taken_units q1"
      using False num tk card_mono [of "taken_units q1" "{..< m_iSize q1}"] by auto
    then obtain f where f: "f < m_iSize q1" "f \<notin> taken_units q1" by auto
    have "m_pAvailUnit q1 < m_iSize q1" using block_end(1) [OF ok] ok by (auto simp: uq_ok_def)
    then have "0 + ahead (m_iSize q1) (m_pAvailUnit q1) f < m_iSize q1" using f by (auto simp: ahead_def)
    moreover have "\<not> m_bTaken (m_pUnits q1 ! f)" using f ok by (auto simp: taken_units_def uq_ok_def)
    ultimately obtain u q' where "avail_loop 0 q1 = Some (Some u, q')" "u < m_iSize q1" "u \<notin> taken_units q1" "uq_ok q'"
      "m_pUnits q' = m_pUnits q1" "m_iSize q' = m_iSize q1"
      using avail_loop_finds [OF ok f(1)] by blast
    then show ?thesis using e full False tk app by (auto simp: taken_units_def)
  qed
qed

section \<open>Properties\<close>

text \<open>C36: The pool gives a unit as long as memory lasts.  On a consistent pool,
  \<^verbatim>\<open>getNextAvailUnit\<close> returns, keeps the pool consistent and takes nothing away; if it can
  allocate, or if not more than 90 percent of the units are taken, or if any unit is free, the unit it
  returns exists and is not taken.  It returns NULL exactly if every unit is taken and no
  block could be added.\<close>

theorem uq_gives_free_unit:
  assumes "uq_ok q"
  shows "\<exists>r q'. getNextAvailUnit success garbage q = Some (r, q') \<and> uq_ok q' \<and> taken_units q' = taken_units q \<and>
    (r = None \<longleftrightarrow> \<not> success \<and> taken_units q = {..< m_iSize q}) \<and>
    (\<forall>u. r = Some u \<longrightarrow> u < m_iSize q' \<and> u \<notin> taken_units q')"
  using getNextAvailUnit_spec [OF assms, of success garbage] by blast

definition uq_demo :: CUnitQueue where
  "uq_demo = (let p = \<lparr>m_nHeader = (\<lambda>_. 0), m_pcData = [], m_Length = 0\<rparr> in
     \<lparr>m_pUnits = [\<lparr>m_Packet = p, m_bTaken = True\<rparr>, \<lparr>m_Packet = p, m_bTaken = True\<rparr>],
       m_pCurrQueue = 0, m_pAvailUnit = 1, m_iSize = 2, m_iNumTaken = 2, m_iBlockSize = 2\<rparr>)"

lemma uq_demo_ok: "uq_ok uq_demo" "taken_units uq_demo = {0, 1}"
proof -
  show *: "taken_units uq_demo = {0, 1}"
    by (auto simp: taken_units_def uq_demo_def Let_def less_2_cases_iff)
  have "card (taken_units uq_demo) = 2" by (simp add: *)
  then show "uq_ok uq_demo" by (simp add: uq_ok_def) (simp add: uq_demo_def Let_def)
qed

lemma uq_gives_free_unit_witness:
  "\<exists>q' q''. getNextAvailUnit False undefined uq_demo = Some (None, q') \<and>
     (\<exists>u. getNextAvailUnit True undefined uq_demo = Some (Some u, q'') \<and> u \<notin> {0, 1})"
proof -
  have "{..< m_iSize uq_demo} = {0, 1}" by (auto simp: uq_demo_def Let_def)
  then show ?thesis
    using uq_gives_free_unit [OF uq_demo_ok(1), of False undefined] uq_gives_free_unit [OF uq_demo_ok(1), of True undefined]
    by (auto simp: uq_demo_ok)
qed

end
