(* ===== verification/RcvBuffer.thy ===== *)
theory RcvBuffer
  imports SeqNo UnitQueue Tsbpd
begin

text \<open>
  The receiver buffer: \<^verbatim>\<open>CRcvBuffer\<close> of \<^verbatim>\<open>srtcore/buffer_rcv.h\<close> and
  \<^verbatim>\<open>buffer_rcv.cpp\<close>, a ring of entries that hold packet units.

  Positions and offsets are natural numbers; \<open>m_iFirstReadableOutOfOrder\<close> keeps its \<open>- 1\<close>.  The shared
  unit pool is the field \<open>m_pUnitQueue\<close> of the state.  An index outside the ring (an exception of
  \<^verbatim>\<open>FixedArray\<close>), a null unit that is followed, a failed \<^verbatim>\<open>SRT_ASSERT\<close> and a
  loop that does not end are \<^term>\<open>None\<close>.  The moving average \<open>m_mavg\<close> of the statistics is left out.
\<close>

section \<open>State\<close>

datatype EntryStatus = EntryState_Empty | EntryState_Avail | EntryState_Read | EntryState_Drop

record Entry =
  pUnit :: "nat option"
  status :: EntryStatus

definition Entry_new :: Entry where
  "Entry_new = \<lparr>pUnit = None, status = EntryState_Empty\<rparr>"

record CRcvBuffer =
  m_entries :: "Entry list"
  m_szSize :: nat
  m_pUnitQueue :: CUnitQueue
  m_iStartSeqNo :: seqno
  m_iStartPos :: nat
  m_iFirstNonreadPos :: nat
  m_iMaxPosOff :: nat
  m_iNotch :: nat
  m_numOutOfOrderPackets :: nat
  m_iFirstReadableOutOfOrder :: int
  m_bPeerRexmitFlag :: bool
  m_bMessageAPI :: bool
  m_tsbpd :: CTsbpdTime
  m_iBytesCount :: int
  m_iPktsCount :: int
  m_uAvgPayloadSz :: nat

definition CRcvBuffer_new :: "seqno \<Rightarrow> nat \<Rightarrow> CUnitQueue \<Rightarrow> bool \<Rightarrow> CRcvBuffer option" where
  "CRcvBuffer_new initSeqNo sz unitqueue bMessageAPI =
     (if \<not> int sz < 2147483647 then None
      else Some \<lparr>m_entries = replicate sz Entry_new, m_szSize = sz, m_pUnitQueue = unitqueue,
        m_iStartSeqNo = initSeqNo, m_iStartPos = 0, m_iFirstNonreadPos = 0, m_iMaxPosOff = 0, m_iNotch = 0,
        m_numOutOfOrderPackets = 0, m_iFirstReadableOutOfOrder = - 1, m_bPeerRexmitFlag = True,
        m_bMessageAPI = bMessageAPI, m_tsbpd = CTsbpdTime_new, m_iBytesCount = 0, m_iPktsCount = 0,
        m_uAvgPayloadSz = 0\<rparr>)"

definition entry_at :: "CRcvBuffer \<Rightarrow> nat \<Rightarrow> Entry option" where
  "entry_at b pos = (if pos < length (m_entries b) then Some (m_entries b ! pos) else None)"

definition set_entry :: "nat \<Rightarrow> Entry \<Rightarrow> CRcvBuffer \<Rightarrow> CRcvBuffer" where
  "set_entry pos e b = b\<lparr>m_entries := (m_entries b)[pos := e]\<rparr>"

definition unit_packet :: "CRcvBuffer \<Rightarrow> nat \<Rightarrow> CPacket option" where
  "unit_packet b u = (let us = m_pUnits (m_pUnitQueue b) in if u < length us then Some (m_Packet (us ! u)) else None)"

definition packetAt :: "CRcvBuffer \<Rightarrow> nat \<Rightarrow> CPacket option" where
  "packetAt b pos = do { e \<leftarrow> entry_at b pos; u \<leftarrow> pUnit e; unit_packet b u }"

definition rb_msgseq :: "CRcvBuffer \<Rightarrow> CPacket \<Rightarrow> int" where
  "rb_msgseq b p = uint (getMsgSeq (m_bPeerRexmitFlag b) p)"

definition incPos :: "CRcvBuffer \<Rightarrow> nat \<Rightarrow> nat \<Rightarrow> nat" where
  "incPos b pos inc = (pos + inc) mod m_szSize b"

definition decPos :: "CRcvBuffer \<Rightarrow> nat \<Rightarrow> nat" where
  "decPos b pos = (if pos \<ge> 1 then pos - 1 else m_szSize b - 1)"

definition offPos :: "CRcvBuffer \<Rightarrow> nat \<Rightarrow> nat \<Rightarrow> nat" where
  "offPos b pos1 pos2 = (if pos2 \<ge> pos1 then pos2 - pos1 else m_szSize b + pos2 - pos1)"

definition rb_capacity :: "CRcvBuffer \<Rightarrow> nat" where
  "rb_capacity b = m_szSize b - 1"

definition rb_empty :: "CRcvBuffer \<Rightarrow> bool" where
  "rb_empty b \<longleftrightarrow> m_iMaxPosOff b = 0"

definition rb_full :: "CRcvBuffer \<Rightarrow> bool" where
  "rb_full b \<longleftrightarrow> m_iMaxPosOff b = rb_capacity b"

definition isTsbPd :: "CRcvBuffer \<Rightarrow> bool" where
  "isTsbPd b = m_bTsbPdMode (m_tsbpd b)"

definition isInRange :: "nat \<Rightarrow> nat \<Rightarrow> nat \<Rightarrow> nat \<Rightarrow> bool" where
  "isInRange iStartPos iMaxPosOff iSize iFirstNonreadPos =
     (if iFirstNonreadPos = iStartPos then True
      else let iLastPos = (iStartPos + iMaxPosOff) mod iSize; isOverrun = iLastPos < iStartPos
      in if isOverrun then iFirstNonreadPos > iStartPos \<or> iFirstNonreadPos \<le> iLastPos
         else iFirstNonreadPos > iStartPos \<and> iFirstNonreadPos \<le> iLastPos)"

definition hasReadableInorderPkts :: "CRcvBuffer \<Rightarrow> bool" where
  "hasReadableInorderPkts b \<longleftrightarrow> m_iFirstNonreadPos b \<noteq> m_iStartPos b"

definition getRcvDataSize :: "CRcvBuffer \<Rightarrow> nat" where
  "getRcvDataSize b =
     (if m_iFirstNonreadPos b \<ge> m_iStartPos b then m_iFirstNonreadPos b - m_iStartPos b
      else m_szSize b + m_iFirstNonreadPos b - m_iStartPos b)"

section \<open>Counters, units and fillers\<close>

definition avg_iir :: "nat \<Rightarrow> nat \<Rightarrow> nat \<Rightarrow> nat" where
  "avg_iir DEPRLEN old_value new_value = (old_value * (DEPRLEN - 1) + new_value) div DEPRLEN"

definition countBytes :: "int \<Rightarrow> int \<Rightarrow> CRcvBuffer \<Rightarrow> CRcvBuffer" where
  "countBytes pkts bytes b =
     (let b = b\<lparr>m_iBytesCount := m_iBytesCount b + bytes, m_iPktsCount := m_iPktsCount b + pkts\<rparr>
      in if bytes > 0 then
           (if m_uAvgPayloadSz b = 0 then b\<lparr>m_uAvgPayloadSz := nat bytes\<rparr>
            else b\<lparr>m_uAvgPayloadSz := avg_iir 100 (m_uAvgPayloadSz b) (nat bytes)\<rparr>)
         else b)"

definition updateTsbPdTimeBase :: "int \<Rightarrow> CRcvBuffer \<Rightarrow> CRcvBuffer" where
  "updateTsbPdTimeBase usPktTimestamp b = b\<lparr>m_tsbpd := updateBaseTime usPktTimestamp (m_tsbpd b)\<rparr>"

definition getPktTsbPdTime :: "int \<Rightarrow> CRcvBuffer \<Rightarrow> int" where
  "getPktTsbPdTime usPktTimestamp b = getPktTime usPktTimestamp (m_tsbpd b)"

definition releaseUnitInPos :: "nat \<Rightarrow> CRcvBuffer \<Rightarrow> CRcvBuffer option" where
  "releaseUnitInPos pos b = do {
     e \<leftarrow> entry_at b pos;
     let b = set_entry pos Entry_new b;
     case pUnit e of
       None \<Rightarrow> Some b
     | Some u \<Rightarrow> do { q \<leftarrow> makeUnitFree u (m_pUnitQueue b); Some (b\<lparr>m_pUnitQueue := q\<rparr>) } }"

text \<open>The unsigned counter wraps below zero.\<close>

definition dec_size_t :: "nat \<Rightarrow> nat" where
  "dec_size_t n = (if n = 0 then 2 ^ 64 - 1 else n - 1)"

text \<open>What \<^verbatim>\<open>dropUnitInPos\<close> does for the packet before its unit is released.\<close>

definition forget_packet :: "CPacket \<Rightarrow> nat \<Rightarrow> CRcvBuffer \<Rightarrow> CRcvBuffer" where
  "forget_packet p pos b =
     (if isTsbPd b then updateTsbPdTimeBase (getMsgTimeStamp p) b
      else if m_bMessageAPI b \<and> \<not> getMsgOrderFlag p then
        (let b = b\<lparr>m_numOutOfOrderPackets := dec_size_t (m_numOutOfOrderPackets b)\<rparr>
         in if int pos = m_iFirstReadableOutOfOrder b then b\<lparr>m_iFirstReadableOutOfOrder := - 1\<rparr> else b)
      else b)"

definition dropUnitInPos :: "nat \<Rightarrow> CRcvBuffer \<Rightarrow> (bool \<times> CRcvBuffer) option" where
  "dropUnitInPos pos b = do {
     e \<leftarrow> entry_at b pos;
     if pUnit e = None then Some (False, b)
     else do {
       p \<leftarrow> packetAt b pos;
       b \<leftarrow> releaseUnitInPos pos (forget_packet p pos b);
       Some (True, b) } }"

partial_function (option) release_fillers :: "nat \<Rightarrow> CRcvBuffer \<Rightarrow> CRcvBuffer option" where
  "release_fillers pos b = do {
     e \<leftarrow> entry_at b pos;
     if status e = EntryState_Read \<or> status e = EntryState_Drop then do {
       b \<leftarrow> releaseUnitInPos pos (b\<lparr>m_iStartSeqNo := incseq (m_iStartSeqNo b)\<rparr>);
       let pos = incPos b pos 1;
       release_fillers pos (b\<lparr>m_iStartPos := pos, m_iMaxPosOff := m_iMaxPosOff b - 1\<rparr>) }
     else Some b }"

declare release_fillers.simps [code]

definition releaseNextFillerEntries :: "CRcvBuffer \<Rightarrow> CRcvBuffer option" where
  "releaseNextFillerEntries b = release_fillers (m_iStartPos b) b"

text \<open>\<^verbatim>\<open>updateNonreadPos\<close>: the inner loop from \<open>i\<close>, then the outer one from \<open>pos\<close>.\<close>

partial_function (option) nonread_scan :: "nat \<Rightarrow> nat \<Rightarrow> nat \<Rightarrow> CRcvBuffer \<Rightarrow> CRcvBuffer option" where
  "nonread_scan end_pos pos i b =
     (if i = end_pos then Some b
      else do {
        ei \<leftarrow> entry_at b i;
        ep \<leftarrow> entry_at b pos;
        if pUnit ei = None \<or> status ep \<noteq> EntryState_Avail then Some b
        else do {
          p \<leftarrow> packetAt b i;
          if \<not> m_bMessageAPI b \<or> is_last p then Some (b\<lparr>m_iFirstNonreadPos := incPos b i 1\<rparr>)
          else nonread_scan end_pos pos (incPos b i 1) b } })"

declare nonread_scan.simps [code]

partial_function (option) nonread_loop :: "nat \<Rightarrow> nat \<Rightarrow> CRcvBuffer \<Rightarrow> CRcvBuffer option" where
  "nonread_loop end_pos pos b = do {
     e \<leftarrow> entry_at b pos;
     if pUnit e \<noteq> None \<and> status e = EntryState_Avail then do {
       p \<leftarrow> packetAt b pos;
       if m_bMessageAPI b \<and> \<not> is_first p then Some b
       else do {
         b \<leftarrow> nonread_scan end_pos pos pos b;
         if pos = m_iFirstNonreadPos b then Some b
         else do {
           e \<leftarrow> entry_at b (m_iFirstNonreadPos b);
           if pUnit e = None then Some b
           else nonread_loop end_pos (m_iFirstNonreadPos b) b } } }
     else Some b }"

declare nonread_loop.simps [code]

definition updateNonreadPos :: "CRcvBuffer \<Rightarrow> CRcvBuffer option" where
  "updateNonreadPos b =
     (if m_iMaxPosOff b = 0 then Some b
      else nonread_loop (incPos b (m_iStartPos b) (m_iMaxPosOff b)) (m_iFirstNonreadPos b) b)"

section \<open>Messages that may be read out of order\<close>

partial_function (option) scan_right :: "CRcvBuffer \<Rightarrow> nat \<Rightarrow> nat \<Rightarrow> int \<Rightarrow> int option" where
  "scan_right b lastPos pos0 msgNo = (
     let pos = incPos b pos0 1 in do {
     e \<leftarrow> entry_at b pos;
     if pUnit e = None then Some (- 1)
     else do {
       p \<leftarrow> packetAt b pos;
       if rb_msgseq b p \<noteq> msgNo then Some (- 1)
       else if is_last p then Some (int pos)
       else if pos \<noteq> lastPos then scan_right b lastPos pos msgNo
       else Some (- 1) } })"

declare scan_right.simps [code]

definition scanNotInOrderMessageRight :: "CRcvBuffer \<Rightarrow> nat \<Rightarrow> int \<Rightarrow> int option" where
  "scanNotInOrderMessageRight b startPos msgNo =
     (let lastPos = (m_iStartPos b + m_iMaxPosOff b - 1) mod m_szSize b
      in if startPos = lastPos then Some (- 1) else scan_right b lastPos startPos msgNo)"

partial_function (option) scan_left :: "CRcvBuffer \<Rightarrow> nat \<Rightarrow> int \<Rightarrow> int option" where
  "scan_left b pos0 msgNo = (
     let pos = decPos b pos0 in do {
     e \<leftarrow> entry_at b pos;
     if pUnit e = None then Some (- 1)
     else do {
       p \<leftarrow> packetAt b pos;
       if rb_msgseq b p \<noteq> msgNo then Some (- 1)
       else if is_first p then Some (int pos)
       else if pos \<noteq> m_iStartPos b then scan_left b pos msgNo
       else Some (- 1) } })"

declare scan_left.simps [code]

definition scanNotInOrderMessageLeft :: "CRcvBuffer \<Rightarrow> nat \<Rightarrow> int \<Rightarrow> int option" where
  "scanNotInOrderMessageLeft b startPos msgNo =
     (if startPos = m_iStartPos b then Some (- 1) else scan_left b startPos msgNo)"

definition onInsertNotInOrderPacket :: "nat \<Rightarrow> CRcvBuffer \<Rightarrow> CRcvBuffer option" where
  "onInsertNotInOrderPacket insertPos b =
     (if m_numOutOfOrderPackets b = 0 then Some b
      else if m_iFirstReadableOutOfOrder b \<ge> 0 then Some b
      else if \<not> m_iMaxPosOff b > 0 then None
      else do {
        pkt \<leftarrow> packetAt b insertPos;
        let msgNo = rb_msgseq b pkt;
        hasLast \<leftarrow> (if is_last pkt then Some True
                    else do { r \<leftarrow> scanNotInOrderMessageRight b insertPos msgNo; Some (- 1 < r) });
        if \<not> hasLast then Some b
        else do {
          firstPktPos \<leftarrow> (if is_first pkt then Some (int insertPos)
                          else scanNotInOrderMessageLeft b insertPos msgNo);
          if firstPktPos < 0 then Some b
          else Some (b\<lparr>m_iFirstReadableOutOfOrder := firstPktPos\<rparr>) } })"

partial_function (option) check_readable :: "CRcvBuffer \<Rightarrow> nat \<Rightarrow> nat \<Rightarrow> int \<Rightarrow> bool option" where
  "check_readable b endPos pos msgno =
     (if pos = endPos then Some False
      else do {
        e \<leftarrow> entry_at b pos;
        if pUnit e = None then Some False
        else do {
          pkt \<leftarrow> packetAt b pos;
          if getMsgOrderFlag pkt then Some False
          else if msgno \<noteq> - 1 \<and> msgno \<noteq> rb_msgseq b pkt then Some False
          else if is_last pkt then Some True
          else check_readable b endPos (incPos b pos 1) (if msgno = - 1 then rb_msgseq b pkt else msgno) } })"

declare check_readable.simps [code]

definition checkFirstReadableOutOfOrder :: "CRcvBuffer \<Rightarrow> bool option" where
  "checkFirstReadableOutOfOrder b =
     (if m_numOutOfOrderPackets b = 0 \<or> m_iFirstReadableOutOfOrder b < 0 \<or> m_iMaxPosOff b = 0 then Some False
      else check_readable b (incPos b (m_iStartPos b) (m_iMaxPosOff b)) (nat (m_iFirstReadableOutOfOrder b)) (- 1))"

text \<open>The search loop; \<open>posLast\<close>, which is never used, is left out.\<close>

partial_function (option) find_readable ::
    "nat \<Rightarrow> nat \<Rightarrow> int \<Rightarrow> int \<Rightarrow> nat \<Rightarrow> CRcvBuffer \<Rightarrow> CRcvBuffer option" where
  "find_readable lastPos pos posFirst msgNo outOfOrderPktsRemain b =
     (if outOfOrderPktsRemain = 0 then Some b
      else do {
        e \<leftarrow> entry_at b pos;
        if pUnit e = None then find_readable lastPos (incPos b pos 1) (- 1) (- 1) outOfOrderPktsRemain b
        else do {
          pkt \<leftarrow> packetAt b pos;
          if getMsgOrderFlag pkt then find_readable lastPos (incPos b pos 1) (- 1) (- 1) outOfOrderPktsRemain b
          else let outOfOrderPktsRemain = outOfOrderPktsRemain - 1;
                   posFirst = (if is_first pkt then int pos else posFirst);
                   msgNo = (if is_first pkt then rb_msgseq b pkt else msgNo) in
            if rb_msgseq b pkt \<noteq> msgNo then
              find_readable lastPos (incPos b pos 1) (- 1) (- 1) outOfOrderPktsRemain b
            else if is_last pkt then Some (b\<lparr>m_iFirstReadableOutOfOrder := posFirst\<rparr>)
            else if pos = lastPos then Some b
            else find_readable lastPos (incPos b pos 1) posFirst msgNo outOfOrderPktsRemain b } })"

declare find_readable.simps [code]

definition updateFirstReadableOutOfOrder :: "CRcvBuffer \<Rightarrow> CRcvBuffer option" where
  "updateFirstReadableOutOfOrder b =
     (if hasReadableInorderPkts b \<or> m_numOutOfOrderPackets b = 0 \<or> m_iFirstReadableOutOfOrder b \<ge> 0 then Some b
      else if m_iMaxPosOff b = 0 then Some b
      else find_readable ((m_iStartPos b + m_iMaxPosOff b - 1) mod m_szSize b) (m_iStartPos b) (- 1) (- 1)
             (m_numOutOfOrderPackets b) b)"

section \<open>Insertion\<close>

definition rb_insert :: "nat \<Rightarrow> CRcvBuffer \<Rightarrow> (int \<times> CRcvBuffer) option" where
  "rb_insert unit b0 = do {
     pkt \<leftarrow> unit_packet b0 unit;
     let seqno = getSeqNo pkt;
     let offset = seqoff (m_iStartSeqNo b0) seqno;
     if offset < 0 then Some (- 2, b0)
     else if offset \<ge> int (rb_capacity b0) then Some (- 3, b0)
     else if \<not> (m_iStartPos b0 + nat offset) div m_szSize b0 < 2 then None
     else let pos = (m_iStartPos b0 + nat offset) mod m_szSize b0;
              b = (if nat offset \<ge> m_iMaxPosOff b0 then b0\<lparr>m_iMaxPosOff := nat offset + 1\<rparr> else b0) in do {
       e \<leftarrow> entry_at b pos;
       if status e \<noteq> EntryState_Empty then Some (- 1, b)
       else if pUnit e \<noteq> None then None
       else do {
         q \<leftarrow> makeUnitTaken unit (m_pUnitQueue b);
         let b = set_entry pos \<lparr>pUnit = Some unit, status = EntryState_Avail\<rparr> (b\<lparr>m_pUnitQueue := q\<rparr>);
         let b = countBytes 1 (int (m_Length pkt)) b;
         b \<leftarrow> (if \<not> isTsbPd b \<and> m_bMessageAPI b \<and> \<not> getMsgOrderFlag pkt
               then onInsertNotInOrderPacket pos (b\<lparr>m_numOutOfOrderPackets := m_numOutOfOrderPackets b + 1\<rparr>)
               else Some b);
         b \<leftarrow> updateNonreadPos b;
         Some (0, b) } } }"

section \<open>Dropping\<close>

fun drop_entries :: "nat \<Rightarrow> nat \<Rightarrow> nat \<Rightarrow> CRcvBuffer \<Rightarrow> (nat \<times> nat \<times> CRcvBuffer) option" where
  "drop_entries 0 iNumDropped iNumDiscarded b = Some (iNumDropped, iNumDiscarded, b)"
| "drop_entries (Suc len) iNumDropped iNumDiscarded b = do {
     e \<leftarrow> entry_at b (m_iStartPos b);
     let iNumDiscarded' = (if status e = EntryState_Avail then iNumDiscarded + 1 else iNumDiscarded);
     let iNumDropped' = (if status e \<noteq> EntryState_Avail \<and> status e = EntryState_Empty
                         then iNumDropped + 1 else iNumDropped);
     (_, b) \<leftarrow> dropUnitInPos (m_iStartPos b) b;
     e \<leftarrow> entry_at b (m_iStartPos b);
     let b = set_entry (m_iStartPos b) (e\<lparr>status := EntryState_Empty\<rparr>) b;
     if pUnit e \<noteq> None then None
     else drop_entries len iNumDropped' iNumDiscarded' (b\<lparr>m_iStartPos := incPos b (m_iStartPos b) 1\<rparr>) }"

text \<open>What \<^verbatim>\<open>dropUpTo\<close> does once the positions have moved.\<close>

definition drop_finish :: "CRcvBuffer \<Rightarrow> CRcvBuffer option" where
  "drop_finish b = do {
     b \<leftarrow> releaseNextFillerEntries b;
     b \<leftarrow> (if \<not> isInRange (m_iStartPos b) (m_iMaxPosOff b) (m_szSize b) (m_iFirstNonreadPos b)
           then updateNonreadPos (b\<lparr>m_iFirstNonreadPos := m_iStartPos b\<rparr>) else Some b);
     if \<not> isTsbPd b \<and> m_bMessageAPI b then updateFirstReadableOutOfOrder b else Some b }"

definition dropUpTo :: "seqno \<Rightarrow> CRcvBuffer \<Rightarrow> ((nat \<times> nat) \<times> CRcvBuffer) option" where
  "dropUpTo seqno b0 =
     (let len = seqoff (m_iStartSeqNo b0) seqno in
      if len \<le> 0 then Some ((0, 0), b0)
      else do {
        (iNumDropped, iNumDiscarded, b) \<leftarrow>
          drop_entries (nat len) 0 0 (b0\<lparr>m_iMaxPosOff := m_iMaxPosOff b0 - nat len\<rparr>);
        b \<leftarrow> drop_finish (b\<lparr>m_iStartSeqNo := seqno\<rparr>);
        Some ((iNumDropped, iNumDiscarded), b) })"

definition dropAll :: "CRcvBuffer \<Rightarrow> (nat \<times> CRcvBuffer) option" where
  "dropAll b =
     (if rb_empty b then Some (0, b)
      else let end_seqno = incseq_by (m_iStartSeqNo b) (int (m_iMaxPosOff b)) in do {
        ((d1, d2), b) \<leftarrow> dropUpTo end_seqno b;
        Some (d1 + d2, b) })"

datatype DropActionIfExists = DROP_EXISTING | KEEP_EXISTING

text \<open>The state of the loops of \<^verbatim>\<open>dropMessage\<close>: \<open>bDropByMsgNo\<close>, \<open>minDroppedOffset\<close>, \<open>iDropCnt\<close>.
  The packet's message number is only logged in the first loop.\<close>

definition drop_one :: "nat \<Rightarrow> CRcvBuffer \<Rightarrow> CRcvBuffer option" where
  "drop_one i b = do {
     (_, b) \<leftarrow> dropUnitInPos i b;
     e \<leftarrow> entry_at b i;
     Some (set_entry i (e\<lparr>status := EntryState_Drop\<rparr>) b) }"

partial_function (option) drop_range ::
    "bool \<Rightarrow> nat \<Rightarrow> nat \<Rightarrow> bool \<times> int \<times> nat \<Rightarrow> CRcvBuffer \<Rightarrow> ((bool \<times> int \<times> nat) \<times> CRcvBuffer) option" where
  "drop_range bKeepExisting end_pos i st b =
     (case st of (bDropByMsgNo, minDroppedOffset, iDropCnt) \<Rightarrow>
      if i = end_pos then Some (st, b)
      else do {
        e \<leftarrow> entry_at b i;
        if status e = EntryState_Drop then drop_range bKeepExisting end_pos (incPos b i 1) st b
        else do {
          (skip, bDropByMsgNo) \<leftarrow>
            (if pUnit e = None then Some (False, bDropByMsgNo)
             else do {
               p \<leftarrow> packetAt b i;
               let bnd = getMsgBoundary p;
               if bKeepExisting \<and> bnd = boundary_code PB_SOLO then Some (True, False)
               else Some (False, bDropByMsgNo \<and> bnd \<noteq> boundary_code PB_FIRST) });
          if skip then drop_range bKeepExisting end_pos (incPos b i 1) (bDropByMsgNo, minDroppedOffset, iDropCnt) b
          else do {
            b \<leftarrow> drop_one i b;
            let minDroppedOffset = (if minDroppedOffset = - 1 then int (offPos b (m_iStartPos b) i) else minDroppedOffset);
            drop_range bKeepExisting end_pos (incPos b i 1) (bDropByMsgNo, minDroppedOffset, iDropCnt + 1) b } } })"

declare drop_range.simps [code]

partial_function (option) drop_backwards ::
    "bool \<Rightarrow> int \<Rightarrow> nat \<Rightarrow> nat \<Rightarrow> int \<times> nat \<Rightarrow> CRcvBuffer \<Rightarrow> ((int \<times> nat) \<times> CRcvBuffer) option" where
  "drop_backwards bKeepExisting msgno stop_pos i st b =
     (case st of (minDroppedOffset, iDropCnt) \<Rightarrow>
      if i = stop_pos then Some (st, b)
      else do {
        e \<leftarrow> entry_at b i;
        if pUnit e = None then drop_backwards bKeepExisting msgno stop_pos (decPos b i) st b
        else do {
          p \<leftarrow> packetAt b i;
          let bnd = getMsgBoundary p;
          if rb_msgseq b p \<noteq> msgno then Some (st, b)
          else if bKeepExisting \<and> bnd = boundary_code PB_SOLO then Some (st, b)
          else do {
            b \<leftarrow> drop_one i b;
            let st = (int (offPos b (m_iStartPos b) i), iDropCnt + 1);
            if bnd = boundary_code PB_FIRST then Some (st, b)
            else drop_backwards bKeepExisting msgno stop_pos (decPos b i) st b } } })"

declare drop_backwards.simps [code]

text \<open>What \<^verbatim>\<open>dropMessage\<close> does after the loops.\<close>

definition drop_message_finish :: "int \<Rightarrow> CRcvBuffer \<Rightarrow> CRcvBuffer option" where
  "drop_message_finish minDroppedOffset b0 = do {
     let needUpdateNonreadPos = (minDroppedOffset \<noteq> - 1 \<and> minDroppedOffset \<le> int (getRcvDataSize b0));
     b \<leftarrow> releaseNextFillerEntries b0;
     b \<leftarrow> (if needUpdateNonreadPos then updateNonreadPos (b\<lparr>m_iFirstNonreadPos := m_iStartPos b\<rparr>) else Some b);
     if \<not> isTsbPd b \<and> m_bMessageAPI b then do {
       ok \<leftarrow> checkFirstReadableOutOfOrder b;
       updateFirstReadableOutOfOrder (if ok then b else b\<lparr>m_iFirstReadableOutOfOrder := - 1\<rparr>) }
     else Some b }"

definition dropMessage ::
    "seqno \<Rightarrow> seqno \<Rightarrow> int \<Rightarrow> DropActionIfExists \<Rightarrow> CRcvBuffer \<Rightarrow> (nat \<times> CRcvBuffer) option" where
  "dropMessage seqnolo seqnohi msgno actionOnExisting b0 =
     (let offset_a = seqoff (m_iStartSeqNo b0) seqnolo; offset_b = seqoff (m_iStartSeqNo b0) seqnohi in
      if offset_b < 0 \<or> offset_a \<ge> int (m_szSize b0) then Some (0, b0)
      else let bKeepExisting = (actionOnExisting = KEEP_EXISTING);
               start_pos = incPos b0 (m_iStartPos b0) (nat (max 0 offset_a));
               end_pos = incPos b0 (m_iStartPos b0) (nat (min (int (m_szSize b0) - 1) (offset_b + 1))) in do {
        ((bDropByMsgNo, minDroppedOffset, iDropCnt), b) \<leftarrow>
          drop_range bKeepExisting end_pos start_pos (msgno > SRT_MSGNO_CONTROL, - 1, 0) b0;
        ((minDroppedOffset, iDropCnt), b) \<leftarrow>
          (if bDropByMsgNo
           then drop_backwards bKeepExisting msgno (decPos b (m_iStartPos b)) start_pos (minDroppedOffset, iDropCnt) b
           else Some ((minDroppedOffset, iDropCnt), b));
        b \<leftarrow> drop_message_finish minDroppedOffset b;
        Some (iDropCnt, b) })"

section \<open>Reading\<close>

text \<open>The state of the loop of \<^verbatim>\<open>readMessage\<close>: the bytes written to \<^verbatim>\<open>data\<close>, \<open>remain\<close>,
  \<open>pkts_read\<close>, \<open>bytes_extracted\<close> and the message control data, \<^term>\<open>None\<close> for a null pointer.
  The null-unit branch after the assertion on the same condition is never taken.\<close>

record read_state =
  rs_data :: "byte list"
  rs_remain :: nat
  rs_pkts_read :: nat
  rs_bytes_extracted :: nat
  rs_msgctrl :: "SRT_MSGCTRL option"

definition read_msgctrl :: "CRcvBuffer \<Rightarrow> CPacket \<Rightarrow> SRT_MSGCTRL \<Rightarrow> SRT_MSGCTRL" where
  "read_msgctrl b packet m =
     (let m = (if is_first packet then m\<lparr>mc_msgno := rb_msgseq b packet\<rparr> else m);
          m = (if is_last packet then m\<lparr>mc_srctime := getPktTsbPdTime (getMsgTimeStamp packet) b\<rparr> else m)
      in m\<lparr>mc_pktseq := getSeqNo packet\<rparr>)"

definition read_packet :: "bool \<Rightarrow> nat \<Rightarrow> read_state \<Rightarrow> CRcvBuffer \<Rightarrow> (bool \<times> read_state \<times> CRcvBuffer) option" where
  "read_packet updateStartPos i rs b = do {
     packet \<leftarrow> packetAt b i;
     let pktsize = m_Length packet;
     let unitsize = min (rs_remain rs) pktsize;
     if length (m_pcData packet) < unitsize then None
     else do {
       let rs = rs\<lparr>rs_data := rs_data rs @ take unitsize (m_pcData packet), rs_remain := rs_remain rs - unitsize,
                  rs_pkts_read := rs_pkts_read rs + 1, rs_bytes_extracted := rs_bytes_extracted rs + pktsize\<rparr>;
       let b = (if isTsbPd b then updateTsbPdTimeBase (getMsgTimeStamp packet) b else b);
       let b = (if m_numOutOfOrderPackets b \<noteq> 0 \<and> \<not> getMsgOrderFlag packet
                then b\<lparr>m_numOutOfOrderPackets := m_numOutOfOrderPackets b - 1\<rparr> else b);
       let rs = rs\<lparr>rs_msgctrl := map_option (read_msgctrl b packet) (rs_msgctrl rs)\<rparr>;
       b \<leftarrow> releaseUnitInPos i b;
       b \<leftarrow> (if updateStartPos then
               (if m_iMaxPosOff b = 0 then None
                else Some (b\<lparr>m_iStartPos := incPos b i 1, m_iMaxPosOff := m_iMaxPosOff b - 1,
                        m_iStartSeqNo := incseq (getSeqNo packet)\<rparr>))
             else do {
               e \<leftarrow> entry_at b i;
               Some (set_entry i (e\<lparr>status := EntryState_Read\<rparr>) b) });
       Some (is_last packet, rs, b) } }"

partial_function (option) read_loop ::
    "bool \<Rightarrow> nat \<Rightarrow> nat \<Rightarrow> read_state \<Rightarrow> CRcvBuffer \<Rightarrow> (read_state \<times> CRcvBuffer) option" where
  "read_loop updateStartPos readPos i rs b = do {
     (pbLast, rs, b) \<leftarrow> read_packet updateStartPos i rs b;
     if pbLast then
       Some (rs, if int readPos = m_iFirstReadableOutOfOrder b then b\<lparr>m_iFirstReadableOutOfOrder := - 1\<rparr> else b)
     else read_loop updateStartPos readPos (incPos b i 1) rs b }"

declare read_loop.simps [code]

definition readMessage ::
    "nat \<Rightarrow> SRT_MSGCTRL option \<Rightarrow> CRcvBuffer \<Rightarrow> (byte list \<times> SRT_MSGCTRL option \<times> CRcvBuffer) option" where
  "readMessage len msgctrl b0 =
     (let canReadInOrder = hasReadableInorderPkts b0 in
      if \<not> canReadInOrder \<and> m_iFirstReadableOutOfOrder b0 < 0 then Some ([], msgctrl, b0)
      else let readPos = (if canReadInOrder then m_iStartPos b0 else nat (m_iFirstReadableOutOfOrder b0));
               updateStartPos = (readPos = m_iStartPos b0) in do {
        (rs, b) \<leftarrow> read_loop updateStartPos readPos readPos
          \<lparr>rs_data = [], rs_remain = len, rs_pkts_read = 0, rs_bytes_extracted = 0, rs_msgctrl = msgctrl\<rparr> b0;
        let b = countBytes (- int (rs_pkts_read rs)) (- int (rs_bytes_extracted rs)) b;
        b \<leftarrow> releaseNextFillerEntries b;
        let b = (if \<not> isInRange (m_iStartPos b) (m_iMaxPosOff b) (m_szSize b) (m_iFirstNonreadPos b)
                 then b\<lparr>m_iFirstNonreadPos := m_iStartPos b\<rparr> else b);
        b \<leftarrow> (if \<not> isTsbPd b then updateFirstReadableOutOfOrder b else Some b);
        Some (rs_data rs, rs_msgctrl rs, b) })"

text \<open>The destination of \<^verbatim>\<open>readBufferTo\<close> is a state of any type; the function it gets writes bytes
  at an offset and may fail.  The two the code passes: the copy into a memory buffer, \<^term>\<open>None\<close> if it
  would go past its end, and the write to a file stream, whose failure is the argument.\<close>

type_synonym 'd copy_to_dst = "byte list \<Rightarrow> nat \<Rightarrow> 'd \<Rightarrow> (bool \<times> 'd) option"

definition copyBytesToBuf :: "byte list copy_to_dst" where
  "copyBytesToBuf dat dst_offset dst =
     (if dst_offset + length dat \<le> length dst
      then Some (True, take dst_offset dst @ dat @ drop (dst_offset + length dat) dst) else None)"

definition writeBytesToFile :: "(byte list \<Rightarrow> byte list \<Rightarrow> bool) \<Rightarrow> byte list copy_to_dst" where
  "writeBytesToFile stream_ok dat dst_offset ofs =
     (if stream_ok ofs dat then Some (True, ofs @ dat) else Some (False, ofs))"

partial_function (option) read_buffer_loop ::
    "'d copy_to_dst \<Rightarrow> int \<Rightarrow> bool \<Rightarrow> nat \<Rightarrow> nat \<Rightarrow> nat \<Rightarrow> nat \<Rightarrow> 'd \<Rightarrow> CRcvBuffer \<Rightarrow> (nat option \<times> 'd \<times> CRcvBuffer) option" where
  "read_buffer_loop copy now bTsbPdEnabled end_pos len p rs d b =
     (if \<not> (p \<noteq> end_pos \<and> rs > 0) then Some (Some rs, d, b)
      else do {
        e \<leftarrow> entry_at b p;
        if pUnit e = None then Some (None, d, b)
        else do {
          pkt \<leftarrow> packetAt b p;
          if bTsbPdEnabled \<and> getPktTsbPdTime (getMsgTimeStamp pkt) b > now then Some (Some rs, d, b)
          else do {
            let pktlen = m_Length pkt;
            let remain_pktlen = pktlen - m_iNotch b;
            let unitsize = min remain_pktlen rs;
            if pktlen < m_iNotch b \<or> length (m_pcData pkt) < m_iNotch b + unitsize then None
            else do {
              (ok, d) \<leftarrow> copy (take unitsize (drop (m_iNotch b) (m_pcData pkt))) (len - rs) d;
              if \<not> ok then Some (Some rs, d, b)
              else if rs \<ge> remain_pktlen then do {
                b \<leftarrow> releaseUnitInPos p b;
                let p = incPos b p 1;
                if m_iMaxPosOff b = 0 then None
                else read_buffer_loop copy now bTsbPdEnabled end_pos len p (rs - unitsize) d
                  (b\<lparr>m_iNotch := 0, m_iStartPos := p, m_iMaxPosOff := m_iMaxPosOff b - 1,
                     m_iStartSeqNo := incseq (m_iStartSeqNo b)\<rparr>) }
              else read_buffer_loop copy now bTsbPdEnabled end_pos len p (rs - unitsize) d
                  (b\<lparr>m_iNotch := m_iNotch b + rs\<rparr>) } } } })"

declare read_buffer_loop.simps [code]

definition readBufferTo ::
    "'d copy_to_dst \<Rightarrow> int \<Rightarrow> nat \<Rightarrow> 'd \<Rightarrow> CRcvBuffer \<Rightarrow> (int \<times> 'd \<times> CRcvBuffer) option" where
  "readBufferTo copy now len d b0 = do {
     (rs, d, b) \<leftarrow> read_buffer_loop copy now (isTsbPd b0) (m_iFirstNonreadPos b0) len (m_iStartPos b0) len d b0;
     case rs of
       None \<Rightarrow> Some (- 1, d, b)
     | Some rs \<Rightarrow> (let iBytesRead = len - rs; b = countBytes (- 1) (- int iBytesRead) b;
          b = (if \<not> isInRange (m_iStartPos b) (m_iMaxPosOff b) (m_szSize b) (m_iFirstNonreadPos b)
               then b\<lparr>m_iFirstNonreadPos := m_iStartPos b\<rparr> else b)
          in Some (int iBytesRead, d, b)) }"

definition readBuffer :: "int \<Rightarrow> nat \<Rightarrow> byte list \<Rightarrow> CRcvBuffer \<Rightarrow> (int \<times> byte list \<times> CRcvBuffer) option" where
  "readBuffer now len dst b = readBufferTo copyBytesToBuf now len dst b"

definition readBufferToFile ::
    "(byte list \<Rightarrow> byte list \<Rightarrow> bool) \<Rightarrow> int \<Rightarrow> nat \<Rightarrow> byte list \<Rightarrow> CRcvBuffer \<Rightarrow> (int \<times> byte list \<times> CRcvBuffer) option" where
  "readBufferToFile stream_ok now len ofs b = readBufferTo (writeBytesToFile stream_ok) now len ofs b"

section \<open>Queries\<close>

definition hasAvailablePackets :: "CRcvBuffer \<Rightarrow> bool" where
  "hasAvailablePackets b \<longleftrightarrow>
     hasReadableInorderPkts b \<or> m_numOutOfOrderPackets b > 0 \<and> m_iFirstReadableOutOfOrder b \<noteq> - 1"

partial_function (option) last_unit_pos :: "CRcvBuffer \<Rightarrow> nat \<Rightarrow> nat option" where
  "last_unit_pos b lastpos = do {
     e \<leftarrow> entry_at b lastpos;
     if pUnit e = None \<and> lastpos \<noteq> m_iStartPos b then last_unit_pos b (decPos b lastpos) else Some lastpos }"

declare last_unit_pos.simps [code]

partial_function (option) first_unit_pos :: "CRcvBuffer \<Rightarrow> nat \<Rightarrow> nat \<Rightarrow> nat option" where
  "first_unit_pos b lastpos startpos = do {
     e \<leftarrow> entry_at b startpos;
     if pUnit e = None \<and> startpos \<noteq> lastpos then first_unit_pos b lastpos (incPos b startpos 1) else Some startpos }"

declare first_unit_pos.simps [code]

definition getTimespan_ms :: "CRcvBuffer \<Rightarrow> int option" where
  "getTimespan_ms b =
     (if \<not> isTsbPd b then Some 0
      else if m_iMaxPosOff b = 0 then Some 0
      else do {
        let lastpos = incPos b (m_iStartPos b) (m_iMaxPosOff b - 1);
        e \<leftarrow> entry_at b lastpos;
        if \<not> (pUnit e \<noteq> None \<or> status e = EntryState_Drop) then None
        else do {
          lastpos \<leftarrow> last_unit_pos b lastpos;
          e \<leftarrow> entry_at b lastpos;
          if pUnit e = None then Some 0
          else do {
            startpos \<leftarrow> first_unit_pos b lastpos (m_iStartPos b);
            e \<leftarrow> entry_at b startpos;
            if pUnit e = None then Some 0
            else do {
              p \<leftarrow> packetAt b startpos;
              q \<leftarrow> packetAt b lastpos;
              let startstamp = getPktTsbPdTime (getMsgTimeStamp p) b;
              let endstamp = getPktTsbPdTime (getMsgTimeStamp q) b;
              if endstamp < startstamp then Some 0
              else Some (c_div (endstamp - startstamp) 1000 + 1) } } } })"

definition getRcvDataSize_info :: "CRcvBuffer \<Rightarrow> (int \<times> int \<times> int) option" where
  "getRcvDataSize_info b = do { timespan \<leftarrow> getTimespan_ms b; Some (m_iPktsCount b, m_iBytesCount b, timespan) }"

record PacketInfo =
  pi_seqno :: int
  seq_gap :: bool
  tsbpd_time :: int

partial_function (option) first_valid :: "CRcvBuffer \<Rightarrow> nat \<Rightarrow> nat \<Rightarrow> PacketInfo option" where
  "first_valid b end_pos i =
     (if i = end_pos then Some \<lparr>pi_seqno = - 1, seq_gap = False, tsbpd_time = 0\<rparr>
      else do {
        e \<leftarrow> entry_at b i;
        if pUnit e = None then first_valid b end_pos (incPos b i 1)
        else do {
          packet \<leftarrow> packetAt b i;
          Some \<lparr>pi_seqno = getSeqNo packet, seq_gap = (i \<noteq> m_iStartPos b),
            tsbpd_time = getPktTsbPdTime (getMsgTimeStamp packet) b\<rparr> } })"

declare first_valid.simps [code]

definition getFirstValidPacketInfo :: "CRcvBuffer \<Rightarrow> PacketInfo option" where
  "getFirstValidPacketInfo b = first_valid b (incPos b (m_iStartPos b) (m_iMaxPosOff b)) (m_iStartPos b)"

definition countReadable :: "CRcvBuffer \<Rightarrow> nat" where
  "countReadable b =
     (if m_iFirstNonreadPos b \<ge> m_iStartPos b then m_iFirstNonreadPos b - m_iStartPos b
      else m_szSize b + m_iFirstNonreadPos b - m_iStartPos b)"

definition getAvailablePacketsRange :: "CRcvBuffer \<Rightarrow> seqno \<times> seqno" where
  "getAvailablePacketsRange b = (m_iStartSeqNo b, incseq_by (m_iStartSeqNo b) (int (countReadable b)))"

definition isRcvDataReady :: "int \<Rightarrow> CRcvBuffer \<Rightarrow> bool option" where
  "isRcvDataReady time_now b =
     (let haveInorderPackets = hasReadableInorderPkts b in
      if \<not> isTsbPd b then
        (if haveInorderPackets then Some True
         else if \<not> (m_bMessageAPI b \<or> m_numOutOfOrderPackets b = 0) then None
         else Some (m_numOutOfOrderPackets b > 0 \<and> m_iFirstReadableOutOfOrder b \<noteq> - 1))
      else if \<not> haveInorderPackets then Some False
      else do { info \<leftarrow> getFirstValidPacketInfo b; Some (tsbpd_time info \<le> time_now) })"

definition unreadableInfo :: PacketInfo where
  "unreadableInfo = \<lparr>pi_seqno = SRT_SEQNO_NONE, seq_gap = False, tsbpd_time = 0\<rparr>"

definition getFirstReadablePacketInfo :: "int \<Rightarrow> CRcvBuffer \<Rightarrow> PacketInfo option" where
  "getFirstReadablePacketInfo time_now b =
     (let hasInorderPackets = hasReadableInorderPkts b in
      if \<not> isTsbPd b then
        (if hasInorderPackets then do {
           packet \<leftarrow> packetAt b (m_iStartPos b);
           Some \<lparr>pi_seqno = getSeqNo packet, seq_gap = False, tsbpd_time = 0\<rparr> }
         else if \<not> (m_bMessageAPI b \<or> m_numOutOfOrderPackets b = 0) then None
         else if m_iFirstReadableOutOfOrder b \<ge> 0 then
           (if \<not> m_numOutOfOrderPackets b > 0 then None
            else do {
              packet \<leftarrow> packetAt b (nat (m_iFirstReadableOutOfOrder b));
              Some \<lparr>pi_seqno = getSeqNo packet, seq_gap = True, tsbpd_time = 0\<rparr> })
         else Some unreadableInfo)
      else if \<not> hasInorderPackets then Some unreadableInfo
      else do {
        info \<leftarrow> getFirstValidPacketInfo b;
        Some (if tsbpd_time info \<le> time_now then info else unreadableInfo) })"

definition getFirstNonreadSeqNo :: "CRcvBuffer \<Rightarrow> seqno" where
  "getFirstNonreadSeqNo b =
     (let offset = offPos b (m_iStartPos b) (m_iFirstNonreadPos b) in incseq_by (m_iStartSeqNo b) (int offset))"

definition getAvailSize :: "seqno \<Rightarrow> CRcvBuffer \<Rightarrow> int" where
  "getAvailSize iFirstUnackSeqNo b =
     (let iRBufSeqNo = m_iStartSeqNo b in
      if seqcmp iRBufSeqNo iFirstUnackSeqNo \<ge> 0 then int (rb_capacity b)
      else int (rb_capacity b) - seqlen iRBufSeqNo iFirstUnackSeqNo + 1)"

partial_function (option) last_message_pkt :: "CRcvBuffer \<Rightarrow> nat \<Rightarrow> int option" where
  "last_message_pkt b i =
     (if i = m_iFirstNonreadPos b then Some (- 1)
      else do {
        p \<leftarrow> packetAt b i;
        if is_last p then Some (int i) else last_message_pkt b (incPos b i 1) })"

declare last_message_pkt.simps [code]

definition findLastMessagePkt :: "CRcvBuffer \<Rightarrow> int option" where
  "findLastMessagePkt b = last_message_pkt b (m_iStartPos b)"

section \<open>Other operations\<close>

definition setStartSeqNo :: "seqno \<Rightarrow> CRcvBuffer \<Rightarrow> CRcvBuffer" where
  "setStartSeqNo seqno b = b\<lparr>m_iStartSeqNo := seqno\<rparr>"

definition setPeerRexmitFlag :: "bool \<Rightarrow> CRcvBuffer \<Rightarrow> CRcvBuffer" where
  "setPeerRexmitFlag flag b = b\<lparr>m_bPeerRexmitFlag := flag\<rparr>"

definition rb_setTsbPdMode :: "int \<Rightarrow> bool \<Rightarrow> int \<Rightarrow> CRcvBuffer \<Rightarrow> CRcvBuffer" where
  "rb_setTsbPdMode timebase wrap delay b = b\<lparr>m_tsbpd := setTsbPdMode timebase wrap delay (m_tsbpd b)\<rparr>"

definition rb_applyGroupTime :: "int \<Rightarrow> bool \<Rightarrow> int \<Rightarrow> int \<Rightarrow> CRcvBuffer \<Rightarrow> CRcvBuffer" where
  "rb_applyGroupTime timebase wrp delay udrift b = b\<lparr>m_tsbpd := applyGroupTime timebase wrp delay udrift (m_tsbpd b)\<rparr>"

definition rb_applyGroupDrift :: "int \<Rightarrow> bool \<Rightarrow> int \<Rightarrow> CRcvBuffer \<Rightarrow> CRcvBuffer" where
  "rb_applyGroupDrift timebase wrp udrift b = b\<lparr>m_tsbpd := applyGroupDrift timebase wrp udrift (m_tsbpd b)\<rparr>"

definition addRcvTsbPdDriftSample :: "int \<Rightarrow> int \<Rightarrow> int \<Rightarrow> CRcvBuffer \<Rightarrow> bool \<times> CRcvBuffer" where
  "addRcvTsbPdDriftSample usTimestamp tsPktArrival usRTTSample b =
     (let (u, t) = addDriftSample usTimestamp tsPktArrival usRTTSample (m_tsbpd b) in (u, b\<lparr>m_tsbpd := t\<rparr>))"

definition getTsbPdTimeBase :: "int \<Rightarrow> CRcvBuffer \<Rightarrow> int" where
  "getTsbPdTimeBase usPktTimestamp b = getBaseTime usPktTimestamp (m_tsbpd b)"

text \<open>The destructor: what it leaves of the unit pool.\<close>

fun free_units :: "Entry list \<Rightarrow> CUnitQueue \<Rightarrow> CUnitQueue option" where
  "free_units [] q = Some q"
| "free_units (e # es) q = (case pUnit e of None \<Rightarrow> free_units es q
     | Some u \<Rightarrow> do { q \<leftarrow> makeUnitFree u q; free_units es q })"

definition CRcvBuffer_delete :: "CRcvBuffer \<Rightarrow> CUnitQueue option" where
  "CRcvBuffer_delete b = free_units (m_entries b) (m_pUnitQueue b)"

end
