(* ===== verification/RcvRing.thy ===== *)
theory RcvRing
  imports RcvBuffer
begin

text \<open>
  The ring of the receiver buffer.  Positions are turned into offsets from the start
  (\<^verbatim>\<open>incPos\<close>, \<^verbatim>\<open>decPos\<close>, \<^verbatim>\<open>offPos\<close> and \<^verbatim>\<open>isInRange\<close> are
  successor, predecessor, distance and comparison of offsets), and the invariant \<open>ring_ok\<close> ties the
  entries to the unit pool: no unit is stored twice, leaked or freed twice.
\<close>

section \<open>Positions\<close>

definition pos :: "CRcvBuffer \<Rightarrow> nat \<Rightarrow> nat" where
  "pos b k = (m_iStartPos b + k) mod m_szSize b"

definition St :: "CRcvBuffer \<Rightarrow> nat \<Rightarrow> EntryStatus" where
  "St b i = status (m_entries b ! i)"

definition stored :: "CRcvBuffer \<Rightarrow> nat set" where
  "stored b = {u. \<exists>i < length (m_entries b). pUnit (m_entries b ! i) = Some u}"

text \<open>The ring as such: every stored unit is taken in the pool and stored once, a position holds a unit
  exactly if it is available; \<open>Q\<close> are the units other users of the pool hold.\<close>

definition ring_ok :: "nat set \<Rightarrow> CRcvBuffer \<Rightarrow> bool" where
  "ring_ok Q b \<longleftrightarrow> 2 \<le> m_szSize b \<and> int (m_szSize b) < 2 ^ 29 \<and> length (m_entries b) = m_szSize b \<and>
     m_iStartPos b < m_szSize b \<and> uq_ok (m_pUnitQueue b) \<and>
     taken_units (m_pUnitQueue b) = stored b \<union> Q \<and> stored b \<inter> Q = {} \<and>
     (\<forall>i < m_szSize b. \<forall>j < m_szSize b. pUnit (m_entries b ! i) \<noteq> None \<and>
        pUnit (m_entries b ! i) = pUnit (m_entries b ! j) \<longrightarrow> i = j) \<and>
     (\<forall>i < m_szSize b. pUnit (m_entries b ! i) \<noteq> None \<longleftrightarrow> St b i = EntryState_Avail)"

lemma mod_sum_less: "a < n \<Longrightarrow> b < n \<Longrightarrow> (a + b) mod n = (if a + b < n then a + b else a + b - n)" for n :: nat
  by (simp add: mod_if)

lemma pos_inject: "m_iStartPos b < m_szSize b \<Longrightarrow> j < m_szSize b \<Longrightarrow> k < m_szSize b \<Longrightarrow> pos b j = pos b k \<longleftrightarrow> j = k"
  by (auto simp: pos_def mod_sum_less split: if_splits)

lemma pos_less [simp]: "0 < m_szSize b \<Longrightarrow> pos b k < m_szSize b"
  by (simp add: pos_def)

lemma pos_0 [simp]: "m_iStartPos b < m_szSize b \<Longrightarrow> pos b 0 = m_iStartPos b"
  by (simp add: pos_def)

lemma pos_surj: "m_iStartPos b < m_szSize b \<Longrightarrow> i < m_szSize b \<Longrightarrow> \<exists>k < m_szSize b. pos b k = i"
  by (rule exI [of _ "if m_iStartPos b \<le> i then i - m_iStartPos b else m_szSize b + i - m_iStartPos b"])
    (auto simp: pos_def mod_if)

lemma incPos_pos [simp]: "incPos b (pos b k) 1 = pos b (Suc k)" "incPos b (pos b k) (Suc 0) = pos b (Suc k)"
  by (simp_all add: incPos_def pos_def mod_Suc_eq)

lemma incPos_start: "incPos b (m_iStartPos b) k = pos b k"
  by (simp add: incPos_def pos_def)

lemma decPos_pos: "m_iStartPos b < m_szSize b \<Longrightarrow> k < m_szSize b \<Longrightarrow> decPos b (pos b (Suc k)) = pos b k"
  by (auto simp: decPos_def pos_def mod_sum_less mod_Suc mod_if)

lemma decPos_start: "m_iStartPos b < m_szSize b \<Longrightarrow> decPos b (m_iStartPos b) = pos b (m_szSize b - 1)"
  by (auto simp: decPos_def pos_def mod_if)

lemma offPos_pos: "m_iStartPos b < m_szSize b \<Longrightarrow> k < m_szSize b \<Longrightarrow> offPos b (m_iStartPos b) (pos b k) = k"
  by (auto simp: offPos_def pos_def mod_sum_less)

lemma getRcvDataSize_pos:
  "m_iStartPos b < m_szSize b \<Longrightarrow> k < m_szSize b \<Longrightarrow> m_iFirstNonreadPos b = pos b k \<Longrightarrow> getRcvDataSize b = k"
  by (auto simp: getRcvDataSize_def pos_def mod_sum_less)

lemma hasReadable_pos:
  "m_iStartPos b < m_szSize b \<Longrightarrow> k < m_szSize b \<Longrightarrow> m_iFirstNonreadPos b = pos b k \<Longrightarrow>
   hasReadableInorderPkts b \<longleftrightarrow> k \<noteq> 0"
  using pos_inject [of b k 0] by (auto simp: hasReadableInorderPkts_def)

lemma isInRange_pos:
  assumes "m_iStartPos b < m_szSize b" "m < m_szSize b" "k < m_szSize b"
  shows "isInRange (m_iStartPos b) m (m_szSize b) (pos b k) \<longleftrightarrow> k \<le> m"
proof (cases "k = 0")
  case False
  then show ?thesis using assms by (auto simp: isInRange_def pos_def mod_sum_less Let_def)
qed (use assms in \<open>simp add: isInRange_def\<close>)

lemma lastPos_pos: "0 < m \<Longrightarrow> (m_iStartPos b + m - 1) mod m_szSize b = pos b (m - 1)"
  by (simp add: pos_def)

section \<open>Entries\<close>

lemma ring_entry: "ring_ok Q b \<Longrightarrow> i < m_szSize b \<Longrightarrow> entry_at b i = Some (m_entries b ! i)"
  by (simp add: entry_at_def ring_ok_def)

lemma ring_unit: "ring_ok Q b \<Longrightarrow> i < m_szSize b \<Longrightarrow> pUnit (m_entries b ! i) = Some u \<Longrightarrow>
    u < length (m_pUnits (m_pUnitQueue b)) \<and> m_bTaken (m_pUnits (m_pUnitQueue b) ! u) \<and> u \<in> stored b"
proof -
  assume *: "ring_ok Q b" "i < m_szSize b" "pUnit (m_entries b ! i) = Some u"
  then have "u \<in> stored b" by (auto simp: stored_def ring_ok_def)
  moreover then have "u \<in> taken_units (m_pUnitQueue b)" using * by (auto simp: ring_ok_def)
  ultimately show ?thesis by (auto simp: taken_units_def)
qed

lemma ring_packet:
  assumes "ring_ok Q b" "i < m_szSize b"
  shows "packetAt b i = map_option (\<lambda>u. m_Packet (m_pUnits (m_pUnitQueue b) ! u)) (pUnit (m_entries b ! i))"
  using ring_unit [OF assms] assms
  by (cases "pUnit (m_entries b ! i)") (auto simp: packetAt_def ring_entry unit_packet_def Let_def)

lemma ring_unit_None:
  assumes "ring_ok Q b" "i < m_szSize b"
  shows "pUnit (m_entries b ! i) = None \<longleftrightarrow> packetAt b i = None"
  using assms by (simp add: ring_packet)

lemma ring_avail:
  assumes "ring_ok Q b" "i < m_szSize b"
  shows "St b i = EntryState_Avail \<longleftrightarrow> packetAt b i \<noteq> None"
proof -
  have "pUnit (m_entries b ! i) \<noteq> None \<longleftrightarrow> St b i = EntryState_Avail" using assms unfolding ring_ok_def by blast
  then show ?thesis using ring_unit_None [OF assms] by argo
qed

text \<open>Fields that do not take part in the ring.\<close>

lemma ring_ok_cong:
  assumes "m_szSize b' = m_szSize b" "m_entries b' = m_entries b" "m_pUnitQueue b' = m_pUnitQueue b" "m_iStartPos b' < m_szSize b"
  shows "ring_ok Q b \<Longrightarrow> ring_ok Q b'"
  unfolding ring_ok_def stored_def St_def assms(1-3) using assms(4) by blast

lemma packetAt_cong:
  assumes "m_entries b' = m_entries b" "m_pUnitQueue b' = m_pUnitQueue b"
  shows "packetAt b' i = packetAt b i" "St b' i = St b i" "entry_at b' i = entry_at b i"
  using assms by (simp_all add: packetAt_def entry_at_def unit_packet_def St_def)

text \<open>Writing an entry without a unit where there is none.\<close>

lemma ring_set_status:
  assumes ok: "ring_ok Q b" and i: "i < m_szSize b" and e: "pUnit e = None" "status e \<noteq> EntryState_Avail"
    and none: "packetAt b i = None"
  defines "b' \<equiv> b\<lparr>m_entries := (m_entries b)[i := e]\<rparr>"
  shows "ring_ok Q b'"
    and "\<And>j. j < m_szSize b \<Longrightarrow> packetAt b' j = packetAt b j"
    and "\<And>j. j < m_szSize b \<Longrightarrow> St b' j = (if j = i then status e else St b j)"
proof -
  have len: "length (m_entries b) = m_szSize b" using ok by (simp add: ring_ok_def)
  have un: "pUnit (m_entries b ! i) = None" using ring_unit_None [OF ok i] none by simp
  have pu: "pUnit (m_entries b' ! j) = pUnit (m_entries b ! j)" for j
    using un e i len by (cases "j = i") (auto simp: b'_def)
  have st: "St b' j = (if j = i then status e else St b j)" if "j < m_szSize b" for j
    using that i len by (auto simp: b'_def St_def)
  have stored: "stored b' = stored b" unfolding stored_def pu by (simp add: b'_def)
  have av: "\<forall>j < m_szSize b. pUnit (m_entries b ! j) \<noteq> None \<longleftrightarrow> St b' j = EntryState_Avail"
    using ok un e(2) st unfolding ring_ok_def by auto
  have same: "m_szSize b' = m_szSize b" "length (m_entries b') = length (m_entries b)" "m_iStartPos b' = m_iStartPos b"
    "m_pUnitQueue b' = m_pUnitQueue b" by (simp_all add: b'_def)
  show "ring_ok Q b'" using ok av unfolding ring_ok_def pu stored same by blast
  show "packetAt b' j = packetAt b j" if "j < m_szSize b" for j
    using that ring_packet [OF ok that] ring_packet [OF \<open>ring_ok Q b'\<close>, of j] pu [of j] by (simp add: b'_def)
  show "St b' j = (if j = i then status e else St b j)" if "j < m_szSize b" for j using st [OF that] .
qed

lemma ring_release_upd:
  assumes ok: "ring_ok Q b" and i: "i < m_szSize b"
  obtains es q where "releaseUnitInPos i b = Some (b\<lparr>m_entries := es, m_pUnitQueue := q\<rparr>)"
    "ring_ok Q (b\<lparr>m_entries := es, m_pUnitQueue := q\<rparr>)"
    "\<And>j. j < m_szSize b \<Longrightarrow> packetAt (b\<lparr>m_entries := es, m_pUnitQueue := q\<rparr>) j = (if j = i then None else packetAt b j)"
    "\<And>j. j < m_szSize b \<Longrightarrow> St (b\<lparr>m_entries := es, m_pUnitQueue := q\<rparr>) j = (if j = i then EntryState_Empty else St b j)"
proof -
  have len: "length (m_entries b) = m_szSize b" using ok by (simp add: ring_ok_def)
  let ?es = "(m_entries b)[i := Entry_new]"
  show thesis
  proof (cases "pUnit (m_entries b ! i)")
    case None
    have e: "releaseUnitInPos i b = Some (b\<lparr>m_entries := ?es, m_pUnitQueue := m_pUnitQueue b\<rparr>)"
      using None by (simp add: releaseUnitInPos_def ring_entry [OF ok i] set_entry_def Let_def)
    have "packetAt b i = None" using None ring_unit_None [OF ok i] by simp
    note r = ring_set_status [OF ok i, of Entry_new, OF _ _ this, unfolded Entry_new_def, simplified, folded Entry_new_def]
    show thesis by (rule that [OF e]) (use r \<open>packetAt b i = None\<close> in \<open>auto simp: Entry_new_def\<close>)
  next
    case (Some u)
    note u = ring_unit [OF ok i Some]
    define q where "q = the (makeUnitFree u (m_pUnitQueue b))"
    have q: "makeUnitFree u (m_pUnitQueue b) = Some q" using u by (simp add: q_def makeUnitFree_def)
    have uq: "uq_ok q" "taken_units q = taken_units (m_pUnitQueue b) - {u}"
      using makeUnitFree_ok [OF _ q] ok by (auto simp: ring_ok_def)
    have pk: "m_Packet (m_pUnits q ! v) = m_Packet (m_pUnits (m_pUnitQueue b) ! v)" for v
      using q by (auto simp: makeUnitFree_def nth_list_update split: if_splits)
    let ?b = "b\<lparr>m_entries := ?es, m_pUnitQueue := q\<rparr>"
    have e: "releaseUnitInPos i b = Some ?b"
      using Some q by (simp add: releaseUnitInPos_def ring_entry [OF ok i] set_entry_def Let_def)
    have pu: "pUnit (?es ! j) = (if j = i then None else pUnit (m_entries b ! j))" if "j < m_szSize b" for j
      using that len by (auto simp: Entry_new_def)
    have st: "St ?b j = (if j = i then EntryState_Empty else St b j)" if "j < m_szSize b" for j
      using that len by (auto simp: St_def Entry_new_def)
    have once: "j = i" if "j < m_szSize b" "pUnit (m_entries b ! j) = Some u" for j
      using ok that Some i by (auto simp: ring_ok_def)
    have stored: "stored ?b = stored b - {u}"
    proof (intro set_eqI iffI)
      fix v assume "v \<in> stored ?b"
      then obtain j where j: "j < m_szSize b" "pUnit (?es ! j) = Some v" using len by (auto simp: stored_def)
      then have "j \<noteq> i" "pUnit (m_entries b ! j) = Some v" using pu [of j] by (auto split: if_splits)
      then show "v \<in> stored b - {u}" using j once len by (auto simp: stored_def)
    next
      fix v assume v: "v \<in> stored b - {u}"
      then obtain j where j: "j < m_szSize b" "pUnit (m_entries b ! j) = Some v" using len by (auto simp: stored_def)
      then have "j \<noteq> i" using v Some by auto
      then show "v \<in> stored ?b" using j pu [of j] len by (auto simp: stored_def intro!: exI [of _ j])
    qed
    have ring: "ring_ok Q ?b"
    proof -
      have "taken_units q = stored ?b \<union> Q" using ok u uq(2) unfolding stored by (auto simp: ring_ok_def)
      moreover have "stored ?b \<inter> Q = {}" using ok unfolding stored by (auto simp: ring_ok_def)
      moreover have "\<forall>j < m_szSize b. \<forall>k < m_szSize b. pUnit (?es ! j) \<noteq> None \<and> pUnit (?es ! j) = pUnit (?es ! k) \<longrightarrow> j = k"
        using ok pu by (auto simp: ring_ok_def split: if_splits)
      moreover have "\<forall>j < m_szSize b. pUnit (?es ! j) \<noteq> None \<longleftrightarrow> St ?b j = EntryState_Avail"
        using ok pu st by (auto simp: ring_ok_def split: if_splits)
      ultimately show ?thesis using ok uq(1) len by (auto simp: ring_ok_def)
    qed
    have "packetAt ?b j = (if j = i then None else packetAt b j)" if "j < m_szSize b" for j
      using ring_packet [OF ring, of j] ring_packet [OF ok, of j] that pu [OF that] by (simp add: pk cong: map_option_cong)
    then show thesis by (intro that [OF e ring] st) auto
  qed
qed

lemma ring_release:
  assumes "ring_ok Q b" "i < m_szSize b"
  shows "\<exists>b'. releaseUnitInPos i b = Some b' \<and> ring_ok Q b' \<and> (\<exists>es q. b' = b\<lparr>m_entries := es, m_pUnitQueue := q\<rparr>) \<and>
    (\<forall>j < m_szSize b. packetAt b' j = (if j = i then None else packetAt b j) \<and>
      St b' j = (if j = i then EntryState_Empty else St b j))"
proof (rule ring_release_upd [OF assms])
  fix es q assume *: "releaseUnitInPos i b = Some (b\<lparr>m_entries := es, m_pUnitQueue := q\<rparr>)"
    "ring_ok Q (b\<lparr>m_entries := es, m_pUnitQueue := q\<rparr>)"
    "\<And>j. j < m_szSize b \<Longrightarrow> packetAt (b\<lparr>m_entries := es, m_pUnitQueue := q\<rparr>) j = (if j = i then None else packetAt b j)"
    "\<And>j. j < m_szSize b \<Longrightarrow> St (b\<lparr>m_entries := es, m_pUnitQueue := q\<rparr>) j = (if j = i then EntryState_Empty else St b j)"
  show ?thesis by (rule exI [of _ "b\<lparr>m_entries := es, m_pUnitQueue := q\<rparr>"]) (use * in blast)
qed

lemma ring_take_upd:
  assumes ok: "ring_ok Q b" and i: "i < m_szSize b" and none: "packetAt b i = None"
    and u: "u < length (m_pUnits (m_pUnitQueue b))" "u \<notin> taken_units (m_pUnitQueue b)"
  obtains q where "makeUnitTaken u (m_pUnitQueue b) = Some q"
    "ring_ok Q (b\<lparr>m_entries := (m_entries b)[i := \<lparr>pUnit = Some u, status = EntryState_Avail\<rparr>], m_pUnitQueue := q\<rparr>)"
    "\<And>j. j < m_szSize b \<Longrightarrow>
       packetAt (b\<lparr>m_entries := (m_entries b)[i := \<lparr>pUnit = Some u, status = EntryState_Avail\<rparr>], m_pUnitQueue := q\<rparr>) j =
       (if j = i then unit_packet b u else packetAt b j)"
    "\<And>j. j < m_szSize b \<Longrightarrow>
       St (b\<lparr>m_entries := (m_entries b)[i := \<lparr>pUnit = Some u, status = EntryState_Avail\<rparr>], m_pUnitQueue := q\<rparr>) j =
       (if j = i then EntryState_Avail else St b j)"
proof -
  have len: "length (m_entries b) = m_szSize b" using ok by (simp add: ring_ok_def)
  let ?es = "(m_entries b)[i := \<lparr>pUnit = Some u, status = EntryState_Avail\<rparr>]"
  define q where "q = the (makeUnitTaken u (m_pUnitQueue b))"
  have q: "makeUnitTaken u (m_pUnitQueue b) = Some q" using u by (simp add: q_def makeUnitTaken_def taken_units_def)
  have uq: "uq_ok q" "taken_units q = insert u (taken_units (m_pUnitQueue b))"
    using makeUnitTaken_ok [OF _ q] ok by (auto simp: ring_ok_def)
  have pk: "m_Packet (m_pUnits q ! v) = m_Packet (m_pUnits (m_pUnitQueue b) ! v)" for v
    using q by (auto simp: makeUnitTaken_def nth_list_update split: if_splits)
  let ?b = "b\<lparr>m_entries := ?es, m_pUnitQueue := q\<rparr>"
  have pu: "pUnit (?es ! j) = (if j = i then Some u else pUnit (m_entries b ! j))" if "j < m_szSize b" for j
    using that len by auto
  have st: "St ?b j = (if j = i then EntryState_Avail else St b j)" if "j < m_szSize b" for j
    using that len by (auto simp: St_def)
  have un: "pUnit (m_entries b ! i) = None" using ring_unit_None [OF ok i] none by simp
  have new: "pUnit (m_entries b ! j) \<noteq> Some u" if "j < m_szSize b" for j
    using ring_unit [OF ok that] u(2) ok by (auto simp: ring_ok_def)
  have stored: "stored ?b = insert u (stored b)"
  proof (intro set_eqI iffI)
    fix v assume v: "v \<in> insert u (stored b)"
    show "v \<in> stored ?b"
    proof (cases "v = u")
      case True
      then show ?thesis using i pu [of i] len by (auto simp: stored_def intro!: exI [of _ i])
    next
      case False
      then obtain j where j: "j < m_szSize b" "pUnit (m_entries b ! j) = Some v" using v len by (auto simp: stored_def)
      then have "j \<noteq> i" using un by auto
      then show ?thesis using j pu [of j] len by (auto simp: stored_def intro!: exI [of _ j])
    qed
  qed (use len in \<open>auto simp: stored_def pu split: if_splits\<close>)
  have ring: "ring_ok Q ?b"
  proof -
    have "taken_units q = stored ?b \<union> Q" using ok uq(2) unfolding stored by (auto simp: ring_ok_def)
    moreover have "stored ?b \<inter> Q = {}" using ok u(2) unfolding stored by (auto simp: ring_ok_def)
    moreover have "\<forall>j < m_szSize b. \<forall>k < m_szSize b. pUnit (?es ! j) \<noteq> None \<and> pUnit (?es ! j) = pUnit (?es ! k) \<longrightarrow> j = k"
      using ok pu new by (auto simp: ring_ok_def split: if_splits)
    moreover have "\<forall>j < m_szSize b. pUnit (?es ! j) \<noteq> None \<longleftrightarrow> St ?b j = EntryState_Avail"
      using ok pu st by (auto simp: ring_ok_def split: if_splits)
    ultimately show ?thesis using ok uq(1) len by (auto simp: ring_ok_def)
  qed
  have "packetAt ?b j = (if j = i then unit_packet b u else packetAt b j)" if "j < m_szSize b" for j
    using ring_packet [OF ring, of j] ring_packet [OF ok, of j] that pu [OF that] u(1)
    by (simp add: pk unit_packet_def Let_def cong: map_option_cong)
  then show thesis by (intro that [OF q ring] st) auto
qed

lemma ring_take:
  assumes "ring_ok Q b" "i < m_szSize b" "packetAt b i = None"
    and "u < length (m_pUnits (m_pUnitQueue b))" "u \<notin> taken_units (m_pUnitQueue b)"
  shows "\<exists>q b'. makeUnitTaken u (m_pUnitQueue b) = Some q \<and>
    b' = b\<lparr>m_entries := (m_entries b)[i := \<lparr>pUnit = Some u, status = EntryState_Avail\<rparr>], m_pUnitQueue := q\<rparr> \<and> ring_ok Q b' \<and>
    (\<forall>j < m_szSize b. packetAt b' j = (if j = i then unit_packet b u else packetAt b j) \<and>
      St b' j = (if j = i then EntryState_Avail else St b j))"
proof -
  let ?b = "\<lambda>q. b\<lparr>m_entries := (m_entries b)[i := \<lparr>pUnit = Some u, status = EntryState_Avail\<rparr>], m_pUnitQueue := q\<rparr>"
  show ?thesis
  proof (rule ring_take_upd [OF assms])
    fix q assume *: "makeUnitTaken u (m_pUnitQueue b) = Some q" "ring_ok Q (?b q)"
      "\<And>j. j < m_szSize b \<Longrightarrow> packetAt (?b q) j = (if j = i then unit_packet b u else packetAt b j)"
      "\<And>j. j < m_szSize b \<Longrightarrow> St (?b q) j = (if j = i then EntryState_Avail else St b j)"
    show ?thesis by (rule exI [of _ q], rule exI [of _ "?b q"]) (use * in blast)
  qed
qed

end
