(* ===== verification/RcvContent.thy ===== *)
theory RcvContent
  imports RcvRing
begin

text \<open>
  The contents of the receiver buffer in message mode, as a window on the stream of packets the sender
  sent.  \<open>content\<close> is the invariant of everything but the positions; the lemmas say what releasing,
  dropping and skipping entries do to it, and \<open>shifted\<close> how the window moves.  The last part is the
  readable prefix that \<^verbatim>\<open>updateNonreadPos\<close> computes.
\<close>

section \<open>What the sender sent\<close>

text \<open>The packets of the sender's stream by their unwrapped sequence numbers, and that the stream is
  framed: a message starts after the end of the one before it, and all its packets carry its number and order flag.\<close>

record sent =
  s_first :: bool
  s_last :: bool
  s_order :: bool
  s_msgno :: int
  s_data :: "byte list"

definition framed :: "(int \<Rightarrow> sent) \<Rightarrow> bool" where
  "framed S \<longleftrightarrow> (\<forall>X. s_first (S (X + 1)) = s_last (S X) \<and>
     (\<not> s_last (S X) \<longrightarrow> s_order (S (X + 1)) = s_order (S X) \<and> s_msgno (S (X + 1)) = s_msgno (S X)))"

definition carries :: "CRcvBuffer \<Rightarrow> (int \<Rightarrow> sent) \<Rightarrow> int \<Rightarrow> CPacket \<Rightarrow> bool" where
  "carries b S X p \<longleftrightarrow> getSeqNo p = sq X \<and> is_first p = s_first (S X) \<and> is_last p = s_last (S X) \<and>
     getMsgOrderFlag p = s_order (S X) \<and> rb_msgseq b p = s_msgno (S X) \<and>
     m_Length p \<le> length (m_pcData p) \<and> take (m_Length p) (m_pcData p) = s_data (S X)"

section \<open>Contents\<close>

text \<open>The packet at offset \<open>k\<close> from \<open>B\<close>.\<close>

definition sn :: "(int \<Rightarrow> sent) \<Rightarrow> int \<Rightarrow> nat \<Rightarrow> sent" where
  "sn S B k = S (B + int k)"

lemma sn_shift: "sn S (B + int d) k = sn S B (k + d)" "sn S (B + 1) k = sn S B (Suc k)"
  by (simp_all add: sn_def algebra_simps)

definition unordered :: "CRcvBuffer \<Rightarrow> nat set" where
  "unordered b = {i. i < m_szSize b \<and> (\<exists>p. packetAt b i = Some p \<and> \<not> getMsgOrderFlag p)}"

definition pk :: "CRcvBuffer \<Rightarrow> nat \<Rightarrow> CPacket option" where
  "pk b k = packetAt b (pos b k)"

definition st :: "CRcvBuffer \<Rightarrow> nat \<Rightarrow> EntryStatus" where
  "st b k = St b (pos b k)"

text \<open>The contents of a buffer in message mode that starts at the unwrapped number \<open>B\<close> and holds packets
  only before offset \<open>M\<close>.\<close>

definition content :: "nat set \<Rightarrow> int \<Rightarrow> (int \<Rightarrow> sent) \<Rightarrow> nat \<Rightarrow> CRcvBuffer \<Rightarrow> bool" where
  "content Q B S M b \<longleftrightarrow> ring_ok Q b \<and> m_bMessageAPI b \<and>
     (\<forall>k < m_szSize b. \<forall>p. pk b k = Some p \<longrightarrow> k < M \<and> carries b S (B + int k) p) \<and>
     m_numOutOfOrderPackets b = (if isTsbPd b then 0 else card (unordered b)) \<and>
     (m_iFirstReadableOutOfOrder b = - 1 \<or> \<not> isTsbPd b \<and> 0 \<le> m_iFirstReadableOutOfOrder b \<and>
        m_iFirstReadableOutOfOrder b < int (m_szSize b) \<and>
        (\<forall>k < m_szSize b. int (pos b k) = m_iFirstReadableOutOfOrder b \<and> pk b k \<noteq> None \<longrightarrow>
           s_first (sn S B k) \<and> \<not> s_order (sn S B k)))"

definition same :: "CRcvBuffer \<Rightarrow> CRcvBuffer \<Rightarrow> bool" where
  "same b b' \<longleftrightarrow> m_szSize b' = m_szSize b \<and> m_iStartPos b' = m_iStartPos b \<and> m_iMaxPosOff b' = m_iMaxPosOff b \<and>
     m_iFirstNonreadPos b' = m_iFirstNonreadPos b \<and> m_iStartSeqNo b' = m_iStartSeqNo b \<and>
     m_bPeerRexmitFlag b' = m_bPeerRexmitFlag b \<and> m_bMessageAPI b' = m_bMessageAPI b \<and> isTsbPd b' = isTsbPd b"

lemma same_refl [simp]: "same b b" and same_trans: "same b c \<Longrightarrow> same c d \<Longrightarrow> same b d"
  by (simp_all add: same_def)

lemma same_pos: "same b b' \<Longrightarrow> pos b' k = pos b k"
  by (simp add: same_def pos_def)

lemma carries_cong: "m_bPeerRexmitFlag b' = m_bPeerRexmitFlag b \<Longrightarrow> carries b' S X p = carries b S X p"
  by (simp add: carries_def rb_msgseq_def)

lemma content_ring: "content Q B S M b \<Longrightarrow> ring_ok Q b"
  and content_api: "content Q B S M b \<Longrightarrow> m_bMessageAPI b"
  by (simp_all add: content_def)

lemma ring_size:
  assumes "ring_ok Q b"
  shows "0 < m_szSize b" "1 < m_szSize b" "m_iStartPos b < m_szSize b" "int (m_szSize b) < 2 ^ 29"
  using assms by (auto simp: ring_ok_def)

lemma content_pk: "content Q B S M b \<Longrightarrow> k < m_szSize b \<Longrightarrow> pk b k = Some p \<Longrightarrow> k < M \<and> carries b S (B + int k) p"
  by (simp add: content_def)

lemma st_avail: "ring_ok Q b \<Longrightarrow> st b k = EntryState_Avail \<longleftrightarrow> pk b k \<noteq> None"
  using ring_avail [of Q b "pos b k"] ring_size [of Q b] by (simp add: st_def pk_def)

lemma unordered_finite [simp]: "finite (unordered b)"
  by (simp add: unordered_def)

lemma updateBaseTime_mode [simp]: "m_bTsbPdMode (updateBaseTime ts t) = m_bTsbPdMode t"
  by (simp add: updateBaseTime_def)

text \<open>Taking the packet at one offset away.\<close>

lemma content_remove:
  assumes c: "content Q B S M b" and k: "k < m_szSize b" and ok: "ring_ok Q b'" and same: "same b b'"
    and pkt: "\<forall>j < m_szSize b. packetAt b' j = (if j = pos b k then None else packetAt b j)"
    and num: "m_numOutOfOrderPackets b' = (if isTsbPd b then 0 else card (unordered b - {pos b k}))"
    and fr: "m_iFirstReadableOutOfOrder b' = m_iFirstReadableOutOfOrder b \<or> m_iFirstReadableOutOfOrder b' = - 1"
  shows "content Q B S M b'" "\<forall>j < m_szSize b. pk b' j = (if j = k then None else pk b j)"
proof -
  note sz = ring_size [OF content_ring [OF c]] and pos = same_pos [OF same]
  have n: "m_szSize b' = m_szSize b" "isTsbPd b' = isTsbPd b" "m_bMessageAPI b' = m_bMessageAPI b"
    "m_bPeerRexmitFlag b' = m_bPeerRexmitFlag b" using same by (simp_all add: same_def)
  show *: "\<forall>j < m_szSize b. pk b' j = (if j = k then None else pk b j)"
    using pkt sz pos_inject [OF sz(3) _ k] by (simp add: pk_def pos)
  have un: "unordered b' = unordered b - {pos b k}" using pkt by (auto simp: unordered_def n split: if_splits)
  show "content Q B S M b'" unfolding content_def n pos un carries_cong [OF n(4)]
  proof (intro conjI)
    show "\<forall>j < m_szSize b. \<forall>p. pk b' j = Some p \<longrightarrow> j < M \<and> carries b S (B + int j) p"
      using content_pk [OF c] * by auto
    show "m_iFirstReadableOutOfOrder b' = - 1 \<or> \<not> isTsbPd b \<and> 0 \<le> m_iFirstReadableOutOfOrder b' \<and>
        m_iFirstReadableOutOfOrder b' < int (m_szSize b) \<and>
        (\<forall>j < m_szSize b. int (pos b j) = m_iFirstReadableOutOfOrder b' \<and> pk b' j \<noteq> None \<longrightarrow>
           s_first (sn S B j) \<and> \<not> s_order (sn S B j))"
    proof (cases "m_iFirstReadableOutOfOrder b' = - 1")
      case False
      then have f: "m_iFirstReadableOutOfOrder b' = m_iFirstReadableOutOfOrder b" using fr by simp
      show ?thesis using c * False unfolding f content_def by auto
    qed simp
  qed (use ok c num in \<open>auto simp: content_def\<close>)
qed

lemma unordered_remove:
  assumes "content Q B S M b" "k < m_szSize b" "pk b k = Some p" "\<not> isTsbPd b"
  shows "m_numOutOfOrderPackets b = (if s_order (sn S B k) then card (unordered b - {pos b k}) else Suc (card (unordered b - {pos b k})))"
proof -
  have "carries b S (B + int k) p" using content_pk [OF assms(1-3)] by simp
  then have "pos b k \<in> unordered b \<longleftrightarrow> \<not> s_order (sn S B k)"
    using assms ring_size [OF content_ring [OF assms(1)]] by (auto simp: unordered_def carries_def pk_def sn_def)
  moreover have "m_numOutOfOrderPackets b = card (unordered b)" using assms by (simp add: content_def)
  moreover have "pos b k \<in> unordered b \<Longrightarrow> card (unordered b) = Suc (card (unordered b - {pos b k}))"
    using card_Suc_Diff1 [of "unordered b" "pos b k"] by simp
  ultimately show ?thesis by auto
qed

lemma unordered_same: "pk b k = None \<Longrightarrow> unordered b - {pos b k} = unordered b"
  by (auto simp: unordered_def pk_def)

lemma releaseUnitInPos_content:
  assumes c: "content Q B S M b" and k: "k < m_szSize b" and b0: "same b b0" "m_entries b0 = m_entries b" "m_pUnitQueue b0 = m_pUnitQueue b"
    and num: "m_numOutOfOrderPackets b0 = (if isTsbPd b then 0 else card (unordered b - {pos b k}))"
    and fr: "m_iFirstReadableOutOfOrder b0 = m_iFirstReadableOutOfOrder b \<or> m_iFirstReadableOutOfOrder b0 = - 1"
  shows "\<exists>b'. releaseUnitInPos (pos b k) b0 = Some b' \<and> content Q B S M b' \<and> same b b' \<and>
    m_iFirstReadableOutOfOrder b' = m_iFirstReadableOutOfOrder b0 \<and>
    (\<forall>j < m_szSize b. pk b' j = (if j = k then None else pk b j) \<and> st b' j = (if j = k then EntryState_Empty else st b j))"
proof -
  note ok = content_ring [OF c] and sz = ring_size [OF content_ring [OF c]]
  have n0: "m_szSize b0 = m_szSize b" "m_iStartPos b0 = m_iStartPos b" using b0(1) by (simp_all add: same_def)
  have ok0: "ring_ok Q b0" using ring_ok_cong [OF n0(1) b0(2,3) _ ok] n0 sz by simp
  note cong = packetAt_cong [OF b0(2,3)]
  obtain b' where b': "releaseUnitInPos (pos b k) b0 = Some b'" "ring_ok Q b'" "\<exists>es q. b' = b0\<lparr>m_entries := es, m_pUnitQueue := q\<rparr>"
    "\<forall>j < m_szSize b0. packetAt b' j = (if j = pos b k then None else packetAt b j) \<and> St b' j = (if j = pos b k then EntryState_Empty else St b j)"
    using ring_release [OF ok0, of "pos b k"] sz n0 unfolding cong by auto
  have eq: "same b b'" "m_numOutOfOrderPackets b' = m_numOutOfOrderPackets b0"
    "m_iFirstReadableOutOfOrder b' = m_iFirstReadableOutOfOrder b0"
    using b'(3) b0(1) by (auto simp: same_def isTsbPd_def)
  have "\<forall>j < m_szSize b. packetAt b' j = (if j = pos b k then None else packetAt b j)" using b'(4) n0 by auto
  note r = content_remove [OF c k b'(2) eq(1) this] eq num fr
  have "st b' j = (if j = k then EntryState_Empty else st b j)" if "j < m_szSize b" for j
    using b'(4) n0 sz pos_inject [OF sz(3) that k] by (simp add: st_def same_pos [OF eq(1)])
  then show ?thesis using r b'(1) by simp
qed

lemma dropUnitInPos_content:
  assumes c: "content Q B S M b" and k: "k < m_szSize b"
  shows "\<exists>b'. dropUnitInPos (pos b k) b = Some (pk b k \<noteq> None, b') \<and> content Q B S M b' \<and> same b b' \<and>
    m_iFirstReadableOutOfOrder b' =
      (if pk b k \<noteq> None \<and> int (pos b k) = m_iFirstReadableOutOfOrder b then - 1 else m_iFirstReadableOutOfOrder b) \<and>
    (\<forall>j < m_szSize b. pk b' j = (if j = k then None else pk b j) \<and>
       st b' j = (if j = k \<and> pk b k \<noteq> None then EntryState_Empty else st b j))"
proof -
  note ok = content_ring [OF c] and sz = ring_size [OF content_ring [OF c]]
  have entry: "entry_at b (pos b k) = Some (m_entries b ! pos b k)" "pUnit (m_entries b ! pos b k) = None \<longleftrightarrow> pk b k = None"
    using ring_entry [OF ok] ring_unit_None [OF ok] sz by (simp_all add: pk_def)
  show ?thesis
  proof (cases "pk b k")
    case None
    then show ?thesis using entry c by (intro exI [of _ b]) (simp add: dropUnitInPos_def)
  next
    case (Some p)
    have car: "carries b S (B + int k) p" using content_pk [OF c k Some] by simp
    define b0 where "b0 = forget_packet p (pos b k) b"
    have e: "dropUnitInPos (pos b k) b = do { b \<leftarrow> releaseUnitInPos (pos b k) b0; Some (True, b) }"
      using Some entry by (auto simp: dropUnitInPos_def pk_def b0_def)
    have same: "same b b0" "m_entries b0 = m_entries b" "m_pUnitQueue b0 = m_pUnitQueue b"
      by (auto simp: b0_def forget_packet_def same_def updateTsbPdTimeBase_def isTsbPd_def Let_def)
    have fr: "m_iFirstReadableOutOfOrder b0 = (if int (pos b k) = m_iFirstReadableOutOfOrder b then - 1 else m_iFirstReadableOutOfOrder b)"
      using c k Some car by (auto simp: b0_def forget_packet_def updateTsbPdTimeBase_def Let_def content_def carries_def sn_def)
    have num: "m_numOutOfOrderPackets b0 = (if isTsbPd b then 0 else card (unordered b - {pos b k}))"
      using unordered_remove [OF c k Some] c car
      by (auto simp: b0_def forget_packet_def updateTsbPdTimeBase_def Let_def content_def carries_def sn_def dec_size_t_def)
    have "m_iFirstReadableOutOfOrder b0 = m_iFirstReadableOutOfOrder b \<or> m_iFirstReadableOutOfOrder b0 = - 1"
      using fr by simp
    then obtain b' where b': "releaseUnitInPos (pos b k) b0 = Some b'" "content Q B S M b'" "same b b'"
      "m_iFirstReadableOutOfOrder b' = m_iFirstReadableOutOfOrder b0"
      "\<forall>j < m_szSize b. pk b' j = (if j = k then None else pk b j) \<and> st b' j = (if j = k then EntryState_Empty else st b j)"
      using releaseUnitInPos_content [OF c k same num] by blast
    show ?thesis by (rule exI [of _ b']) (use b' fr Some e in simp)
  qed
qed

lemma setStatus_content:
  assumes c: "content Q B S M b" and k: "k < m_szSize b" and none: "pk b k = None" and z: "z \<noteq> EntryState_Avail"
  defines "b' \<equiv> set_entry (pos b k) ((m_entries b ! pos b k)\<lparr>status := z\<rparr>) b"
  shows "content Q B S M b'" "same b b'" "m_iFirstReadableOutOfOrder b' = m_iFirstReadableOutOfOrder b"
    "\<And>j. j < m_szSize b \<Longrightarrow> pk b' j = pk b j"
    "\<And>j. j < m_szSize b \<Longrightarrow> st b' j = (if j = k then z else st b j)"
proof -
  note ok = content_ring [OF c] and sz = ring_size [OF content_ring [OF c]]
  let ?e = "(m_entries b ! pos b k)\<lparr>status := z\<rparr>"
  have b': "b' = b\<lparr>m_entries := (m_entries b)[pos b k := ?e]\<rparr>" by (simp add: b'_def set_entry_def)
  have "pUnit ?e = None" using ring_unit_None [OF ok, of "pos b k"] none sz by (simp add: pk_def)
  note r = ring_set_status [OF ok, of "pos b k" ?e, OF _ this, folded b']
  show same: "same b b'" by (simp add: b' same_def isTsbPd_def)
  show fr: "m_iFirstReadableOutOfOrder b' = m_iFirstReadableOutOfOrder b" by (simp add: b')
  have none': "packetAt b (pos b k) = None" using none by (simp add: pk_def)
  have pkt: "packetAt b' j = packetAt b j" if "j < m_szSize b" for j using r(2) [OF _ _ none' that] sz z by simp
  have "\<forall>j < m_szSize b. packetAt b' j = (if j = pos b k then None else packetAt b j)" using pkt none' by auto
  moreover have "m_numOutOfOrderPackets b' = (if isTsbPd b then 0 else card (unordered b - {pos b k}))"
    using c unordered_same [OF none] by (simp add: b' content_def)
  ultimately show "content Q B S M b'" using content_remove [OF c k r(1) same] none' z sz fr by simp
  show "pk b' j = pk b j" if "j < m_szSize b" for j using pkt sz by (simp add: pk_def same_pos [OF same])
  show "st b' j = (if j = k then z else st b j)" if "j < m_szSize b" for j
    using r(3) [OF _ _ none', of "pos b j"] z sz pos_inject [OF sz(3) that k] by (simp add: st_def same_pos [OF same])
qed

lemma drop_one_content:
  assumes c: "content Q B S M b" and k: "k < m_szSize b"
  shows "\<exists>b'. drop_one (pos b k) b = Some b' \<and> content Q B S M b' \<and> same b b' \<and>
    (\<forall>j < m_szSize b. pk b' j = (if j = k then None else pk b j) \<and> st b' j = (if j = k then EntryState_Drop else st b j))"
proof -
  obtain b1 where b1: "dropUnitInPos (pos b k) b = Some (pk b k \<noteq> None, b1)" "content Q B S M b1" "same b b1"
    "\<forall>j < m_szSize b. pk b1 j = (if j = k then None else pk b j) \<and>
       st b1 j = (if j = k \<and> pk b k \<noteq> None then EntryState_Empty else st b j)"
    using dropUnitInPos_content [OF c k] by blast
  have k1: "k < m_szSize b1" "pos b1 k = pos b k" "m_szSize b1 = m_szSize b"
    using k b1(3) by (simp_all add: same_pos) (simp_all add: same_def)
  have "pos b k < m_szSize b1" using ring_size [OF content_ring [OF b1(2)]] k1 by (metis pos_less)
  then have e: "drop_one (pos b k) b = Some (set_entry (pos b1 k) ((m_entries b1 ! pos b1 k)\<lparr>status := EntryState_Drop\<rparr>) b1)"
    using ring_entry [OF content_ring [OF b1(2)]] by (simp add: drop_one_def b1(1) k1(2))
  have "pk b1 k = None" using b1(4) k by simp
  note s = setStatus_content [OF b1(2) k1(1) this, of EntryState_Drop, simplified]
  show ?thesis using e s same_trans [OF b1(3) s(2)] b1(4) k1(3) by (intro exI conjI; (rule e)?) auto
qed

text \<open>Moving the start of the buffer past an offset without a packet.\<close>

lemma content_advance:
  assumes c: "content Q B S M b" and none: "pk b 0 = None"
    and b': "m_entries b' = m_entries b" "m_pUnitQueue b' = m_pUnitQueue b" "m_szSize b' = m_szSize b" "m_iStartPos b' = pos b 1"
      "m_bMessageAPI b' = m_bMessageAPI b" "m_bPeerRexmitFlag b' = m_bPeerRexmitFlag b" "isTsbPd b' = isTsbPd b"
      "m_numOutOfOrderPackets b' = m_numOutOfOrderPackets b" "m_iFirstReadableOutOfOrder b' = m_iFirstReadableOutOfOrder b"
  shows "content Q (B + 1) S (M - 1) b'"
    "\<And>k. pos b' k = pos b (Suc k)"
    "\<And>k. k < m_szSize b \<Longrightarrow> pk b' k = (if Suc k < m_szSize b then pk b (Suc k) else None)"
    "\<And>k. k < m_szSize b \<Longrightarrow> st b' k = (if Suc k < m_szSize b then st b (Suc k) else st b 0)"
proof -
  note ok = content_ring [OF c] and sz = ring_size [OF content_ring [OF c]]
  note cong = packetAt_cong [OF b'(1,2)]
  show pos: "pos b' k = pos b (Suc k)" for k
    by (simp add: pos_def b'(3,4) mod_add_left_eq)
  have wrap: "pos b (m_szSize b) = pos b 0" by (simp add: pos_def)
  show pk: "pk b' k = (if Suc k < m_szSize b then pk b (Suc k) else None)" if "k < m_szSize b" for k
  proof (cases "Suc k < m_szSize b")
    case False
    then have "Suc k = m_szSize b" using that by simp
    then have "pos b' k = pos b 0" using pos [of k] wrap by simp
    then show ?thesis using none False by (simp add: pk_def cong)
  qed (simp add: pk_def pos cong)
  show "st b' k = (if Suc k < m_szSize b then st b (Suc k) else st b 0)" if "k < m_szSize b" for k
  proof (cases "Suc k < m_szSize b")
    case False
    then have "Suc k = m_szSize b" using that by simp
    then have "pos b' k = pos b 0" using pos [of k] wrap by simp
    then show ?thesis using False by (simp add: st_def cong)
  qed (simp add: st_def pos cong)
  have un: "unordered b' = unordered b" by (simp add: unordered_def cong b'(3))
  have ring: "ring_ok Q b'" using ring_ok_cong [OF b'(3,1,2) _ ok] sz by (simp add: b'(4))
  show "content Q (B + 1) S (M - 1) b'" unfolding content_def un b'(3,5,7,8,9) carries_cong [OF b'(6)]
  proof (intro conjI)
    show "\<forall>k < m_szSize b. \<forall>p. pk b' k = Some p \<longrightarrow> k < M - 1 \<and> carries b S (B + 1 + int k) p"
    proof (intro allI impI)
      fix k p assume k: "k < m_szSize b" and p: "pk b' k = Some p"
      then have "Suc k < m_szSize b" "pk b (Suc k) = Some p" using pk [OF k] by (auto split: if_splits)
      from content_pk [OF c this] show "k < M - 1 \<and> carries b S (B + 1 + int k) p" by (auto simp: algebra_simps)
    qed
    show "m_iFirstReadableOutOfOrder b = - 1 \<or> \<not> isTsbPd b \<and> 0 \<le> m_iFirstReadableOutOfOrder b \<and>
        m_iFirstReadableOutOfOrder b < int (m_szSize b) \<and>
        (\<forall>k < m_szSize b. int (pos b' k) = m_iFirstReadableOutOfOrder b \<and> pk b' k \<noteq> None \<longrightarrow>
           s_first (sn S (B + 1) k) \<and> \<not> s_order (sn S (B + 1) k))"
    proof (cases "m_iFirstReadableOutOfOrder b = - 1")
      case False
      have "s_first (sn S (B + 1) k) \<and> \<not> s_order (sn S (B + 1) k)"
        if "k < m_szSize b" "int (pos b' k) = m_iFirstReadableOutOfOrder b" "pk b' k \<noteq> None" for k
      proof -
        have k: "Suc k < m_szSize b" using pk [OF that(1)] that(3) by argo
        then have "pk b (Suc k) \<noteq> None" "int (pos b (Suc k)) = m_iFirstReadableOutOfOrder b"
          using pk [OF that(1)] that(2,3) pos [of k] by simp_all
        with k have "s_first (sn S B (Suc k)) \<and> \<not> s_order (sn S B (Suc k))"
          using c False unfolding content_def by blast
        then show ?thesis by (simp add: sn_shift)
      qed
      then show ?thesis using c False unfolding content_def by blast
    qed simp
  qed (use c ring in \<open>auto simp: content_def\<close>)
qed

text \<open>The fields the contents depend on.\<close>

definition content_fields :: "CRcvBuffer \<Rightarrow> _" where
  "content_fields b = (m_entries b, m_pUnitQueue b, m_szSize b, m_iStartPos b, m_bMessageAPI b, m_bPeerRexmitFlag b,
     isTsbPd b, m_numOutOfOrderPackets b, m_iFirstReadableOutOfOrder b)"

lemma content_fields_cong:
  assumes "content_fields b' = content_fields b"
  shows "pos b' = pos b" "pk b' = pk b" "st b' = st b" "m_szSize b' = m_szSize b" "content Q B S M b' = content Q B S M b"
    "m_iFirstReadableOutOfOrder b' = m_iFirstReadableOutOfOrder b" "isTsbPd b' = isTsbPd b" "m_iStartPos b' = m_iStartPos b"
    "packetAt b' = packetAt b" "entry_at b' = entry_at b"
proof -
  have f: "m_entries b' = m_entries b" "m_pUnitQueue b' = m_pUnitQueue b" "m_szSize b' = m_szSize b" "m_iStartPos b' = m_iStartPos b"
    "m_bMessageAPI b' = m_bMessageAPI b" "m_bPeerRexmitFlag b' = m_bPeerRexmitFlag b" "isTsbPd b' = isTsbPd b"
    "m_numOutOfOrderPackets b' = m_numOutOfOrderPackets b" "m_iFirstReadableOutOfOrder b' = m_iFirstReadableOutOfOrder b"
    using assms by (simp_all add: content_fields_def)
  then show "m_szSize b' = m_szSize b" "m_iFirstReadableOutOfOrder b' = m_iFirstReadableOutOfOrder b" "isTsbPd b' = isTsbPd b"
    "m_iStartPos b' = m_iStartPos b" by simp_all
  show pos: "pos b' = pos b" by (simp add: fun_eq_iff pos_def f)
  show pk: "pk b' = pk b" and "st b' = st b" "packetAt b' = packetAt b" "entry_at b' = entry_at b"
    using packetAt_cong [OF f(1,2)] by (simp_all add: fun_eq_iff pk_def st_def pos)
  have un: "unordered b' = unordered b" using packetAt_cong [OF f(1,2)] by (simp add: unordered_def f)
  have ring: "ring_ok Q b' = ring_ok Q b" using f by (simp add: ring_ok_def stored_def St_def)
  show "content Q B S M b' = content Q B S M b"
    unfolding content_def ring un pos pk carries_cong [OF f(6)] f ..
qed

section \<open>Moving the start\<close>

definition shifted :: "nat \<Rightarrow> CRcvBuffer \<Rightarrow> CRcvBuffer \<Rightarrow> bool" where
  "shifted d b b' \<longleftrightarrow> m_szSize b' = m_szSize b \<and> m_iStartPos b' = pos b d \<and> m_iFirstNonreadPos b' = m_iFirstNonreadPos b \<and>
     m_bPeerRexmitFlag b' = m_bPeerRexmitFlag b \<and> m_bMessageAPI b' = m_bMessageAPI b \<and> isTsbPd b' = isTsbPd b \<and>
     (\<forall>k < m_szSize b. pk b' k = (if k + d < m_szSize b then pk b (k + d) else None) \<and>
        st b' k = (if k + d < m_szSize b then st b (k + d) else EntryState_Empty))"

lemma shifted_pos: "shifted d b b' \<Longrightarrow> pos b' k = pos b (k + d)"
  by (simp add: shifted_def pos_def mod_add_right_eq ac_simps)

lemma shifted_0:
  assumes "ring_ok Q b"
  shows "shifted 0 b b"
  using ring_size [OF assms] by (simp add: shifted_def)

lemma shifted_trans:
  assumes 1: "shifted d b c" and 2: "shifted e c b'"
  shows "shifted (d + e) b b'"
proof -
  have n: "m_szSize c = m_szSize b" using 1 by (simp add: shifted_def)
  have "pk b' k = (if k + (d + e) < m_szSize b then pk b (k + (d + e)) else None) \<and>
      st b' k = (if k + (d + e) < m_szSize b then st b (k + (d + e)) else EntryState_Empty)" if k: "k < m_szSize b" for k
  proof (cases "k + e < m_szSize b")
    case True
    then have "pk b' k = pk c (k + e)" "st b' k = st c (k + e)" using 2 k n by (auto simp: shifted_def)
    then show ?thesis using 1 True by (auto simp: shifted_def ac_simps)
  next
    case False
    then show ?thesis using 2 k n by (auto simp: shifted_def)
  qed
  then show ?thesis using 1 2 shifted_pos [OF 1, of e] n by (simp add: shifted_def ac_simps)
qed

text \<open>A complete message of the stream at an offset of the buffer.\<close>

definition message_at :: "int \<Rightarrow> (int \<Rightarrow> sent) \<Rightarrow> CRcvBuffer \<Rightarrow> nat \<Rightarrow> nat \<Rightarrow> bool" where
  "message_at B S b k m \<longleftrightarrow> k + m < m_szSize b \<and> (\<forall>j \<le> m. pk b (k + j) \<noteq> None) \<and>
     (\<forall>j < m. \<not> s_last (sn S B (k + j))) \<and> s_last (sn S B (k + m))"

definition first_ok :: "int \<Rightarrow> (int \<Rightarrow> sent) \<Rightarrow> CRcvBuffer \<Rightarrow> bool" where
  "first_ok B S b \<longleftrightarrow> m_iFirstReadableOutOfOrder b = - 1 \<or>
     (\<exists>k m. int (pos b k) = m_iFirstReadableOutOfOrder b \<and> message_at B S b k m)"

lemma message_at_shift:
  assumes "shifted d b b'" "message_at B S b (k + d) m"
  shows "message_at (B + int d) S b' k m"
proof -
  have "pk b' (k + j) = pk b (k + d + j)" if "j \<le> m" for j
    using assms that by (auto simp: shifted_def message_at_def ac_simps)
  then show ?thesis using assms by (auto simp: message_at_def shifted_def sn_shift ac_simps)
qed

lemma first_ok_shift:
  assumes "first_ok B S b" "shifted d b b'"
    and "m_iFirstReadableOutOfOrder b' = m_iFirstReadableOutOfOrder b \<or> m_iFirstReadableOutOfOrder b' = - 1"
    and far: "\<And>k m. m_iFirstReadableOutOfOrder b' \<noteq> - 1 \<Longrightarrow> int (pos b k) = m_iFirstReadableOutOfOrder b \<Longrightarrow> message_at B S b k m \<Longrightarrow> d \<le> k"
  shows "first_ok (B + int d) S b'"
proof (cases "m_iFirstReadableOutOfOrder b' = - 1")
  case False
  then obtain k m where k: "int (pos b k) = m_iFirstReadableOutOfOrder b'" "message_at B S b k m"
    using assms(1,3) by (auto simp: first_ok_def)
  then have "d \<le> k" using far False assms(3) by auto
  then obtain l where "k = l + d" by (auto simp: le_iff_add add.commute)
  then show ?thesis using k message_at_shift [OF assms(2), of B S l m] shifted_pos [OF assms(2), of l]
    unfolding first_ok_def by (intro disjI2 exI [of _ l] exI [of _ m]) simp
qed (simp add: first_ok_def)

lemma shift_step:
  assumes c: "content Q B S M b1" and same: "same b b1"
    and pk1: "\<forall>j < m_szSize b. pk b1 j = (if j = 0 then None else pk b j) \<and> st b1 j = (if j = 0 then EntryState_Empty else st b j)"
    and b': "m_entries b' = m_entries b1" "m_pUnitQueue b' = m_pUnitQueue b1" "m_szSize b' = m_szSize b1" "m_iStartPos b' = pos b1 1"
      "m_bMessageAPI b' = m_bMessageAPI b1" "m_bPeerRexmitFlag b' = m_bPeerRexmitFlag b1" "isTsbPd b' = isTsbPd b1"
      "m_numOutOfOrderPackets b' = m_numOutOfOrderPackets b1" "m_iFirstReadableOutOfOrder b' = m_iFirstReadableOutOfOrder b1"
      "m_iFirstNonreadPos b' = m_iFirstNonreadPos b1"
  shows "content Q (B + 1) S (M - 1) b'" "shifted 1 b b'"
proof -
  have n: "m_szSize b1 = m_szSize b" using same by (simp add: same_def)
  have z: "0 < m_szSize b" using ring_size [OF content_ring [OF c]] n by simp
  then have none: "pk b1 0 = None" "st b1 0 = EntryState_Empty" using pk1 by auto
  note a = content_advance [OF c none(1) b'(1-9)]
  show "content Q (B + 1) S (M - 1) b'" by (rule a(1))
  show "shifted 1 b b'" using a(3,4) pk1 none b' same n by (auto simp: shifted_def same_def same_pos [OF same])
qed

lemma start_entry:
  assumes "content Q B S M b"
  shows "entry_at b (m_iStartPos b) = Some (m_entries b ! m_iStartPos b)" "status (m_entries b ! m_iStartPos b) = st b 0"
    "pUnit (m_entries b ! m_iStartPos b) = None \<longleftrightarrow> pk b 0 = None"
  using ring_entry [OF content_ring [OF assms]] ring_unit_None [OF content_ring [OF assms]] ring_size [OF content_ring [OF assms]]
  by (simp_all add: st_def St_def pk_def)

text \<open>One round of the loop of \<^verbatim>\<open>dropUpTo\<close>.\<close>

lemma drop_entries_step:
  assumes c: "content Q B S M b"
  shows "\<exists>b'. drop_entries (Suc len) x y b =
      drop_entries len (x + of_bool (st b 0 = EntryState_Empty)) (y + of_bool (st b 0 = EntryState_Avail)) b' \<and>
    content Q (B + 1) S (M - 1) b' \<and> shifted 1 b b' \<and> m_iMaxPosOff b' = m_iMaxPosOff b \<and> (first_ok B S b \<longrightarrow> first_ok (B + 1) S b')"
proof -
  note sz = ring_size [OF content_ring [OF c]]
  obtain b1 where b1: "dropUnitInPos (pos b 0) b = Some (pk b 0 \<noteq> None, b1)" "content Q B S M b1" "same b b1"
    "m_iFirstReadableOutOfOrder b1 =
      (if pk b 0 \<noteq> None \<and> int (pos b 0) = m_iFirstReadableOutOfOrder b then - 1 else m_iFirstReadableOutOfOrder b)"
    "\<forall>j < m_szSize b. pk b1 j = (if j = 0 then None else pk b j) \<and>
       st b1 j = (if j = 0 \<and> pk b 0 \<noteq> None then EntryState_Empty else st b j)"
    using dropUnitInPos_content [OF c sz(1)] by blast
  have n: "m_szSize b1 = m_szSize b" "m_iStartPos b1 = m_iStartPos b" "pos b1 0 = m_iStartPos b" "m_iMaxPosOff b1 = m_iMaxPosOff b"
    using b1(3) sz by (simp_all add: same_def)
  have none: "pk b1 0 = None" using b1(5) sz by simp
  define e where "e = (m_entries b1 ! m_iStartPos b)\<lparr>status := EntryState_Empty\<rparr>"
  define b2 where "b2 = set_entry (m_iStartPos b) e b1"
  have b2': "b2 = set_entry (pos b1 0) ((m_entries b1 ! pos b1 0)\<lparr>status := EntryState_Empty\<rparr>) b1"
    by (simp add: b2_def e_def n)
  note s = setStatus_content [OF b1(2) _ none, of EntryState_Empty, folded b2', simplified, unfolded n(1), OF sz(1)]
  have same2: "same b b2" by (rule same_trans [OF b1(3) s(2)])
  have pk2: "\<forall>j < m_szSize b. pk b2 j = (if j = 0 then None else pk b j) \<and> st b2 j = (if j = 0 then EntryState_Empty else st b j)"
    using s(4,5) b1(5) by auto
  define b' where "b' = b2\<lparr>m_iStartPos := incPos b2 (m_iStartPos b2) 1\<rparr>"
  have "m_iStartPos b2 = m_iStartPos b" "m_szSize b2 = m_szSize b" using same2 by (simp_all add: same_def)
  then have start: "incPos b2 (m_iStartPos b2) 1 = pos b2 1" by (simp add: incPos_def pos_def)
  have step: "content Q (B + 1) S (M - 1) b'" "shifted 1 b b'"
    using shift_step [OF s(1) same2 pk2, of b'] start by (simp_all add: b'_def isTsbPd_def)
  have entry: "entry_at b1 (m_iStartPos b) = Some (m_entries b1 ! m_iStartPos b)" "pUnit (m_entries b1 ! m_iStartPos b) = None"
    using start_entry [OF b1(2)] none n by simp_all
  have "drop_entries (Suc len) x y b =
      drop_entries len (x + of_bool (st b 0 = EntryState_Empty)) (y + of_bool (st b 0 = EntryState_Avail)) b'"
    using b1(1) sz entry start_entry [OF c]
    by (cases "st b 0") (simp_all add: n Let_def b'_def b2_def e_def)
  moreover have "first_ok (B + 1) S b'" if "first_ok B S b"
  proof -
    have "m_iFirstReadableOutOfOrder b' = m_iFirstReadableOutOfOrder b1" using s(3) by (simp add: b'_def)
    moreover have "1 \<le> k" if "m_iFirstReadableOutOfOrder b1 \<noteq> - 1" "int (pos b k) = m_iFirstReadableOutOfOrder b" "message_at B S b k m" for k m
    proof (rule ccontr)
      assume "\<not> 1 \<le> k"
      then have k: "k = 0" by simp
      then have "pk b 0 \<noteq> None" using that(3) by (auto simp: message_at_def)
      then show False using that(1,2) b1(4) k by simp
    qed
    ultimately show ?thesis using first_ok_shift [OF that step(2)] b1(4) by (simp split: if_splits)
  qed
  moreover have "m_iMaxPosOff b' = m_iMaxPosOff b" using same2 by (simp add: b'_def same_def)
  ultimately show ?thesis using step by blast
qed

text \<open>The whole loop: the entries it passes, and how it counts them.\<close>

definition missing_in :: "CRcvBuffer \<Rightarrow> nat \<Rightarrow> nat" where
  "missing_in b len = card {k. k < len \<and> (m_szSize b \<le> k \<or> st b k = EntryState_Empty)}"

definition available_in :: "CRcvBuffer \<Rightarrow> nat \<Rightarrow> nat" where
  "available_in b len = card {k. k < len \<and> k < m_szSize b \<and> st b k = EntryState_Avail}"

lemma card_shift: "card {k. k < Suc len \<and> P k} = of_bool (P 0) + card {k. k < len \<and> P (Suc k)}"
proof -
  have fin: "finite {k. k < len \<and> P (Suc k)}" by simp
  have "{k. k < Suc len \<and> P k} = (if P 0 then {0} else {}) \<union> Suc ` {k. k < len \<and> P (Suc k)}"
    by (auto simp: image_iff less_Suc_eq_0_disj)
  also have "card \<dots> = card (if P 0 then {0 :: nat} else {}) + card (Suc ` {k. k < len \<and> P (Suc k)})"
    by (rule card_Un_disjoint) auto
  also have "card (Suc ` {k. k < len \<and> P (Suc k)}) = card {k. k < len \<and> P (Suc k)}" by (rule card_image) simp
  finally show ?thesis by simp
qed

lemma drop_entries_content:
  "content Q B S M b \<Longrightarrow> \<exists>b'. drop_entries len x y b = Some (x + missing_in b len, y + available_in b len, b') \<and>
     content Q (B + int len) S (M - len) b' \<and> shifted len b b' \<and> m_iMaxPosOff b' = m_iMaxPosOff b \<and>
     (first_ok B S b \<longrightarrow> first_ok (B + int len) S b')"
proof (induction len arbitrary: B M b x y)
  case 0
  then show ?case using shifted_0 [OF content_ring] by (auto simp: missing_in_def available_in_def)
next
  case (Suc len)
  note sz = ring_size [OF content_ring [OF Suc.prems]]
  obtain b1 where b1: "drop_entries (Suc len) x y b =
      drop_entries len (x + of_bool (st b 0 = EntryState_Empty)) (y + of_bool (st b 0 = EntryState_Avail)) b1"
    "content Q (B + 1) S (M - 1) b1" "shifted 1 b b1" "m_iMaxPosOff b1 = m_iMaxPosOff b" "first_ok B S b \<longrightarrow> first_ok (B + 1) S b1"
    using drop_entries_step [OF Suc.prems] by blast
  obtain b' where b': "drop_entries len (x + of_bool (st b 0 = EntryState_Empty)) (y + of_bool (st b 0 = EntryState_Avail)) b1 =
      Some (x + of_bool (st b 0 = EntryState_Empty) + missing_in b1 len, y + of_bool (st b 0 = EntryState_Avail) + available_in b1 len, b')"
    "content Q (B + 1 + int len) S (M - 1 - len) b'" "shifted len b1 b'" "m_iMaxPosOff b' = m_iMaxPosOff b1"
    "first_ok (B + 1) S b1 \<longrightarrow> first_ok (B + 1 + int len) S b'"
    using Suc.IH [OF b1(2)] by blast
  have n: "m_szSize b1 = m_szSize b" using b1(3) by (simp add: shifted_def)
  have eq: "m_szSize b1 \<le> k \<or> st b1 k = EntryState_Empty \<longleftrightarrow> m_szSize b \<le> Suc k \<or> st b (Suc k) = EntryState_Empty"
    "k < m_szSize b1 \<and> st b1 k = EntryState_Avail \<longleftrightarrow> Suc k < m_szSize b \<and> st b (Suc k) = EntryState_Avail" for k
    using b1(3) n by (cases "k < m_szSize b"; auto simp: shifted_def)+
  have "missing_in b (Suc len) = of_bool (st b 0 = EntryState_Empty) + missing_in b1 len"
    "available_in b (Suc len) = of_bool (st b 0 = EntryState_Avail) + available_in b1 len"
    using sz unfolding missing_in_def available_in_def eq card_shift by simp_all
  moreover have "shifted (Suc len) b b'" using shifted_trans [OF b1(3) b'(3)] by simp
  ultimately show ?case using b1 b' by (intro exI [of _ b']) (simp add: algebra_simps)
qed

section \<open>Fillers\<close>

abbreviation filler :: "EntryStatus \<Rightarrow> bool" where
  "filler z \<equiv> z = EntryState_Read \<or> z = EntryState_Drop"

lemma release_fillers_content:
  assumes "content Q B S M b" "m_iStartSeqNo b = sq B" "m_iMaxPosOff b = M"
  shows "\<exists>d b'. releaseNextFillerEntries b = Some b' \<and> content Q (B + int d) S (M - d) b' \<and> shifted d b b' \<and>
    m_iStartSeqNo b' = sq (B + int d) \<and> m_iMaxPosOff b' = M - d \<and> (first_ok B S b \<longrightarrow> first_ok (B + int d) S b') \<and>
    d \<le> m_szSize b \<and> (\<forall>k < d. filler (st b k)) \<and> \<not> filler (st b' 0)"
  using assms
proof (induction "card {i. i < m_szSize b \<and> filler (st b i)}" arbitrary: B M b rule: less_induct)
  case less
  note sz = ring_size [OF content_ring [OF less.prems(1)]] and e = start_entry [OF less.prems(1)]
  show ?case
  proof (cases "filler (st b 0)")
    case False
    then have "releaseNextFillerEntries b = Some b"
      using e by (simp add: releaseNextFillerEntries_def release_fillers.simps)
    then show ?thesis using less.prems False shifted_0 [OF content_ring [OF less.prems(1)]] by (intro exI [of _ 0] exI [of _ b]) simp
  next
    case True
    have none: "pk b 0 = None" using True st_avail [OF content_ring [OF less.prems(1)], of 0] by auto
    define b0 where "b0 = b\<lparr>m_iStartSeqNo := incseq (m_iStartSeqNo b)\<rparr>"
    have "content_fields b0 = content_fields b" by (simp add: b0_def content_fields_def isTsbPd_def)
    note cong = content_fields_cong [OF this]
    have c0: "content Q B S M b0" using less.prems(1) cong(5) by simp
    have num: "m_numOutOfOrderPackets b0 = (if isTsbPd b0 then 0 else card (unordered b0 - {pos b0 0}))"
      using c0 unordered_same [of b0 0] none by (simp add: cong content_def)
    obtain b1 where b1: "releaseUnitInPos (pos b0 0) b0 = Some b1" "content Q B S M b1" "same b0 b1"
      "m_iFirstReadableOutOfOrder b1 = m_iFirstReadableOutOfOrder b0"
      "\<forall>j < m_szSize b0. pk b1 j = (if j = 0 then None else pk b0 j) \<and> st b1 j = (if j = 0 then EntryState_Empty else st b0 j)"
      using releaseUnitInPos_content [OF c0 _ same_refl _ _ num] sz cong(4) by auto
    define b2 where "b2 = b1\<lparr>m_iStartPos := incPos b1 (m_iStartPos b) 1, m_iMaxPosOff := m_iMaxPosOff b1 - 1\<rparr>"
    have n: "m_szSize b1 = m_szSize b" "m_iStartPos b1 = m_iStartPos b" "m_iMaxPosOff b1 = M" "m_iStartSeqNo b1 = sq (B + 1)"
      using b1(3) less.prems(2,3) by (simp_all add: same_def b0_def)
    have pos1: "incPos b1 (m_iStartPos b) 1 = pos b1 1" using n by (simp add: incPos_def pos_def)
    have step: "content Q (B + 1) S (M - 1) b2" "shifted 1 b0 b2"
      using shift_step [OF b1(2,3,5), of b2] pos1 by (simp_all add: b2_def isTsbPd_def)
    have sh: "shifted 1 b b2" using step(2) unfolding shifted_def cong by (simp add: b0_def isTsbPd_def)
    have fo: "first_ok (B + 1) S b2" if "first_ok B S b"
    proof -
      have "1 \<le> k" if "message_at B S b k m" for k m
        using that none by (cases k) (auto simp: message_at_def)
      then show ?thesis using first_ok_shift [OF that sh] b1(4) cong(6) by (simp add: b2_def)
    qed
    have b2': "m_iStartSeqNo b2 = sq (B + 1)" "m_iMaxPosOff b2 = M - 1" using n by (simp_all add: b2_def)
    have st2: "m_szSize b2 = m_szSize b" "\<forall>k < m_szSize b. st b2 k = (if k + 1 < m_szSize b then st b (k + 1) else EntryState_Empty)"
      using sh by (simp_all add: shifted_def)
    obtain l where l: "m_szSize b = Suc l" using sz(1) by (cases "m_szSize b") auto
    have "{i. i < m_szSize b2 \<and> filler (st b2 i)} = {i. i < l \<and> filler (st b (Suc i))}"
      using st2 l by (auto split: if_splits)
    then have lt: "card {i. i < m_szSize b2 \<and> filler (st b2 i)} < card {i. i < m_szSize b \<and> filler (st b i)}"
      using card_shift [of l "\<lambda>i. filler (st b i)"] True l by simp
    obtain d b' where b': "releaseNextFillerEntries b2 = Some b'" "content Q (B + 1 + int d) S (M - 1 - d) b'" "shifted d b2 b'"
      "m_iStartSeqNo b' = sq (B + 1 + int d)" "m_iMaxPosOff b' = M - 1 - d" "first_ok (B + 1) S b2 \<longrightarrow> first_ok (B + 1 + int d) S b'"
      "d \<le> m_szSize b2" "\<forall>k < d. filler (st b2 k)" "\<not> filler (st b' 0)"
      using less.hyps [OF lt step(1) b2'] by blast
    have loop: "releaseNextFillerEntries b = releaseNextFillerEntries b2"
      unfolding releaseNextFillerEntries_def using True e b1(1) cong(1) sz n
      by (subst release_fillers.simps) (simp add: b0_def [symmetric] b2_def Let_def)
    have d: "Suc d \<le> m_szSize b" and fill: "\<forall>k < Suc d. filler (st b k)"
    proof -
      have lt: "k + 1 < m_szSize b \<and> filler (st b (k + 1))" if "k < d" for k
      proof -
        have "k < m_szSize b" "filler (st b2 k)" using that b'(7,8) st2(1) by auto
        then show ?thesis using st2(2) by (auto split: if_splits)
      qed
      show "Suc d \<le> m_szSize b" using lt [of "d - 1"] sz by (cases d) auto
      show "\<forall>k < Suc d. filler (st b k)" using lt True by (auto simp: less_Suc_eq_0_disj)
    qed
    have "shifted (Suc d) b b'" using shifted_trans [OF sh b'(3)] by simp
    then show ?thesis using loop b' fo d fill
      by (intro exI [of _ "Suc d"] exI [of _ b']) (simp add: algebra_simps)
  qed
qed

section \<open>The readable prefix\<close>

definition nonread_ok :: "int \<Rightarrow> (int \<Rightarrow> sent) \<Rightarrow> CRcvBuffer \<Rightarrow> nat \<Rightarrow> bool" where
  "nonread_ok B S b r \<longleftrightarrow> r \<le> m_iMaxPosOff b \<and> (\<forall>k < r. pk b k \<noteq> None) \<and> (0 < r \<longrightarrow> s_last (sn S B (r - 1)))"

definition message_starts :: "int \<Rightarrow> (int \<Rightarrow> sent) \<Rightarrow> CRcvBuffer \<Rightarrow> nat \<Rightarrow> bool" where
  "message_starts B S b r \<longleftrightarrow> s_first (sn S B r) \<and> (\<exists>m. message_at B S b r m)"

lemma entry_pos:
  assumes "content Q B S M b"
  shows "entry_at b (pos b k) = Some (m_entries b ! pos b k)" "status (m_entries b ! pos b k) = st b k"
    "pUnit (m_entries b ! pos b k) = None \<longleftrightarrow> pk b k = None" "packetAt b (pos b k) = pk b k"
  using ring_entry [OF content_ring [OF assms]] ring_unit_None [OF content_ring [OF assms]] ring_size [OF content_ring [OF assms]]
  by (simp_all add: st_def St_def pk_def)

lemma content_at:
  assumes "content Q B S M b" "k < m_szSize b" "pk b k = Some p"
  shows "k < M" "is_first p = s_first (sn S B k)" "is_last p = s_last (sn S B k)"
    "getMsgOrderFlag p = s_order (sn S B k)" "rb_msgseq b p = s_msgno (sn S B k)" "getSeqNo p = sq (B + int k)"
  using content_pk [OF assms] by (auto simp: carries_def sn_def)

lemma nonread_scan_spec:
  assumes c: "content Q B S M b" and M: "M < m_szSize b" and r: "r \<le> k" "k \<le> M" "pk b r \<noteq> None"
    and before: "\<forall>j. r \<le> j \<and> j < k \<longrightarrow> pk b j \<noteq> None \<and> \<not> s_last (sn S B j)"
  shows "(\<exists>m. message_at B S b r m \<and> nonread_scan (pos b M) (pos b r) (pos b k) b = Some (b\<lparr>m_iFirstNonreadPos := pos b (r + m + 1)\<rparr>)) \<or>
    nonread_scan (pos b M) (pos b r) (pos b k) b = Some b \<and> (\<forall>m. \<not> message_at B S b r m)"
  using r before
proof (induction "M - k" arbitrary: k rule: less_induct)
  case less
  note sz = ring_size [OF content_ring [OF c]] and e = entry_pos [OF c]
  have eq: "pos b k = pos b M \<longleftrightarrow> k = M" using pos_inject [OF sz(3)] less.prems(2) M by simp
  have avail: "st b r = EntryState_Avail" using st_avail [OF content_ring [OF c]] less.prems(3) by simp
  have no: "\<forall>m. \<not> message_at B S b r m" if "pk b k = None"
  proof (intro allI notI)
    fix m assume m: "message_at B S b r m"
    show False
    proof (cases "r + m < k")
      case True
      then show False using m less.prems(4) by (auto simp: message_at_def)
    next
      case False
      then have "k - r \<le> m" "r + (k - r) = k" using less.prems(1) by auto
      then show False using m that by (metis message_at_def)
    qed
  qed
  show ?case
  proof (cases "pk b k")
    case None
    then show ?thesis using no e [of k] e [of r] by (subst (1 2) nonread_scan.simps) auto
  next
    case (Some p)
    then have kM: "k < M" using content_at(1) [OF c _ Some] less.prems(2) M by simp
    then have k: "k < m_szSize b" using M by simp
    note p = content_at [OF c k Some]
    have unf: "nonread_scan (pos b M) (pos b r) (pos b k) b =
        (if is_last p then Some (b\<lparr>m_iFirstNonreadPos := pos b (Suc k)\<rparr>) else nonread_scan (pos b M) (pos b r) (pos b (Suc k)) b)"
      using Some eq kM e [of k] e [of r] avail content_api [OF c] by (subst nonread_scan.simps) auto
    show ?thesis
    proof (cases "is_last p")
      case True
      have "pk b j \<noteq> None" if "r \<le> j" "j \<le> k" for j using that less.prems(4) Some by (cases "j = k") auto
      then have "message_at B S b r (k - r)"
        using less.prems(1,4) True p(3) k by (auto simp: message_at_def)
      then show ?thesis using unf True less.prems(1) by auto
    next
      case False
      have "\<forall>j. r \<le> j \<and> j < Suc k \<longrightarrow> pk b j \<noteq> None \<and> \<not> s_last (sn S B j)"
        using less.prems(4) Some False p(3) by (auto simp: less_Suc_eq)
      then show ?thesis unfolding unf using less.hyps [of "Suc k"] kM less.prems(1,3) False by simp
    qed
  qed
qed

lemma message_at_bound: "content Q B S M b \<Longrightarrow> message_at B S b r m \<Longrightarrow> r + m < M"
proof -
  assume c: "content Q B S M b" and m: "message_at B S b r m"
  then obtain p where "pk b (r + m) = Some p" "r + m < m_szSize b" by (auto simp: message_at_def)
  then show ?thesis using content_at(1) [OF c] by simp
qed

lemma nonread_loop_spec:
  assumes c: "content Q B S M b" and M: "M < m_szSize b" "m_iMaxPosOff b = M"
    and r: "m_iFirstNonreadPos b = pos b r" "nonread_ok B S b r"
  shows "\<exists>r'. nonread_loop (pos b M) (pos b r) b = Some (b\<lparr>m_iFirstNonreadPos := pos b r'\<rparr>) \<and> r \<le> r' \<and>
    nonread_ok B S b r' \<and> \<not> message_starts B S b r'"
  using assms
proof (induction "M - r" arbitrary: r b rule: less_induct)
  case less
  note c = less.prems(1) and M = less.prems(2,3)
  note sz = ring_size [OF content_ring [OF c]] and e = entry_pos [OF c]
  have self: "b\<lparr>m_iFirstNonreadPos := pos b r\<rparr> = b" using less.prems(4) by simp
  have rM: "r \<le> M" using less.prems(5) M by (simp add: nonread_ok_def)
  show ?case
  proof (cases "pk b r")
    case None
    then have "nonread_loop (pos b M) (pos b r) b = Some b" using e [of r] by (subst nonread_loop.simps) simp
    moreover have "\<not> message_starts B S b r"
      using None by (auto simp: message_starts_def message_at_def dest: spec [of _ 0])
    ultimately show ?thesis using self less.prems(5) by (intro exI [of _ r]) simp
  next
    case (Some p)
    then have r: "r < m_szSize b" using rM M(1) by simp
    note p = content_at [OF c r Some]
    have av: "st b r = EntryState_Avail" using st_avail [OF content_ring [OF c]] Some by simp
    have un: "pUnit (m_entries b ! pos b r) \<noteq> None" using e(3) [of r] Some by simp
    show ?thesis
    proof (cases "is_first p")
      case False
      then have "nonread_loop (pos b M) (pos b r) b = Some b"
        using Some av un e [of r] content_api [OF c] by (subst nonread_loop.simps) simp
      then show ?thesis using self less.prems(5) False p(2) by (intro exI [of _ r]) (simp add: message_starts_def)
    next
      case True
      have "pk b r \<noteq> None" "\<forall>j. r \<le> j \<and> j < r \<longrightarrow> pk b j \<noteq> None \<and> \<not> s_last (sn S B j)" using Some by auto
      from nonread_scan_spec [OF c M(1) order_refl rM this]
      consider m where "message_at B S b r m"
          "nonread_scan (pos b M) (pos b r) (pos b r) b = Some (b\<lparr>m_iFirstNonreadPos := pos b (r + m + 1)\<rparr>)"
        | "nonread_scan (pos b M) (pos b r) (pos b r) b = Some b" "\<forall>m. \<not> message_at B S b r m"
        by blast
      then show ?thesis
      proof cases
        case 2
        then have "nonread_loop (pos b M) (pos b r) b = Some b"
          using Some av un e [of r] True less.prems(4) by (subst nonread_loop.simps) simp
        then show ?thesis using self less.prems(5) 2 by (intro exI [of _ r]) (simp add: message_starts_def)
      next
        case 1
        define r1 where "r1 = r + m + 1"
        define b1 where "b1 = b\<lparr>m_iFirstNonreadPos := pos b r1\<rparr>"
        have r1: "r < r1" "r1 \<le> M" "r1 < m_szSize b" using message_at_bound [OF c 1(1)] M(1) by (auto simp: r1_def)
        have "content_fields b1 = content_fields b" by (simp add: b1_def content_fields_def isTsbPd_def)
        note cong = content_fields_cong [OF this]
        have nok: "nonread_ok B S b r1"
        proof -
          have "pk b k \<noteq> None" if "k < r1" for k
          proof (cases "k < r")
            case False
            then have "k - r \<le> m" "r + (k - r) = k" using that by (auto simp: r1_def)
            then show ?thesis using 1(1) by (metis message_at_def)
          qed (use less.prems(5) in \<open>simp add: nonread_ok_def\<close>)
          moreover have "s_last (sn S B (r1 - 1))" using 1(1) by (simp add: message_at_def r1_def)
          ultimately show ?thesis using r1 M by (simp add: nonread_ok_def)
        qed
        have neq: "pos b r \<noteq> pos b r1" using pos_inject [OF sz(3) r r1(3)] r1(1) by simp
        have unf: "nonread_loop (pos b M) (pos b r) b = (if pk b r1 = None then Some b1 else nonread_loop (pos b M) (pos b r1) b1)"
          using Some av un e [of r] e [of r1] True 1(2) neq
          by (subst nonread_loop.simps) (simp add: r1_def [symmetric, simplified] b1_def [symmetric] cong, simp add: b1_def)
        show ?thesis
        proof (cases "pk b r1")
          case None
          then have "\<not> message_starts B S b r1"
            by (auto simp: message_starts_def message_at_def dest: spec [of _ 0])
          then show ?thesis using unf None nok r1 by (intro exI [of _ r1]) (simp add: b1_def)
        next
          case (Some q)
          have "\<exists>r'. nonread_loop (pos b1 M) (pos b1 r1) b1 = Some (b1\<lparr>m_iFirstNonreadPos := pos b1 r'\<rparr>) \<and> r1 \<le> r' \<and>
              nonread_ok B S b1 r' \<and> \<not> message_starts B S b1 r'"
            using less.hyps [of r1 b1] c M r1 nok by (simp add: cong nonread_ok_def) (simp add: b1_def cong)
          then show ?thesis using unf Some r1
            by (auto simp: cong nonread_ok_def message_starts_def message_at_def) (auto simp: b1_def)
        qed
      qed
    qed
  qed
qed

end
