(* ===== verification/RcvSearch.thy ===== *)
theory RcvSearch
  imports RcvContent
begin

text \<open>
  The searches of the receiver buffer: \<^verbatim>\<open>updateNonreadPos\<close> and the searches for a message that
  may be read out of order.  Each returns on every buffer with the contents invariant, and what it finds is
  a complete message.
\<close>

lemma updateNonreadPos_spec:
  assumes c: "content Q B S (m_iMaxPosOff b) b" and M: "m_iMaxPosOff b < m_szSize b"
    and r: "m_iFirstNonreadPos b = pos b r" "nonread_ok B S b r"
  shows "\<exists>r'. updateNonreadPos b = Some (b\<lparr>m_iFirstNonreadPos := pos b r'\<rparr>) \<and> r \<le> r' \<and> nonread_ok B S b r' \<and> \<not> message_starts B S b r'"
proof (cases "m_iMaxPosOff b = 0")
  case True
  then have "\<not> message_starts B S b r" using message_at_bound [OF c] by (auto simp: message_starts_def)
  then show ?thesis using True r by (intro exI [of _ r]) (simp add: updateNonreadPos_def)
next
  case False
  then show ?thesis using nonread_loop_spec [OF c M refl r] r(1) by (simp add: updateNonreadPos_def incPos_start)
qed

section \<open>Messages that may be read out of order\<close>

lemma framed_next:
  "framed S \<Longrightarrow> s_first (sn S B (Suc k)) = s_last (sn S B k)"
  "framed S \<Longrightarrow> \<not> s_last (sn S B k) \<Longrightarrow> s_order (sn S B (Suc k)) = s_order (sn S B k) \<and> s_msgno (sn S B (Suc k)) = s_msgno (sn S B k)"
proof -
  have "sn S B (Suc k) = S (B + int k + 1)" "sn S B k = S (B + int k)" by (simp_all add: sn_def algebra_simps)
  then show "framed S \<Longrightarrow> s_first (sn S B (Suc k)) = s_last (sn S B k)"
    "framed S \<Longrightarrow> \<not> s_last (sn S B k) \<Longrightarrow> s_order (sn S B (Suc k)) = s_order (sn S B k) \<and> s_msgno (sn S B (Suc k)) = s_msgno (sn S B k)"
    by (simp_all add: framed_def)
qed

lemma framed_order:
  assumes "framed S" "k \<le> l" "\<forall>j. k \<le> j \<and> j < l \<longrightarrow> \<not> s_last (sn S B j)"
  shows "s_order (sn S B l) = s_order (sn S B k)"
  using assms(2,3)
proof (induction l rule: dec_induct)
  case (step n)
  then show ?case using framed_next(2) [OF assms(1), of B n] by simp
qed simp

lemma unit_at:
  assumes "content Q B S M b" "pk b k = Some p"
  obtains u where "pUnit (m_entries b ! pos b k) = Some u"
  using entry_pos(3) [OF assms(1), of k] assms(2) by fastforce

lemma scan_right_spec:
  assumes c: "content Q B S M b" and M: "M < m_szSize b" and k: "k0 \<le> k" "k < M - 1"
    and before: "\<forall>j. k0 \<le> j \<and> j \<le> k \<longrightarrow> pk b j \<noteq> None \<and> \<not> s_last (sn S B j)"
  shows "\<exists>r. scan_right b (pos b (M - 1)) (pos b k) msgNo = Some r \<and> (- 1 < r \<longrightarrow> (\<exists>m. message_at B S b k0 m))"
  using k before
proof (induction "M - k" arbitrary: k rule: less_induct)
  case less
  note sz = ring_size [OF content_ring [OF c]] and e = entry_pos [OF c]
  have k: "Suc k < m_szSize b" "Suc k < M" using less.prems(2) M by auto
  have inj: "pos b (Suc k) = pos b (M - 1) \<longleftrightarrow> Suc k = M - 1" using pos_inject [OF sz(3) k(1)] M by simp
  show ?case
  proof (cases "pk b (Suc k)")
    case None
    then show ?thesis using e [of "Suc k"] by (subst scan_right.simps) (simp add: Let_def)
  next
    case (Some p)
    note p = content_at [OF c k(1) Some]
    obtain u where u: "pUnit (m_entries b ! pos b (Suc k)) = Some u" by (rule unit_at [OF c Some])
    have unf: "scan_right b (pos b (M - 1)) (pos b k) msgNo =
        (if rb_msgseq b p \<noteq> msgNo then Some (- 1) else if is_last p then Some (int (pos b (Suc k)))
         else if pos b (Suc k) \<noteq> pos b (M - 1) then scan_right b (pos b (M - 1)) (pos b (Suc k)) msgNo else Some (- 1))"
      using e(1,4) [of "Suc k"] u Some by (subst scan_right.simps) (simp add: Let_def)
    show ?thesis
    proof (cases "is_last p")
      case True
      have "pk b j \<noteq> None" if "k0 \<le> j" "j \<le> Suc k" for j using that less.prems(3) Some by (cases "j = Suc k") auto
      then have "message_at B S b k0 (Suc k - k0)"
        using less.prems(1,3) True p(3) k by (auto simp: message_at_def)
      then show ?thesis using unf True by auto
    next
      case False
      have "\<forall>j. k0 \<le> j \<and> j \<le> Suc k \<longrightarrow> pk b j \<noteq> None \<and> \<not> s_last (sn S B j)"
        using less.prems(3) Some False p(3) by (auto simp: le_Suc_eq)
      then have "\<exists>r. scan_right b (pos b (M - 1)) (pos b (Suc k)) msgNo = Some r \<and> (- 1 < r \<longrightarrow> (\<exists>m. message_at B S b k0 m))"
        if "Suc k \<noteq> M - 1" using less.hyps [of "Suc k"] that k less.prems(1) by auto
      then show ?thesis using unf False inj by auto
    qed
  qed
qed

lemma scan_left_spec:
  assumes c: "content Q B S M b" and fr: "framed S" and k: "0 < k" "k < m_szSize b" "\<not> s_first (sn S B k)"
  shows "\<exists>r. scan_left b (pos b k) msgNo = Some r \<and>
    (0 \<le> r \<longrightarrow> (\<exists>k' < k. r = int (pos b k') \<and> s_first (sn S B k') \<and> (\<forall>j. k' \<le> j \<and> j < k \<longrightarrow> pk b j \<noteq> None \<and> \<not> s_last (sn S B j))))"
  using k
proof (induction k)
  case (Suc k)
  note sz = ring_size [OF content_ring [OF c]] and e = entry_pos [OF c]
  have k: "k < m_szSize b" using Suc.prems by simp
  have dec: "decPos b (pos b (Suc k)) = pos b k" by (rule decPos_pos [OF sz(3) k])
  have inj: "pos b k = m_iStartPos b \<longleftrightarrow> k = 0" using pos_inject [OF sz(3) k sz(1)] sz by simp
  have nl: "\<not> s_last (sn S B k)" using framed_next(1) [OF fr] Suc.prems(3) by simp
  show ?case
  proof (cases "pk b k")
    case None
    then show ?thesis using e [of k] by (subst scan_left.simps) (simp add: Let_def dec)
  next
    case (Some p)
    note p = content_at [OF c k Some]
    obtain u where u: "pUnit (m_entries b ! pos b k) = Some u" by (rule unit_at [OF c Some])
    have unf: "scan_left b (pos b (Suc k)) msgNo =
        (if rb_msgseq b p \<noteq> msgNo then Some (- 1) else if is_first p then Some (int (pos b k))
         else if pos b k \<noteq> m_iStartPos b then scan_left b (pos b k) msgNo else Some (- 1))"
      using e(1,4) [of k] u Some by (subst scan_left.simps) (simp add: Let_def dec)
    show ?thesis
    proof (cases "is_first p")
      case True
      then show ?thesis using unf p Some nl by (auto simp: less_Suc_eq intro!: exI [of _ k])
    next
      case False
      show ?thesis
      proof (cases "k = 0")
        case nz: False
        obtain r where r: "scan_left b (pos b k) msgNo = Some r"
          "0 \<le> r \<longrightarrow> (\<exists>k' < k. r = int (pos b k') \<and> s_first (sn S B k') \<and> (\<forall>j. k' \<le> j \<and> j < k \<longrightarrow> pk b j \<noteq> None \<and> \<not> s_last (sn S B j)))"
          using Suc.IH nz k False p(2) by blast
        have "\<exists>k' < Suc k. r = int (pos b k') \<and> s_first (sn S B k') \<and> (\<forall>j. k' \<le> j \<and> j < Suc k \<longrightarrow> pk b j \<noteq> None \<and> \<not> s_last (sn S B j))"
          if r0: "0 \<le> r"
        proof -
          obtain k' where k': "k' < k" "r = int (pos b k')" "s_first (sn S B k')" "\<forall>j. k' \<le> j \<and> j < k \<longrightarrow> pk b j \<noteq> None \<and> \<not> s_last (sn S B j)"
            using r(2) r0 by blast
          then show ?thesis using Some nl by (intro exI [of _ k']) (auto simp: less_Suc_eq)
        qed
        then show ?thesis using unf False r(1) inj nz by auto
      qed (use unf False inj in auto)
    qed
  qed
qed simp

text \<open>Where a search may put \<open>m_iFirstReadableOutOfOrder\<close>: at the start of a complete, unordered message.\<close>

definition readable_at :: "int \<Rightarrow> (int \<Rightarrow> sent) \<Rightarrow> CRcvBuffer \<Rightarrow> int \<Rightarrow> bool" where
  "readable_at B S b r \<longleftrightarrow> (\<exists>k m. r = int (pos b k) \<and> message_at B S b k m \<and> s_first (sn S B k) \<and> \<not> s_order (sn S B k))"

lemma readable_content:
  assumes c: "content Q B S M b" and "\<not> isTsbPd b" "readable_at B S b r"
  shows "content Q B S M (b\<lparr>m_iFirstReadableOutOfOrder := r\<rparr>)" "first_ok B S (b\<lparr>m_iFirstReadableOutOfOrder := r\<rparr>)"
proof -
  note sz = ring_size [OF content_ring [OF c]]
  obtain k m where k: "r = int (pos b k)" "message_at B S b k m" "s_first (sn S B k)" "\<not> s_order (sn S B k)"
    using assms(3) by (auto simp: readable_at_def)
  let ?b = "b\<lparr>m_iFirstReadableOutOfOrder := r\<rparr>"
  have eq: "pos ?b = pos b" "isTsbPd ?b = isTsbPd b" by (simp_all add: fun_eq_iff pos_def isTsbPd_def)
  have cong: "packetAt ?b = packetAt b" "pk ?b = pk b" using packetAt_cong [of ?b b] by (simp_all add: fun_eq_iff pk_def eq)
  have un: "unordered ?b = unordered b" by (simp add: unordered_def cong)
  have ring: "ring_ok Q ?b" using ring_ok_cong [of ?b b Q] content_ring [OF c] sz by simp
  have "\<forall>j < m_szSize b. pos b j = pos b k \<longrightarrow> j = k" using pos_inject [OF sz(3)] k(2) by (simp add: message_at_def)
  then have fst: "\<forall>j < m_szSize b. int (pos b j) = r \<and> pk b j \<noteq> None \<longrightarrow> s_first (sn S B j) \<and> \<not> s_order (sn S B j)"
    using k by auto
  have carr: "carries ?b = carries b" using carries_cong [of ?b b] by (simp add: fun_eq_iff)
  show "content Q B S M ?b"
    using c assms(2) k(1) ring sz fst unfolding content_def un eq cong carr by simp
  show "first_ok B S ?b" using k unfolding first_ok_def message_at_def eq cong by auto
qed

lemma onInsert_spec:
  assumes c: "content Q B S (m_iMaxPosOff b) b" and fr: "framed S" and M: "m_iMaxPosOff b < m_szSize b"
    and k: "k < m_szSize b" "pk b k = Some p" "\<not> getMsgOrderFlag p"
  shows "\<exists>r. onInsertNotInOrderPacket (pos b k) b = Some (b\<lparr>m_iFirstReadableOutOfOrder := r\<rparr>) \<and>
    (r = m_iFirstReadableOutOfOrder b \<or> readable_at B S b r)"
proof -
  let ?M = "m_iMaxPosOff b"
  note sz = ring_size [OF content_ring [OF c]] and e = entry_pos [OF c] and p = content_at [OF c k(1,2)]
  have last: "(m_iStartPos b + ?M - Suc 0) mod m_szSize b = pos b (?M - 1)" using lastPos_pos [of ?M b] p(1) by simp
  have none: "\<exists>r. onInsertNotInOrderPacket (pos b k) b = Some (b\<lparr>m_iFirstReadableOutOfOrder := r\<rparr>) \<and>
      (r = m_iFirstReadableOutOfOrder b \<or> readable_at B S b r)" if "onInsertNotInOrderPacket (pos b k) b = Some b"
    using that by (intro exI [of _ "m_iFirstReadableOutOfOrder b"]) simp
  obtain hasLast where hl: "(if is_last p then Some True
      else do { r \<leftarrow> scanNotInOrderMessageRight b (pos b k) (rb_msgseq b p); Some (- 1 < r) }) = Some hasLast"
    "hasLast \<longrightarrow> (\<exists>m. message_at B S b k m)"
  proof (cases "is_last p")
    case True
    then have "message_at B S b k 0" using k p by (simp add: message_at_def)
    then show ?thesis using True by (intro that [of True]) auto
  next
    case False
    show ?thesis
    proof (cases "k = ?M - 1")
      case True
      then show ?thesis using False by (intro that [of False]) (simp_all add: scanNotInOrderMessageRight_def Let_def last)
    next
      case neq: False
      then have "pos b k \<noteq> pos b (?M - 1)" using pos_inject [OF sz(3) k(1)] M by simp
      moreover have "k < ?M - 1" "\<forall>j. k \<le> j \<and> j \<le> k \<longrightarrow> pk b j \<noteq> None \<and> \<not> s_last (sn S B j)"
        using neq p(1,3) k(2) False by (auto simp: le_antisym)
      then obtain r where "scan_right b (pos b (?M - 1)) (pos b k) (rb_msgseq b p) = Some r" "- 1 < r \<longrightarrow> (\<exists>m. message_at B S b k m)"
        using scan_right_spec [OF c M order_refl, of k "rb_msgseq b p"] by blast
      ultimately show ?thesis using False by (intro that [of "- 1 < r"]) (simp_all add: scanNotInOrderMessageRight_def Let_def last)
    qed
  qed
  obtain f where f: "(if is_first p then Some (int (pos b k)) else scanNotInOrderMessageLeft b (pos b k) (rb_msgseq b p)) = Some f"
    "0 \<le> f \<longrightarrow> (\<exists>k' \<le> k. f = int (pos b k') \<and> s_first (sn S B k') \<and> (\<forall>j. k' \<le> j \<and> j < k \<longrightarrow> pk b j \<noteq> None \<and> \<not> s_last (sn S B j)))"
  proof (cases "is_first p")
    case True
    then show ?thesis using p by (intro that [of "int (pos b k)"]) auto
  next
    case False
    show ?thesis
    proof (cases "k = 0")
      case True
      then show ?thesis using False sz by (intro that [of "- 1"]) (simp_all add: scanNotInOrderMessageLeft_def)
    next
      case nz: False
      then have "pos b k \<noteq> m_iStartPos b" using pos_inject [OF sz(3) k(1) sz(1)] sz by simp
      then have sl: "scanNotInOrderMessageLeft b (pos b k) (rb_msgseq b p) = scan_left b (pos b k) (rb_msgseq b p)"
        by (simp add: scanNotInOrderMessageLeft_def)
      have "0 < k" "\<not> s_first (sn S B k)" using nz p(2) False by auto
      from scan_left_spec [OF c fr this(1) k(1) this(2), of "rb_msgseq b p"]
      obtain r where r: "scan_left b (pos b k) (rb_msgseq b p) = Some r" "0 \<le> r \<longrightarrow>
        (\<exists>k' < k. r = int (pos b k') \<and> s_first (sn S B k') \<and> (\<forall>j. k' \<le> j \<and> j < k \<longrightarrow> pk b j \<noteq> None \<and> \<not> s_last (sn S B j)))"
        by blast
      show ?thesis by (rule that [of r]) (use r sl False less_imp_le in \<open>simp, blast\<close>)
    qed
  qed
  have unf: "onInsertNotInOrderPacket (pos b k) b =
      (if m_numOutOfOrderPackets b = 0 \<or> m_iFirstReadableOutOfOrder b \<ge> 0 \<or> \<not> hasLast \<or> f < 0 then Some b
       else Some (b\<lparr>m_iFirstReadableOutOfOrder := f\<rparr>))"
    unfolding onInsertNotInOrderPacket_def using p(1) e(4) [of k] k(2) by (simp add: hl(1) f(1) Let_def)
  have "readable_at B S b f" if hf: "hasLast" "0 \<le> f"
  proof -
    obtain m k' where m: "message_at B S b k m" and k': "k' \<le> k" "f = int (pos b k')" "s_first (sn S B k')"
      "\<forall>j. k' \<le> j \<and> j < k \<longrightarrow> pk b j \<noteq> None \<and> \<not> s_last (sn S B j)"
      using hf hl(2) f(2) by blast
    have all: "pk b j \<noteq> None" if "k' \<le> j" "j \<le> k + m" for j
    proof (cases "j < k")
      case False
      then have "j - k \<le> m" "k + (j - k) = j" using that by auto
      then show ?thesis using m by (metis message_at_def)
    qed (use k'(4) that in auto)
    have nl: "\<not> s_last (sn S B j)" if "k' \<le> j" "j < k + m" for j
    proof (cases "j < k")
      case False
      then have "j - k < m" "k + (j - k) = j" using that by auto
      then show ?thesis using m by (metis message_at_def)
    qed (use k'(4) that in auto)
    have "message_at B S b k' (k + m - k')" using m k'(1) all nl by (auto simp: message_at_def)
    moreover have "\<not> s_order (sn S B k')" using framed_order [OF fr k'(1)] k'(4) k(3) p(4) by auto
    ultimately show ?thesis using k' by (auto simp: readable_at_def)
  qed
  then show ?thesis using unf none by (cases "m_numOutOfOrderPackets b = 0 \<or> m_iFirstReadableOutOfOrder b \<ge> 0 \<or> \<not> hasLast \<or> f < 0") auto
qed

lemma check_readable_spec:
  assumes c: "content Q B S M b" and M: "M < m_szSize b" and k: "k0 \<le> k" "k \<le> M"
    and before: "\<forall>j. k0 \<le> j \<and> j < k \<longrightarrow> pk b j \<noteq> None \<and> \<not> s_last (sn S B j)"
  shows "\<exists>r. check_readable b (pos b M) (pos b k) msgno = Some r \<and> (r \<longrightarrow> (\<exists>m. message_at B S b k0 m))"
  using k before
proof (induction "M - k" arbitrary: k msgno rule: less_induct)
  case less
  note sz = ring_size [OF content_ring [OF c]] and e = entry_pos [OF c]
  have eq: "pos b k = pos b M \<longleftrightarrow> k = M" using pos_inject [OF sz(3)] less.prems(2) M by simp
  show ?case
  proof (cases "pk b k")
    case None
    then show ?thesis using e [of k] by (subst check_readable.simps) auto
  next
    case (Some p)
    then have kM: "k < M" using content_at(1) [OF c _ Some] less.prems(2) M by simp
    then have k: "k < m_szSize b" using M by simp
    note p = content_at [OF c k Some]
    obtain u where u: "pUnit (m_entries b ! pos b k) = Some u" by (rule unit_at [OF c Some])
    let ?m = "if msgno = - 1 then rb_msgseq b p else msgno"
    have unf: "check_readable b (pos b M) (pos b k) msgno =
        (if getMsgOrderFlag p then Some False else if msgno \<noteq> - 1 \<and> msgno \<noteq> rb_msgseq b p then Some False
         else if is_last p then Some True else check_readable b (pos b M) (pos b (Suc k)) ?m)"
      using e(1,4) [of k] u Some eq kM by (subst check_readable.simps) simp
    show ?thesis
    proof (cases "is_last p")
      case True
      have "pk b j \<noteq> None" if "k0 \<le> j" "j \<le> k" for j using that less.prems(3) Some by (cases "j = k") auto
      then have "message_at B S b k0 (k - k0)"
        using less.prems(1,3) True p(3) k by (auto simp: message_at_def)
      then show ?thesis using unf True by auto
    next
      case False
      have "\<forall>j. k0 \<le> j \<and> j < Suc k \<longrightarrow> pk b j \<noteq> None \<and> \<not> s_last (sn S B j)"
        using less.prems(3) Some False p(3) by (auto simp: less_Suc_eq)
      then have "\<exists>r. check_readable b (pos b M) (pos b (Suc k)) ?m = Some r \<and> (r \<longrightarrow> (\<exists>m. message_at B S b k0 m))"
        using less.hyps [of "Suc k" ?m] kM less.prems(1) by simp
      then show ?thesis using unf False by auto
    qed
  qed
qed

lemma checkFirst_spec:
  assumes c: "content Q B S (m_iMaxPosOff b) b" and M: "m_iMaxPosOff b < m_szSize b"
  shows "\<exists>r. checkFirstReadableOutOfOrder b = Some r \<and> (r \<longrightarrow> first_ok B S b)"
proof (cases "m_numOutOfOrderPackets b = 0 \<or> m_iFirstReadableOutOfOrder b < 0 \<or> m_iMaxPosOff b = 0")
  case True
  then show ?thesis by (auto simp: checkFirstReadableOutOfOrder_def)
next
  case False
  note sz = ring_size [OF content_ring [OF c]] and e = entry_pos [OF c]
  let ?f = "nat (m_iFirstReadableOutOfOrder b)" and ?M = "m_iMaxPosOff b"
  have f: "?f < m_szSize b" "int ?f = m_iFirstReadableOutOfOrder b" using False c by (auto simp: content_def)
  obtain k where k: "k < m_szSize b" "pos b k = ?f" using pos_surj [OF sz(3) f(1)] by blast
  have unf: "checkFirstReadableOutOfOrder b = check_readable b (pos b ?M) (pos b k) (- 1)"
    using False k(2) by (simp add: checkFirstReadableOutOfOrder_def incPos_start)
  show ?thesis
  proof (cases "pk b k")
    case None
    then have "check_readable b (pos b ?M) (pos b k) (- 1) = Some False"
      using e [of k] by (subst check_readable.simps) auto
    then show ?thesis using unf by auto
  next
    case (Some p)
    then have "k \<le> ?M" using content_at(1) [OF c k(1)] by auto
    moreover have "\<forall>j. k \<le> j \<and> j < k \<longrightarrow> pk b j \<noteq> None \<and> \<not> s_last (sn S B j)" by auto
    ultimately obtain r where r: "check_readable b (pos b ?M) (pos b k) (- 1) = Some r" "r \<longrightarrow> (\<exists>m. message_at B S b k m)"
      using check_readable_spec [OF c M order_refl] by blast
    have "int (pos b k) = m_iFirstReadableOutOfOrder b" using f(2) k(2) by simp
    then show ?thesis using unf r unfolding first_ok_def by auto
  qed
qed

text \<open>The unordered packets from an offset on.\<close>

definition unordered_from :: "CRcvBuffer \<Rightarrow> nat \<Rightarrow> nat set" where
  "unordered_from b k = {j. k \<le> j \<and> j < m_szSize b \<and> (\<exists>p. pk b j = Some p \<and> \<not> getMsgOrderFlag p)}"

lemma unordered_from_0:
  assumes "ring_ok Q b"
  shows "card (unordered b) = card (unordered_from b 0)"
proof -
  note sz = ring_size [OF assms]
  have "unordered b = pos b ` unordered_from b 0"
  proof (intro set_eqI iffI)
    fix i assume i: "i \<in> unordered b"
    then obtain k where "k < m_szSize b" "pos b k = i" using pos_surj [OF sz(3)] by (auto simp: unordered_def)
    then show "i \<in> pos b ` unordered_from b 0" using i by (auto simp: unordered_def unordered_from_def pk_def)
  qed (use sz in \<open>auto simp: unordered_def unordered_from_def pk_def\<close>)
  moreover have "inj_on (pos b) (unordered_from b 0)"
    using pos_inject [OF sz(3)] by (auto simp: inj_on_def unordered_from_def)
  ultimately show ?thesis by (simp add: card_image)
qed

lemma unordered_from_step:
  "k < m_szSize b \<Longrightarrow> unordered_from b k =
     (if \<exists>p. pk b k = Some p \<and> \<not> getMsgOrderFlag p then insert k (unordered_from b (Suc k)) else unordered_from b (Suc k))"
  by (auto simp: unordered_from_def Suc_le_eq) (metis le_neq_implies_less)+

lemma unordered_from_end: "m_szSize b \<le> k \<Longrightarrow> unordered_from b k = {}"
  by (auto simp: unordered_from_def)

lemma unordered_from_finite [simp]: "finite (unordered_from b k)"
  by (simp add: unordered_from_def)

definition search_state :: "int \<Rightarrow> (int \<Rightarrow> sent) \<Rightarrow> CRcvBuffer \<Rightarrow> nat \<Rightarrow> int \<Rightarrow> int \<Rightarrow> bool" where
  "search_state B S b k posFirst msgNo \<longleftrightarrow> posFirst = - 1 \<and> msgNo = - 1 \<or>
     (\<exists>f \<le> k. posFirst = int (pos b f) \<and> s_first (sn S B f) \<and> \<not> s_order (sn S B f) \<and>
        (\<forall>j. f \<le> j \<and> j < k \<longrightarrow> pk b j \<noteq> None \<and> \<not> s_last (sn S B j)))"

lemma find_readable_spec:
  assumes c: "content Q B S M b" and M: "M < m_szSize b" and k: "k \<le> m_szSize b"
    and s: "search_state B S b k posFirst msgNo"
  shows "\<exists>r. find_readable (pos b (M - 1)) (pos b k) posFirst msgNo (card (unordered_from b k)) b =
      Some (b\<lparr>m_iFirstReadableOutOfOrder := r\<rparr>) \<and> (r = m_iFirstReadableOutOfOrder b \<or> readable_at B S b r)"
  using k s
proof (induction "m_szSize b - k" arbitrary: k posFirst msgNo rule: less_induct)
  case less
  note e = entry_pos [OF c] and IH = less.hyps [of "Suc k"]
  have self: "b\<lparr>m_iFirstReadableOutOfOrder := m_iFirstReadableOutOfOrder b\<rparr> = b" by simp
  have reset: "search_state B S b (Suc k) (- 1) (- 1)" by (simp add: search_state_def)
  show ?case
  proof (cases "card (unordered_from b k) = 0")
    case True
    then have "find_readable (pos b (M - 1)) (pos b k) posFirst msgNo (card (unordered_from b k)) b = Some b"
      by (subst find_readable.simps) simp
    then show ?thesis using self by (intro exI [of _ "m_iFirstReadableOutOfOrder b"]) simp
  next
    case False
    then have k: "k < m_szSize b" using unordered_from_end [of b k] by (cases "m_szSize b \<le> k") auto
    show ?thesis
    proof (cases "\<exists>p. pk b k = Some p \<and> \<not> getMsgOrderFlag p")
      case skip: False
      then have uf: "unordered_from b k = unordered_from b (Suc k)" by (simp only: unordered_from_step [OF k] skip if_False)
      have "find_readable (pos b (M - 1)) (pos b k) posFirst msgNo (card (unordered_from b k)) b =
          find_readable (pos b (M - 1)) (pos b (Suc k)) (- 1) (- 1) (card (unordered_from b (Suc k))) b"
      proof (cases "pk b k")
        case None
        then show ?thesis using e [of k] False uf by (subst find_readable.simps) simp
      next
        case (Some p)
        obtain u where u: "pUnit (m_entries b ! pos b k) = Some u" by (rule unit_at [OF c Some])
        then show ?thesis using e(1,4) [of k] Some skip False uf by (subst find_readable.simps) simp
      qed
      then show ?thesis using IH [OF _ _ reset] k by simp
    next
      case True
      then obtain p where p: "pk b k = Some p" "\<not> getMsgOrderFlag p" by blast
      note pp = content_at [OF c k p(1)]
      obtain u where u: "pUnit (m_entries b ! pos b k) = Some u" by (rule unit_at [OF c p(1)])
      have uf: "card (unordered_from b k) = Suc (card (unordered_from b (Suc k)))"
        unfolding unordered_from_step [OF k] if_P [OF True] by (subst card_insert_disjoint) (auto simp: unordered_from_def)
      define f where "f = (if is_first p then int (pos b k) else posFirst)"
      define m where "m = (if is_first p then rb_msgseq b p else msgNo)"
      have unf: "find_readable (pos b (M - 1)) (pos b k) posFirst msgNo (card (unordered_from b k)) b =
          (if rb_msgseq b p \<noteq> m then find_readable (pos b (M - 1)) (pos b (Suc k)) (- 1) (- 1) (card (unordered_from b (Suc k))) b
           else if is_last p then Some (b\<lparr>m_iFirstReadableOutOfOrder := f\<rparr>)
           else if pos b k = pos b (M - 1) then Some b
           else find_readable (pos b (M - 1)) (pos b (Suc k)) f m (card (unordered_from b (Suc k))) b)"
        using e(1,4) [of k] u p uf by (subst find_readable.simps) (simp add: Let_def f_def m_def)
      have state: "\<exists>g \<le> k. f = int (pos b g) \<and> s_first (sn S B g) \<and> \<not> s_order (sn S B g) \<and>
          (\<forall>j. g \<le> j \<and> j < k \<longrightarrow> pk b j \<noteq> None \<and> \<not> s_last (sn S B j))" if "rb_msgseq b p = m"
      proof (cases "is_first p")
        case True
        then show ?thesis using pp p by (intro exI [of _ k]) (auto simp: f_def)
      next
        case False
        have "0 \<le> rb_msgseq b p" by (simp add: rb_msgseq_def)
        then have "m \<noteq> - 1" using that by auto
        then show ?thesis using less.prems(2) False by (auto simp: search_state_def f_def m_def)
      qed
      show ?thesis
      proof (cases "rb_msgseq b p = m \<and> is_last p")
        case True
        then obtain g where g: "g \<le> k" "f = int (pos b g)" "s_first (sn S B g)" "\<not> s_order (sn S B g)"
          "\<forall>j. g \<le> j \<and> j < k \<longrightarrow> pk b j \<noteq> None \<and> \<not> s_last (sn S B j)" using state by blast
        have "pk b j \<noteq> None" if "g \<le> j" "j \<le> k" for j using that g(5) p by (cases "j = k") auto
        then have "message_at B S b g (k - g)" using g(1,5) pp(3) True k by (auto simp: message_at_def)
        then have "readable_at B S b f" using g unfolding readable_at_def by blast
        then show ?thesis using unf True by auto
      next
        case no: False
        show ?thesis
        proof (cases "rb_msgseq b p = m")
          case False
          then show ?thesis using unf IH [OF _ _ reset] k by simp
        next
          case True
          then obtain g where g: "g \<le> k" "f = int (pos b g)" "s_first (sn S B g)" "\<not> s_order (sn S B g)"
            "\<forall>j. g \<le> j \<and> j < k \<longrightarrow> pk b j \<noteq> None \<and> \<not> s_last (sn S B j)" using state by blast
          then have "search_state B S b (Suc k) f m"
            using p pp(3) no True unfolding search_state_def by (intro disjI2 exI [of _ g]) (auto simp: less_Suc_eq)
          then have rec: "\<exists>r. find_readable (pos b (M - 1)) (pos b (Suc k)) f m (card (unordered_from b (Suc k))) b =
              Some (b\<lparr>m_iFirstReadableOutOfOrder := r\<rparr>) \<and> (r = m_iFirstReadableOutOfOrder b \<or> readable_at B S b r)"
            using IH [of f m] k by simp
          show ?thesis
          proof (cases "pos b k = pos b (M - 1)")
            case at: True
            show ?thesis using unf True no at self by (intro exI [of _ "m_iFirstReadableOutOfOrder b"]) simp
          qed (use unf True no rec in simp)
        qed
      qed
    qed
  qed
qed

lemma updateFirst_spec:
  assumes c: "content Q B S (m_iMaxPosOff b) b" and M: "m_iMaxPosOff b < m_szSize b" and t: "\<not> isTsbPd b"
  shows "\<exists>r. updateFirstReadableOutOfOrder b = Some (b\<lparr>m_iFirstReadableOutOfOrder := r\<rparr>) \<and>
    (r = m_iFirstReadableOutOfOrder b \<or> readable_at B S b r)"
proof (cases "hasReadableInorderPkts b \<or> m_numOutOfOrderPackets b = 0 \<or> m_iFirstReadableOutOfOrder b \<ge> 0 \<or> m_iMaxPosOff b = 0")
  case True
  then show ?thesis by (intro exI [of _ "m_iFirstReadableOutOfOrder b"]) (auto simp: updateFirstReadableOutOfOrder_def)
next
  case False
  note ok = content_ring [OF c] and sz = ring_size [OF content_ring [OF c]]
  have num: "m_numOutOfOrderPackets b = card (unordered_from b 0)"
    using c t unordered_from_0 [OF ok] by (simp add: content_def)
  have "updateFirstReadableOutOfOrder b = find_readable (pos b (m_iMaxPosOff b - 1)) (pos b 0) (- 1) (- 1) (card (unordered_from b 0)) b"
    using False sz lastPos_pos [of "m_iMaxPosOff b" b] by (simp add: updateFirstReadableOutOfOrder_def num)
  then show ?thesis using find_readable_spec [OF c M, of 0 "- 1" "- 1"] by (simp add: search_state_def)
qed

end
