(* ===== verification/RcvOps.thy ===== *)
theory RcvOps
  imports RcvSearch
begin

text \<open>
  The invariant of the receiver buffer in message mode, and that \<^verbatim>\<open>dropUpTo\<close> and
  \<^verbatim>\<open>insert\<close> return and keep it, with their effect on the window of the stream the buffer holds.
\<close>

section \<open>The invariant\<close>

definition rb_inv :: "nat set \<Rightarrow> (int \<Rightarrow> sent) \<Rightarrow> int \<Rightarrow> CRcvBuffer \<Rightarrow> bool" where
  "rb_inv Q S B b \<longleftrightarrow> content Q B S (m_iMaxPosOff b) b \<and> m_iMaxPosOff b < m_szSize b \<and> m_iStartSeqNo b = sq B \<and>
     (\<exists>r. m_iFirstNonreadPos b = pos b r \<and> nonread_ok B S b r) \<and> first_ok B S b \<and> \<not> filler (st b 0)"

lemma rb_invD:
  assumes "rb_inv Q S B b"
  shows "content Q B S (m_iMaxPosOff b) b" "m_iMaxPosOff b < m_szSize b" "m_iStartSeqNo b = sq B" "first_ok B S b" "\<not> filler (st b 0)"
    "ring_ok Q b" "m_bMessageAPI b"
  using assms by (simp_all add: rb_inv_def content_def)

lemma rb_inv_nonread:
  assumes "rb_inv Q S B b"
  obtains r where "m_iFirstNonreadPos b = pos b r" "nonread_ok B S b r" "r < m_szSize b" "getRcvDataSize b = r"
    "hasReadableInorderPkts b \<longleftrightarrow> r \<noteq> 0"
proof -
  note sz = ring_size [OF rb_invD(6) [OF assms]]
  obtain r where r: "m_iFirstNonreadPos b = pos b r" "nonread_ok B S b r" using assms by (auto simp: rb_inv_def)
  then have "r < m_szSize b" using rb_invD(2) [OF assms] by (simp add: nonread_ok_def)
  then show thesis using that r getRcvDataSize_pos [OF sz(3)] hasReadable_pos [OF sz(3)] by blast
qed

text \<open>Changes of \<open>m_iFirstNonreadPos\<close> and \<open>m_iFirstReadableOutOfOrder\<close> alone.\<close>

lemma nonread_upd:
  "content Q B S M (b\<lparr>m_iFirstNonreadPos := x\<rparr>) = content Q B S M b" "pos (b\<lparr>m_iFirstNonreadPos := x\<rparr>) = pos b"
  "pk (b\<lparr>m_iFirstNonreadPos := x\<rparr>) = pk b" "st (b\<lparr>m_iFirstNonreadPos := x\<rparr>) = st b"
  "first_ok B S (b\<lparr>m_iFirstNonreadPos := x\<rparr>) = first_ok B S b" "nonread_ok B S (b\<lparr>m_iFirstNonreadPos := x\<rparr>) r = nonread_ok B S b r"
    "isTsbPd (b\<lparr>m_iFirstNonreadPos := x\<rparr>) = isTsbPd b" "message_at B S (b\<lparr>m_iFirstNonreadPos := x\<rparr>) = message_at B S b"
    "message_starts B S (b\<lparr>m_iFirstNonreadPos := x\<rparr>) = message_starts B S b"
proof -
  have "content_fields (b\<lparr>m_iFirstNonreadPos := x\<rparr>) = content_fields b" by (simp add: content_fields_def isTsbPd_def)
  note c = content_fields_cong [OF this]
  show "content Q B S M (b\<lparr>m_iFirstNonreadPos := x\<rparr>) = content Q B S M b" "pos (b\<lparr>m_iFirstNonreadPos := x\<rparr>) = pos b"
    "pk (b\<lparr>m_iFirstNonreadPos := x\<rparr>) = pk b" "st (b\<lparr>m_iFirstNonreadPos := x\<rparr>) = st b"
    "isTsbPd (b\<lparr>m_iFirstNonreadPos := x\<rparr>) = isTsbPd b"
    by (fact c)+
  show m: "message_at B S (b\<lparr>m_iFirstNonreadPos := x\<rparr>) = message_at B S b"
    by (simp add: fun_eq_iff message_at_def c)
  show "first_ok B S (b\<lparr>m_iFirstNonreadPos := x\<rparr>) = first_ok B S b" "nonread_ok B S (b\<lparr>m_iFirstNonreadPos := x\<rparr>) r = nonread_ok B S b r"
    "message_starts B S (b\<lparr>m_iFirstNonreadPos := x\<rparr>) = message_starts B S b"
    by (simp_all add: first_ok_def nonread_ok_def message_starts_def fun_eq_iff m c)
qed

lemma readable_upd:
  "pos (b\<lparr>m_iFirstReadableOutOfOrder := x\<rparr>) = pos b" "pk (b\<lparr>m_iFirstReadableOutOfOrder := x\<rparr>) = pk b"
  "st (b\<lparr>m_iFirstReadableOutOfOrder := x\<rparr>) = st b" "isTsbPd (b\<lparr>m_iFirstReadableOutOfOrder := x\<rparr>) = isTsbPd b"
  "nonread_ok B S (b\<lparr>m_iFirstReadableOutOfOrder := x\<rparr>) r = nonread_ok B S b r"
proof -
  let ?b = "b\<lparr>m_iFirstReadableOutOfOrder := x\<rparr>"
  show pos: "pos ?b = pos b" and "isTsbPd ?b = isTsbPd b" by (simp_all add: fun_eq_iff pos_def isTsbPd_def)
  show pk: "pk ?b = pk b" and "st ?b = st b" using packetAt_cong [of ?b b] by (simp_all add: fun_eq_iff pk_def st_def pos)
  show "nonread_ok B S ?b r = nonread_ok B S b r" by (simp add: nonread_ok_def pk)
qed

lemma readable_reset: "content Q B S M b \<Longrightarrow> content Q B S M (b\<lparr>m_iFirstReadableOutOfOrder := - 1\<rparr>)"
proof -
  assume c: "content Q B S M b"
  let ?b = "b\<lparr>m_iFirstReadableOutOfOrder := - 1\<rparr>"
  have ring: "ring_ok Q ?b" using ring_ok_cong [of ?b b Q] content_ring [OF c] ring_size [OF content_ring [OF c]] by simp
  have un: "unordered ?b = unordered b" using packetAt_cong [of ?b b] by (simp add: unordered_def)
  have carr: "carries ?b = carries b" using carries_cong [of ?b b] by (simp add: fun_eq_iff)
  show ?thesis using c ring unfolding content_def readable_upd un carr by simp
qed

text \<open>The last step of the operations that move the start.\<close>

lemma finish_first:
  assumes c: "content Q B S (m_iMaxPosOff b) b" and M: "m_iMaxPosOff b < m_szSize b" and s: "m_iStartSeqNo b = sq B"
    and r: "m_iFirstNonreadPos b = pos b r" "nonread_ok B S b r" and f: "first_ok B S b" "\<not> filler (st b 0)"
    and t: "\<not> isTsbPd b"
  shows "\<exists>b'. updateFirstReadableOutOfOrder b = Some b' \<and> rb_inv Q S B b' \<and> pk b' = pk b \<and> st b' = st b \<and>
    m_szSize b' = m_szSize b \<and> m_iFirstNonreadPos b' = m_iFirstNonreadPos b \<and> m_iStartPos b' = m_iStartPos b"
proof -
  obtain x where x: "updateFirstReadableOutOfOrder b = Some (b\<lparr>m_iFirstReadableOutOfOrder := x\<rparr>)"
    "x = m_iFirstReadableOutOfOrder b \<or> readable_at B S b x"
    using updateFirst_spec [OF c M t] by blast
  have "content Q B S (m_iMaxPosOff b) (b\<lparr>m_iFirstReadableOutOfOrder := x\<rparr>) \<and> first_ok B S (b\<lparr>m_iFirstReadableOutOfOrder := x\<rparr>)"
    using x(2) readable_content [OF c t, of x] c f by auto
  then have "rb_inv Q S B (b\<lparr>m_iFirstReadableOutOfOrder := x\<rparr>)"
    using M s r f(2) by (auto simp: rb_inv_def readable_upd)
  then show ?thesis using x(1) by (intro exI [of _ "b\<lparr>m_iFirstReadableOutOfOrder := x\<rparr>"]) (simp add: readable_upd)
qed

lemma nonread_shift:
  assumes r: "m_iFirstNonreadPos b = pos b r" "nonread_ok B S b r" and sh: "shifted D b b'"
    and M: "m_iMaxPosOff b' = m_iMaxPosOff b - D" "m_iMaxPosOff b < m_szSize b" and ok: "ring_ok Q b'"
    and range: "isInRange (m_iStartPos b') (m_iMaxPosOff b') (m_szSize b') (m_iFirstNonreadPos b')"
  shows "\<exists>r'. m_iFirstNonreadPos b' = pos b' r' \<and> nonread_ok (B + int D) S b' r'"
proof -
  have n: "m_szSize b' = m_szSize b" "m_iFirstNonreadPos b' = pos b r" using sh r(1) by (simp_all add: shifted_def)
  note sz = ring_size [OF ok, unfolded n]
  have rM: "r \<le> m_iMaxPosOff b" using r(2) by (simp add: nonread_ok_def)
  show ?thesis
  proof (cases "D \<le> r")
    case True
    have "pos b' (r - D) = pos b r" using shifted_pos [OF sh, of "r - D"] True by simp
    moreover have "pk b' k \<noteq> None" if "k < r - D" for k
    proof -
      have "k + D < r" "k + D < m_szSize b" "k < m_szSize b" using that rM M(2) by auto
      then show ?thesis using sh r(2) by (simp add: shifted_def nonread_ok_def)
    qed
    moreover have "s_last (sn S (B + int D) (r - D - 1))" if "0 < r - D"
      using that r(2) by (simp add: sn_shift nonread_ok_def)
    ultimately show ?thesis using True rM M(1) n(2) by (intro exI [of _ "r - D"]) (auto simp: nonread_ok_def)
  next
    case False
    have "pos b r < m_szSize b'" using sz n by (metis pos_less)
    then obtain j where j: "j < m_szSize b" "pos b' j = pos b r" using pos_surj [of b' "pos b r"] sz n by metis
    have "j \<le> m_iMaxPosOff b'" using range isInRange_pos [of b' "m_iMaxPosOff b'" j] j sz n M by simp
    moreover have "m_iMaxPosOff b \<le> D"
    proof (rule ccontr)
      assume *: "\<not> m_iMaxPosOff b \<le> D"
      have "r + m_szSize b - D < m_szSize b" using False * M(2) by auto
      moreover have "pos b' (r + m_szSize b - D) = pos b r"
      proof -
        have "pos b' (r + m_szSize b - D) = pos b (r + m_szSize b)"
          using shifted_pos [OF sh, of "r + m_szSize b - D"] False * M(2) by simp
        also have "\<dots> = pos b r" unfolding pos_def by (simp flip: add.assoc)
        finally show ?thesis .
      qed
      ultimately have "j = r + m_szSize b - D"
        using j pos_inject [of b' j "r + m_szSize b - D"] sz n by metis
      then show False using \<open>j \<le> m_iMaxPosOff b'\<close> M * by auto
    qed
    ultimately have "j = 0" using M by simp
    then show ?thesis using j n by (intro exI [of _ 0]) (simp add: nonread_ok_def)
  qed
qed

section \<open>dropUpTo\<close>

lemma seqoff_window: "\<bar>Y - X\<bar> < m_iSeqNoTH \<Longrightarrow> seqoff (sq X) (sq Y) = Y - X"
  using seqoff_sq [of X Y] by (simp add: abs_minus_commute)

lemma dropUpTo_ok:
  assumes inv: "rb_inv Q S B b" and Y: "\<bar>Y - B\<bar> < m_iSeqNoTH"
  shows "\<exists>d b'. dropUpTo (sq Y) b = Some ((missing_in b (nat (Y - B)), available_in b (nat (Y - B))), b') \<and>
    rb_inv Q S (max B Y + int d) b' \<and> (Y \<le> B \<longrightarrow> d = 0) \<and> d \<le> m_szSize b \<and> m_szSize b' = m_szSize b \<and>
    (\<forall>k < m_szSize b. pk b' k = (if k + nat (Y - B) + d < m_szSize b then pk b (k + nat (Y - B) + d) else None) \<and>
       st b' k = (if k + nat (Y - B) + d < m_szSize b then st b (k + nat (Y - B) + d) else EntryState_Empty)) \<and>
    (\<forall>k < nat (Y - B) + d. nat (Y - B) \<le> k \<and> k < m_szSize b \<longrightarrow> filler (st b k))"
proof (cases "Y \<le> B")
  case True
  then have "dropUpTo (sq Y) b = Some ((0, 0), b)" using seqoff_window [OF Y] rb_invD(3) [OF inv] by (simp add: dropUpTo_def)
  then show ?thesis using True inv by (intro exI [of _ 0] exI [of _ b]) (simp add: missing_in_def available_in_def max_def)
next
  case False
  define len where "len = nat (Y - B)"
  have YB: "Y = B + int len" "seqoff (sq B) (sq Y) = int len" "0 < len" using False seqoff_window [OF Y] by (auto simp: len_def)
  note D = rb_invD [OF inv] and sz = ring_size [OF rb_invD(6) [OF inv]]
  let ?M = "m_iMaxPosOff b"
  obtain r where r: "m_iFirstNonreadPos b = pos b r" "nonread_ok B S b r" by (rule rb_inv_nonread [OF inv])
  define b0 where "b0 = b\<lparr>m_iMaxPosOff := ?M - len\<rparr>"
  have "content_fields b0 = content_fields b" by (simp add: b0_def content_fields_def isTsbPd_def)
  note cong0 = content_fields_cong [OF this]
  have fo0: "first_ok B S b0" using D(4) by (simp add: first_ok_def message_at_def cong0)
  have cnt: "missing_in b0 len = missing_in b len" "available_in b0 len = available_in b len"
    by (simp_all add: missing_in_def available_in_def cong0)
  obtain b1 where b1: "drop_entries len 0 0 b0 = Some (missing_in b len, available_in b len, b1)"
    "content Q (B + int len) S (?M - len) b1" "shifted len b0 b1" "m_iMaxPosOff b1 = ?M - len" "first_ok (B + int len) S b1"
    using drop_entries_content [of Q B S ?M b0 len 0 0] D(1) fo0 cnt by (auto simp: cong0) (simp add: b0_def)
  have sh1: "shifted len b b1" using b1(3) unfolding shifted_def cong0 by (simp add: b0_def isTsbPd_def)
  define b2 where "b2 = b1\<lparr>m_iStartSeqNo := sq Y\<rparr>"
  have "content_fields b2 = content_fields b1" by (simp add: b2_def content_fields_def isTsbPd_def)
  note cong2 = content_fields_cong [OF this]
  have c2: "content Q Y S (?M - len) b2" "m_iStartSeqNo b2 = sq Y" "m_iMaxPosOff b2 = ?M - len" "first_ok Y S b2"
    using b1(2,4,5) YB(1) by (simp_all add: cong2 first_ok_def message_at_def) (simp_all add: b2_def)
  have sh2: "shifted len b b2" using sh1 unfolding shifted_def cong2 by (simp add: b2_def isTsbPd_def)
  obtain d b3 where b3: "releaseNextFillerEntries b2 = Some b3" "content Q (Y + int d) S (?M - len - d) b3" "shifted d b2 b3"
    "m_iStartSeqNo b3 = sq (Y + int d)" "m_iMaxPosOff b3 = ?M - len - d" "first_ok (Y + int d) S b3"
    "\<forall>k < d. filler (st b2 k)" "\<not> filler (st b3 0)" "d \<le> m_szSize b2"
    using release_fillers_content [OF c2(1-3)] c2(4) by blast
  have dn: "d \<le> m_szSize b" using b3(9) sh2 by (simp add: shifted_def)
  have sh3: "shifted (len + d) b b3" by (rule shifted_trans [OF sh2 b3(3)])
  have n3: "m_szSize b3 = m_szSize b" "m_bMessageAPI b3" "ring_ok Q b3"
    using sh3 content_api [OF b3(2)] content_ring [OF b3(2)] by (simp_all add: shifted_def)
  note sz3 = ring_size [OF n3(3)]
  have M3: "m_iMaxPosOff b3 = ?M - (len + d)" "m_iMaxPosOff b3 < m_szSize b3" using b3(5) n3 D(2) by auto
  define x where "x = (if \<not> isInRange (m_iStartPos b3) (m_iMaxPosOff b3) (m_szSize b3) (m_iFirstNonreadPos b3)
           then updateNonreadPos (b3\<lparr>m_iFirstNonreadPos := m_iStartPos b3\<rparr>) else Some b3)"
  have c3: "content Q (Y + int d) S (m_iMaxPosOff b3) b3" using b3(2,5) by simp
  have "\<exists>r'. x = Some (b3\<lparr>m_iFirstNonreadPos := pos b3 r'\<rparr>) \<and> nonread_ok (Y + int d) S b3 r'"
  proof (cases "isInRange (m_iStartPos b3) (m_iMaxPosOff b3) (m_szSize b3) (m_iFirstNonreadPos b3)")
    case True
    from nonread_shift [OF r sh3 M3(1) D(2) n3(3) True]
    obtain r' where "m_iFirstNonreadPos b3 = pos b3 r'" "nonread_ok (Y + int d) S b3 r'" using YB(1) by (auto simp: add.assoc)
    then show ?thesis using True by (intro exI [of _ r']) (simp add: x_def)
  next
    case False
    let ?b = "b3\<lparr>m_iFirstNonreadPos := m_iStartPos b3\<rparr>"
    have "\<exists>r'. updateNonreadPos ?b = Some (?b\<lparr>m_iFirstNonreadPos := pos ?b r'\<rparr>) \<and> 0 \<le> r' \<and> nonread_ok (Y + int d) S ?b r' \<and>
        \<not> message_starts (Y + int d) S ?b r'"
      using c3 M3(2) sz3 by (intro updateNonreadPos_spec) (simp_all add: nonread_upd nonread_ok_def)
    then show ?thesis using False by (auto simp: x_def nonread_upd)
  qed
  then obtain r' where r': "x = Some (b3\<lparr>m_iFirstNonreadPos := pos b3 r'\<rparr>)" "nonread_ok (Y + int d) S b3 r'" by blast
  define b4 where "b4 = b3\<lparr>m_iFirstNonreadPos := pos b3 r'\<rparr>"
  have b4: "content Q (Y + int d) S (m_iMaxPosOff b4) b4" "m_iMaxPosOff b4 < m_szSize b4" "m_iStartSeqNo b4 = sq (Y + int d)"
    "m_iFirstNonreadPos b4 = pos b4 r'" "nonread_ok (Y + int d) S b4 r'" "first_ok (Y + int d) S b4" "\<not> filler (st b4 0)"
    "isTsbPd b4 = isTsbPd b3" "m_bMessageAPI b4" "pk b4 = pk b3" "st b4 = st b3" "m_szSize b4 = m_szSize b"
    using c3 M3 b3 r' n3 by (simp_all add: b4_def nonread_upd)
  obtain b5 where b5: "(if \<not> isTsbPd b4 \<and> m_bMessageAPI b4 then updateFirstReadableOutOfOrder b4 else Some b4) = Some b5"
    "rb_inv Q S (Y + int d) b5" "pk b5 = pk b3" "st b5 = st b3" "m_szSize b5 = m_szSize b"
  proof (cases "isTsbPd b4")
    case True
    then show ?thesis using b4 by (intro that [of b4]) (auto simp: rb_inv_def)
  next
    case False
    then show ?thesis using finish_first [OF b4(1-7)] b4(9-12) that by auto
  qed
  have fin: "drop_finish b2 = Some b5"
    by (simp add: drop_finish_def b3(1) r'(1) [unfolded x_def, folded b4_def] b5(1))
  have res: "dropUpTo (sq Y) b = Some ((missing_in b len, available_in b len), b5)"
    using YB D(3) b1(1) fin by (simp add: dropUpTo_def b0_def b2_def)
  have "filler (st b k)" if "k < len + d" "len \<le> k" "k < m_szSize b" for k
  proof -
    have "k - len < d" "k - len < m_szSize b" "k - len + len < m_szSize b" using that by auto
    then show ?thesis using b3(7) sh2 that by (auto simp: shifted_def)
  qed
  then show ?thesis using res b5 sh3 YB(1) False dn unfolding len_def [symmetric]
    by (intro exI [of _ d] exI [of _ b5]) (auto simp: shifted_def max_def add.assoc)
qed

section \<open>insert\<close>

text \<open>Putting a packet at an offset without one.\<close>

lemma insert_content:
  assumes c: "content Q B S M b" and k: "k < m_szSize b" "k < M" and none: "pk b k = None"
    and u: "u < length (m_pUnits (m_pUnitQueue b))" "u \<notin> taken_units (m_pUnitQueue b)" "unit_packet b u = Some p"
    and p: "carries b S (B + int k) p" and fr: "m_iFirstReadableOutOfOrder b \<noteq> int (pos b k)"
  shows "\<exists>q. makeUnitTaken u (m_pUnitQueue b) = Some q \<and>
    (\<forall>b'. m_entries b' = (m_entries b)[pos b k := \<lparr>pUnit = Some u, status = EntryState_Avail\<rparr>] \<and> m_pUnitQueue b' = q \<and> same b b' \<and>
       m_iFirstReadableOutOfOrder b' = m_iFirstReadableOutOfOrder b \<and>
       m_numOutOfOrderPackets b' = (if isTsbPd b \<or> getMsgOrderFlag p then m_numOutOfOrderPackets b else m_numOutOfOrderPackets b + 1) \<longrightarrow>
       content Q B S M b' \<and> (\<forall>j < m_szSize b. pk b' j = (if j = k then Some p else pk b j) \<and>
         st b' j = (if j = k then EntryState_Avail else st b j)))"
proof -
  note ok = content_ring [OF c] and sz = ring_size [OF content_ring [OF c]]
  have pos: "pos b k < m_szSize b" using sz by simp
  obtain q b1 where b1: "makeUnitTaken u (m_pUnitQueue b) = Some q"
    "b1 = b\<lparr>m_entries := (m_entries b)[pos b k := \<lparr>pUnit = Some u, status = EntryState_Avail\<rparr>], m_pUnitQueue := q\<rparr>" "ring_ok Q b1"
    "\<forall>j < m_szSize b. packetAt b1 j = (if j = pos b k then Some p else packetAt b j) \<and> St b1 j = (if j = pos b k then EntryState_Avail else St b j)"
    using ring_take [OF ok pos none [unfolded pk_def] u(1,2)] u(3) by auto
  have "content Q B S M b' \<and> (\<forall>j < m_szSize b. pk b' j = (if j = k then Some p else pk b j) \<and> st b' j = (if j = k then EntryState_Avail else st b j))"
    if b': "m_entries b' = (m_entries b)[pos b k := \<lparr>pUnit = Some u, status = EntryState_Avail\<rparr>]" "m_pUnitQueue b' = q" "same b b'"
      "m_iFirstReadableOutOfOrder b' = m_iFirstReadableOutOfOrder b"
      "m_numOutOfOrderPackets b' = (if isTsbPd b \<or> getMsgOrderFlag p then m_numOutOfOrderPackets b else m_numOutOfOrderPackets b + 1)" for b'
  proof -
    have n: "m_szSize b' = m_szSize b" "isTsbPd b' = isTsbPd b" "m_bMessageAPI b' = m_bMessageAPI b" "m_iStartPos b' = m_iStartPos b"
      "m_bPeerRexmitFlag b' = m_bPeerRexmitFlag b" using b'(3) by (simp_all add: same_def)
    have e1: "m_entries b' = m_entries b1" "m_pUnitQueue b' = m_pUnitQueue b1" "m_szSize b' = m_szSize b1"
      using b'(1,2) n b1(2) by simp_all
    have ring: "ring_ok Q b'" using ring_ok_cong [OF e1(3,1,2) _ b1(3)] n(4) b1(2) sz by simp
    note cong = packetAt_cong [OF e1(1,2)]
    have inj: "pos b j = pos b k \<longleftrightarrow> j = k" if "j < m_szSize b" for j using pos_inject [OF sz(3) that k(1)] .
    have pk: "pk b' j = (if j = k then Some p else pk b j)" and st: "st b' j = (if j = k then EntryState_Avail else st b j)"
      if "j < m_szSize b" for j
      using b1(4) sz inj [OF that] by (simp_all add: pk_def st_def cong same_pos [OF b'(3)])
    have new: "pos b k \<notin> unordered b" using none by (simp add: unordered_def pk_def)
    have un: "unordered b' = (if getMsgOrderFlag p then unordered b else insert (pos b k) (unordered b))"
    proof (intro set_eqI)
      fix i
      show "i \<in> unordered b' \<longleftrightarrow> i \<in> (if getMsgOrderFlag p then unordered b else insert (pos b k) (unordered b))"
      proof (cases "i < m_szSize b")
        case True
        then have "packetAt b' i = (if i = pos b k then Some p else packetAt b i)" using b1(4) by (simp add: cong)
        then show ?thesis using True none by (cases "i = pos b k") (simp_all add: unordered_def n pk_def)
      qed (use pos in \<open>auto simp: unordered_def n\<close>)
    qed
    have num: "m_numOutOfOrderPackets b' = (if isTsbPd b then 0 else card (unordered b'))"
      using c b'(5) new by (auto simp: un content_def)
    have cp: "\<forall>j < m_szSize b. \<forall>q. pk b' j = Some q \<longrightarrow> j < M \<and> carries b S (B + int j) q"
      using content_pk [OF c] p k pk by (auto split: if_splits)
    have first: "\<forall>j < m_szSize b. int (pos b j) = m_iFirstReadableOutOfOrder b \<and> pk b' j \<noteq> None \<longrightarrow>
        s_first (sn S B j) \<and> \<not> s_order (sn S B j)" if "m_iFirstReadableOutOfOrder b \<noteq> - 1"
    proof (intro allI impI)
      fix j assume j: "j < m_szSize b" "int (pos b j) = m_iFirstReadableOutOfOrder b \<and> pk b' j \<noteq> None"
      then have "j \<noteq> k" using fr by auto
      then show "s_first (sn S B j) \<and> \<not> s_order (sn S B j)" using c that j pk [OF j(1)] unfolding content_def by auto
    qed
    have "content Q B S M b'" unfolding content_def n same_pos [OF b'(3)] carries_cong [OF n(5)] b'(4)
      using ring num cp c first unfolding content_def by blast
    then show ?thesis using pk st by simp
  qed
  then show ?thesis using b1(1) by blast
qed

lemma content_mono: "content Q B S M b \<Longrightarrow> M \<le> M' \<Longrightarrow> content Q B S M' b"
  by (auto simp: content_def intro: less_le_trans)

lemma message_at_mono:
  assumes "message_at B S b k m" "m_szSize b' = m_szSize b" "\<forall>j < m_szSize b. pk b j \<noteq> None \<longrightarrow> pk b' j \<noteq> None"
  shows "message_at B S b' k m"
  using assms by (auto simp: message_at_def)

lemma countBytes_fields:
  "content_fields (countBytes n m b) = content_fields b" "m_iFirstNonreadPos (countBytes n m b) = m_iFirstNonreadPos b"
  "m_iMaxPosOff (countBytes n m b) = m_iMaxPosOff b" "m_iStartSeqNo (countBytes n m b) = m_iStartSeqNo b"
  "m_bPeerRexmitFlag (countBytes n m b) = m_bPeerRexmitFlag b" "m_bMessageAPI (countBytes n m b) = m_bMessageAPI b"
  "m_entries (countBytes n m b) = m_entries b" "m_pUnitQueue (countBytes n m b) = m_pUnitQueue b"
  "m_numOutOfOrderPackets (countBytes n m b) = m_numOutOfOrderPackets b" "m_szSize (countBytes n m b) = m_szSize b"
  "m_iStartPos (countBytes n m b) = m_iStartPos b" "m_iFirstReadableOutOfOrder (countBytes n m b) = m_iFirstReadableOutOfOrder b"
  "isTsbPd (countBytes n m b) = isTsbPd b"
  by (simp_all add: countBytes_def content_fields_def isTsbPd_def Let_def)

lemma insert_new:
  assumes fr: "framed S" and inv: "rb_inv Q S B b" and k: "k < m_szSize b - 1" and none: "pk b k = None"
    and u: "u < length (m_pUnits (m_pUnitQueue b))" "u \<notin> taken_units (m_pUnitQueue b)" "unit_packet b u = Some p"
    and p: "carries b S (B + int k) p"
  shows "\<exists>q b' r. makeUnitTaken u (m_pUnitQueue b) = Some q \<and>
    (let b = countBytes 1 (int (m_Length p)) (set_entry (pos b k) \<lparr>pUnit = Some u, status = EntryState_Avail\<rparr>
               (b\<lparr>m_iMaxPosOff := max (m_iMaxPosOff b) (Suc k), m_pUnitQueue := q\<rparr>)) in
     do { b \<leftarrow> (if \<not> isTsbPd b \<and> m_bMessageAPI b \<and> \<not> getMsgOrderFlag p
               then onInsertNotInOrderPacket (pos b k) (b\<lparr>m_numOutOfOrderPackets := m_numOutOfOrderPackets b + 1\<rparr>) else Some b);
          updateNonreadPos b }) = Some b' \<and> rb_inv Q S B b' \<and> m_szSize b' = m_szSize b \<and>
    (\<forall>j < m_szSize b. pk b' j = (if j = k then Some p else pk b j) \<and> st b' j = (if j = k then EntryState_Avail else st b j)) \<and>
    m_iFirstNonreadPos b' = pos b' r \<and> nonread_ok B S b' r \<and> \<not> message_starts B S b' r \<and> m_iMaxPosOff b' = max (m_iMaxPosOff b) (Suc k)"
proof -
  note D = rb_invD [OF inv] and sz = ring_size [OF rb_invD(6) [OF inv]]
  define M where "M = max (m_iMaxPosOff b) (Suc k)"
  define b1 where "b1 = b\<lparr>m_iMaxPosOff := M\<rparr>"
  have "content_fields b1 = content_fields b" by (simp add: b1_def content_fields_def isTsbPd_def)
  note cong1 = content_fields_cong [OF this]
  have c1: "content Q B S M b1" unfolding cong1 by (rule content_mono [OF D(1)]) (simp add: M_def)
  have kn: "k < m_szSize b1" "k < M" "M < m_szSize b" using k D(2) by (auto simp: M_def b1_def)
  have frk: "m_iFirstReadableOutOfOrder b1 \<noteq> int (pos b1 k)"
  proof
    assume *: "m_iFirstReadableOutOfOrder b1 = int (pos b1 k)"
    then obtain j m where j: "int (pos b j) = m_iFirstReadableOutOfOrder b" "message_at B S b j m"
      using D(4) by (auto simp: first_ok_def cong1)
    then have "pk b j \<noteq> None" "j < m_szSize b" by (auto simp: message_at_def dest: spec [of _ 0])
    moreover have "j = k" using pos_inject [OF sz(3) \<open>j < m_szSize b\<close>, of k] j(1) * kn(1) by (simp add: cong1)
    ultimately show False using none by simp
  qed
  have pre: "pk b1 k = None" "u < length (m_pUnits (m_pUnitQueue b1))" "u \<notin> taken_units (m_pUnitQueue b1)" "unit_packet b1 u = Some p"
    "carries b1 S (B + int k) p"
    using none u p carries_cong [of b1 b] by (simp_all add: cong1) (simp_all add: b1_def unit_packet_def)
  obtain q where q: "makeUnitTaken u (m_pUnitQueue b1) = Some q" and ins: "\<And>b'. m_entries b' = (m_entries b1)[pos b1 k := \<lparr>pUnit = Some u, status = EntryState_Avail\<rparr>] \<Longrightarrow>
       m_pUnitQueue b' = q \<Longrightarrow> same b1 b' \<Longrightarrow> m_iFirstReadableOutOfOrder b' = m_iFirstReadableOutOfOrder b1 \<Longrightarrow>
       m_numOutOfOrderPackets b' = (if isTsbPd b1 \<or> getMsgOrderFlag p then m_numOutOfOrderPackets b1 else m_numOutOfOrderPackets b1 + 1) \<Longrightarrow>
       content Q B S M b' \<and> (\<forall>j < m_szSize b1. pk b' j = (if j = k then Some p else pk b1 j) \<and>
         st b' j = (if j = k then EntryState_Avail else st b1 j))"
    using insert_content [OF c1 kn(1,2) pre frk] by blast
  define b2 where "b2 = countBytes 1 (int (m_Length p)) (set_entry (pos b k) \<lparr>pUnit = Some u, status = EntryState_Avail\<rparr>
               (b\<lparr>m_iMaxPosOff := M, m_pUnitQueue := q\<rparr>))"
  define cond where "cond \<longleftrightarrow> \<not> isTsbPd b2 \<and> m_bMessageAPI b2 \<and> \<not> getMsgOrderFlag p"
  define b3 where "b3 = (if cond then b2\<lparr>m_numOutOfOrderPackets := m_numOutOfOrderPackets b2 + 1\<rparr> else b2)"
  have b2: "m_entries b2 = (m_entries b1)[pos b1 k := \<lparr>pUnit = Some u, status = EntryState_Avail\<rparr>]" "m_pUnitQueue b2 = q" "same b1 b2"
    "m_iFirstReadableOutOfOrder b2 = m_iFirstReadableOutOfOrder b1" "m_numOutOfOrderPackets b2 = m_numOutOfOrderPackets b1"
    unfolding b2_def countBytes_fields by (simp_all add: set_entry_def b1_def same_def pos_def countBytes_fields) (simp add: isTsbPd_def)
  have cnd: "cond \<longleftrightarrow> \<not> isTsbPd b1 \<and> \<not> getMsgOrderFlag p" using b2(3) D(7) by (simp add: cond_def same_def b1_def)
  have same3: "same b1 b3" using b2(3) by (simp add: b3_def same_def isTsbPd_def)
  have b3: "content Q B S M b3" "\<forall>j < m_szSize b. pk b3 j = (if j = k then Some p else pk b j)"
    "\<forall>j < m_szSize b. st b3 j = (if j = k then EntryState_Avail else st b j)"
    using ins [of b3] b2 same3 cnd by (simp_all add: b3_def cong1)
  have n3: "m_szSize b3 = m_szSize b" "m_iMaxPosOff b3 = M" "m_iFirstNonreadPos b3 = m_iFirstNonreadPos b" "m_iStartSeqNo b3 = sq B"
    "isTsbPd b3 = isTsbPd b1" "pos b3 j = pos b j" for j
    using same3 D(3) by (simp_all add: same_pos cong1) (simp_all add: same_def b1_def isTsbPd_def)
  have fr3: "m_iFirstReadableOutOfOrder b3 = m_iFirstReadableOutOfOrder b" using b2(4) by (simp add: b3_def b1_def)
  have grow: "\<forall>j < m_szSize b. pk b j \<noteq> None \<longrightarrow> pk b3 j \<noteq> None" using b3(2) by simp
  have fo3: "first_ok B S b3"
    using D(4) message_at_mono [OF _ n3(1) grow] unfolding first_ok_def fr3 n3(6) by blast
  have "\<exists>x. (if cond then onInsertNotInOrderPacket (pos b k) b3 else Some b3) = Some (b3\<lparr>m_iFirstReadableOutOfOrder := x\<rparr>) \<and>
      content Q B S M (b3\<lparr>m_iFirstReadableOutOfOrder := x\<rparr>) \<and> first_ok B S (b3\<lparr>m_iFirstReadableOutOfOrder := x\<rparr>)"
  proof (cases cond)
    case True
    have "k < m_szSize b3" "pk b3 k = Some p" "\<not> getMsgOrderFlag p" "\<not> isTsbPd b3" using kn n3 b3(2) True cnd by (simp_all add: cong1)
    note o = onInsert_spec [OF _ fr _ this(1-3), of Q B] and t = this(4)
    obtain x where x: "onInsertNotInOrderPacket (pos b3 k) b3 = Some (b3\<lparr>m_iFirstReadableOutOfOrder := x\<rparr>)"
      "x = m_iFirstReadableOutOfOrder b3 \<or> readable_at B S b3 x"
      using o b3(1) n3 kn by auto
    have "content Q B S M (b3\<lparr>m_iFirstReadableOutOfOrder := x\<rparr>) \<and> first_ok B S (b3\<lparr>m_iFirstReadableOutOfOrder := x\<rparr>)"
      using x(2) readable_content [OF b3(1) t] b3(1) fo3 by auto
    then show ?thesis using x(1) True n3 by auto
  next
    case False
    then show ?thesis using b3(1) fo3 by (intro exI [of _ "m_iFirstReadableOutOfOrder b3"]) simp
  qed
  then obtain x where x: "(if cond then onInsertNotInOrderPacket (pos b k) b3 else Some b3) = Some (b3\<lparr>m_iFirstReadableOutOfOrder := x\<rparr>)"
    "content Q B S M (b3\<lparr>m_iFirstReadableOutOfOrder := x\<rparr>)" "first_ok B S (b3\<lparr>m_iFirstReadableOutOfOrder := x\<rparr>)" by blast
  define b4 where "b4 = b3\<lparr>m_iFirstReadableOutOfOrder := x\<rparr>"
  obtain r0 where r0: "m_iFirstNonreadPos b = pos b r0" "nonread_ok B S b r0" "r0 < m_szSize b" by (rule rb_inv_nonread [OF inv])
  have nr: "m_iFirstNonreadPos b4 = pos b4 r0" "nonread_ok B S b4 r0"
    using r0 grow n3 kn by (auto simp: b4_def readable_upd nonread_ok_def M_def)
  have "content Q B S (m_iMaxPosOff b4) b4" "m_iMaxPosOff b4 < m_szSize b4" using x n3 kn by (simp_all add: b4_def)
  from updateNonreadPos_spec [OF this nr]
  obtain r where r: "updateNonreadPos b4 = Some (b4\<lparr>m_iFirstNonreadPos := pos b4 r\<rparr>)" "nonread_ok B S b4 r" "\<not> message_starts B S b4 r"
    by blast
  define b' where "b' = b4\<lparr>m_iFirstNonreadPos := pos b4 r\<rparr>"
  have pk': "pk b' = pk b3" "st b' = st b3" "pos b' = pos b3" by (simp_all add: b'_def b4_def nonread_upd readable_upd)
  have st0: "\<not> filler (st b3 0)" using b3(3) sz D(5) by auto
  have "rb_inv Q S B b'"
    unfolding rb_inv_def using x r n3 kn st0 by (auto simp: b'_def nonread_upd readable_upd b4_def)
  moreover have "m_iFirstNonreadPos b' = pos b' r \<and> nonread_ok B S b' r \<and> \<not> message_starts B S b' r \<and> m_szSize b' = m_szSize b \<and> m_iMaxPosOff b' = M"
    using r n3 by (simp add: b'_def nonread_upd b4_def readable_upd)
  moreover have "(let b = b2 in
     do { b \<leftarrow> (if \<not> isTsbPd b \<and> m_bMessageAPI b \<and> \<not> getMsgOrderFlag p
               then onInsertNotInOrderPacket (pos b k) (b\<lparr>m_numOutOfOrderPackets := m_numOutOfOrderPackets b + 1\<rparr>) else Some b);
          updateNonreadPos b }) = Some b'"
  proof -
    have "pos b2 k = pos b k" using b2(3) by (simp add: same_pos cong1)
    then have "(if \<not> isTsbPd b2 \<and> m_bMessageAPI b2 \<and> \<not> getMsgOrderFlag p
               then onInsertNotInOrderPacket (pos b2 k) (b2\<lparr>m_numOutOfOrderPackets := m_numOutOfOrderPackets b2 + 1\<rparr>) else Some b2) = Some b4"
      using x(1) unfolding cond_def [symmetric] b4_def by (simp add: b3_def split: if_splits)
    then show ?thesis using r(1) by (simp add: b'_def)
  qed
  ultimately show ?thesis using q b3(2,3) unfolding pk' b2_def M_def
    by (intro exI [of _ q] exI [of _ b'] exI [of _ r]) (simp add: b1_def pk' M_def)
qed

text \<open>The result of \<^verbatim>\<open>insert\<close> for a packet at distance \<open>x\<close> from the start.\<close>

definition insert_code :: "CRcvBuffer \<Rightarrow> int \<Rightarrow> int" where
  "insert_code b x = (if x < 0 then - 2 else if x \<ge> int (m_szSize b) - 1 then - 3
     else if st b (nat x) \<noteq> EntryState_Empty then - 1 else 0)"

lemma insert_ok:
  assumes fr: "framed S" and inv: "rb_inv Q S B b" and X: "\<bar>X - B\<bar> < m_iSeqNoTH"
    and u: "u < length (m_pUnits (m_pUnitQueue b))" "u \<notin> taken_units (m_pUnitQueue b)" "unit_packet b u = Some p" and p: "carries b S X p"
  shows "\<exists>b'. rb_insert u b = Some (insert_code b (X - B), b') \<and> rb_inv Q S B b' \<and> m_szSize b' = m_szSize b \<and>
    (\<forall>j < m_szSize b. pk b' j = (if insert_code b (X - B) = 0 \<and> j = nat (X - B) then Some p else pk b j) \<and>
       st b' j = (if insert_code b (X - B) = 0 \<and> j = nat (X - B) then EntryState_Avail else st b j)) \<and>
    (insert_code b (X - B) = 0 \<longrightarrow>
       (\<exists>r. m_iFirstNonreadPos b' = pos b' r \<and> nonread_ok B S b' r \<and> \<not> message_starts B S b' r))"
proof -
  note D = rb_invD [OF inv] and sz = ring_size [OF rb_invD(6) [OF inv]]
  have off: "seqoff (m_iStartSeqNo b) (getSeqNo p) = X - B"
    using p seqoff_window [OF X] D(3) by (simp add: carries_def)
  have cap: "int (rb_capacity b) = int (m_szSize b) - 1" using sz by (simp add: rb_capacity_def)
  show ?thesis
  proof (cases "X < B \<or> X - B \<ge> int (m_szSize b) - 1")
    case True
    then have "rb_insert u b = Some (insert_code b (X - B), b)" "insert_code b (X - B) \<noteq> 0"
      using u(3) off cap by (auto simp: rb_insert_def insert_code_def)
    then show ?thesis using inv by (intro exI [of _ b]) simp
  next
    case False
    define k where "k = nat (X - B)"
    have k: "X - B = int k" "X = B + int k" "k < m_szSize b - 1" using False by (auto simp: k_def)
    define b1 where "b1 = b\<lparr>m_iMaxPosOff := max (m_iMaxPosOff b) (Suc k)\<rparr>"
    have "content_fields b1 = content_fields b" by (simp add: b1_def content_fields_def isTsbPd_def)
    note cong1 = content_fields_cong [OF this]
    have b1': "(if nat (int k) \<ge> m_iMaxPosOff b then b\<lparr>m_iMaxPosOff := nat (int k) + 1\<rparr> else b) = b1"
      by (auto simp: b1_def max_def)
    define P where "P = pos b k"
    have pos: "(m_iStartPos b + nat (int k)) mod m_szSize b = P" by (simp add: pos_def P_def)
    have ent: "entry_at b1 P = Some (m_entries b ! P)" "status (m_entries b ! P) = st b k"
      "pUnit (m_entries b ! P) = None \<longleftrightarrow> pk b k = None"
      using entry_pos [OF D(1), of k] by (simp_all add: cong1 P_def)
    have lt: "\<not> int (m_szSize b) - 1 \<le> int k" using k(3) by simp
    have dv: "(m_iStartPos b + nat (int k)) div m_szSize b < 2" using sz k(3) by (simp add: div_less_iff_less_mult)
    have unf: "rb_insert u b =
        (if st b k \<noteq> EntryState_Empty then Some (- 1, b1)
         else if pk b k \<noteq> None then None
         else do {
           q \<leftarrow> makeUnitTaken u (m_pUnitQueue b1);
           let b = countBytes 1 (int (m_Length p)) (set_entry P \<lparr>pUnit = Some u, status = EntryState_Avail\<rparr> (b1\<lparr>m_pUnitQueue := q\<rparr>));
           b \<leftarrow> (if \<not> isTsbPd b \<and> m_bMessageAPI b \<and> \<not> getMsgOrderFlag p
                 then onInsertNotInOrderPacket P (b\<lparr>m_numOutOfOrderPackets := m_numOutOfOrderPackets b + 1\<rparr>) else Some b);
           b \<leftarrow> updateNonreadPos b;
           Some (0, b) })"
      unfolding rb_insert_def u(3) Option.bind.bind_lunit off k(1) Let_def b1' pos using dv lt cap ent
      by (simp del: nat_int)
    show ?thesis
    proof (cases "st b k = EntryState_Empty")
      case False
      then have code: "insert_code b (X - B) = - 1" using k by (simp add: insert_code_def)
      have "rb_inv Q S B b1"
      proof -
        have "content Q B S (m_iMaxPosOff b1) b1" unfolding cong1 by (rule content_mono [OF D(1)]) (simp add: b1_def)
        moreover obtain r where "m_iFirstNonreadPos b = pos b r" "nonread_ok B S b r" by (rule rb_inv_nonread [OF inv])
        then have "m_iFirstNonreadPos b1 = pos b1 r" "nonread_ok B S b1 r" by (auto simp: cong1 nonread_ok_def) (simp_all add: b1_def)
        moreover have "m_iMaxPosOff b1 < m_szSize b1" using D(2) k(3) by (simp add: b1_def)
        moreover have "first_ok B S b1" using D(4) by (simp add: first_ok_def message_at_def cong1)
        ultimately show ?thesis using D(3,5) unfolding rb_inv_def by (auto simp: cong1) (simp add: b1_def)
      qed
      then show ?thesis using unf False code by (intro exI [of _ b1]) (simp add: cong1)
    next
      case True
      then have code: "insert_code b (X - B) = 0" using k by (simp add: insert_code_def)
      have none: "pk b k = None" using st_avail [OF D(6), of k] True by auto
      obtain q b' r where b': "makeUnitTaken u (m_pUnitQueue b) = Some q"
        "(let b = countBytes 1 (int (m_Length p)) (set_entry (pos b k) \<lparr>pUnit = Some u, status = EntryState_Avail\<rparr>
               (b\<lparr>m_iMaxPosOff := max (m_iMaxPosOff b) (Suc k), m_pUnitQueue := q\<rparr>)) in
         do { b \<leftarrow> (if \<not> isTsbPd b \<and> m_bMessageAPI b \<and> \<not> getMsgOrderFlag p
               then onInsertNotInOrderPacket (pos b k) (b\<lparr>m_numOutOfOrderPackets := m_numOutOfOrderPackets b + 1\<rparr>) else Some b);
              updateNonreadPos b }) = Some b'"
        "rb_inv Q S B b'" "m_szSize b' = m_szSize b"
        "\<forall>j < m_szSize b. pk b' j = (if j = k then Some p else pk b j) \<and> st b' j = (if j = k then EntryState_Avail else st b j)"
        "m_iFirstNonreadPos b' = pos b' r" "nonread_ok B S b' r" "\<not> message_starts B S b' r"
        using insert_new [OF fr inv k(3) none u p [unfolded k(2)]] by blast
      have "rb_insert u b = Some (0, b')"
      proof -
        define b2 where "b2 = countBytes 1 (int (m_Length p)) (set_entry P \<lparr>pUnit = Some u, status = EntryState_Avail\<rparr> (b1\<lparr>m_pUnitQueue := q\<rparr>))"
        define A where "A = (if \<not> isTsbPd b2 \<and> m_bMessageAPI b2 \<and> \<not> getMsgOrderFlag p
          then onInsertNotInOrderPacket P (b2\<lparr>m_numOutOfOrderPackets := m_numOutOfOrderPackets b2 + 1\<rparr>) else Some b2)"
        have pos2: "pos b2 k = P" by (simp add: b2_def pos_def countBytes_fields set_entry_def b1_def P_def)
        have b2': "b2 = countBytes 1 (int (m_Length p)) (set_entry (pos b k) \<lparr>pUnit = Some u, status = EntryState_Avail\<rparr>
               (b\<lparr>m_iMaxPosOff := max (m_iMaxPosOff b) (Suc k), m_pUnitQueue := q\<rparr>))"
          by (simp add: b2_def b1_def P_def)
        have "do { b \<leftarrow> A; updateNonreadPos b } = Some b'"
          using b'(2) unfolding b2' [symmetric] Let_def pos2 A_def [symmetric] .
        then have A: "do { b \<leftarrow> A; b \<leftarrow> updateNonreadPos b; Some (0 :: int, b) } = Some (0, b')" by (cases A) simp_all
        have "makeUnitTaken u (m_pUnitQueue b1) = Some q" using b'(1) by (simp add: b1_def)
        then show ?thesis using A True none unfolding unf A_def by (auto simp: Let_def b2_def [symmetric] split: if_splits)
      qed
      then show ?thesis using b' code unfolding k_def [symmetric] by (intro exI [of _ b']) auto
    qed
  qed
qed

end
