(* ===== verification/RcvRead.thy ===== *)
theory RcvRead
  imports RcvOps
begin

text \<open>
  \<^verbatim>\<open>readMessage\<close> of the receiver buffer: it returns on every buffer with the invariant, delivers the bytes
  of one complete message of the stream, keeps the invariant and takes exactly the packets of that message.
\<close>

section \<open>The loop\<close>

text \<open>The state of the reading loop after the bytes \<open>D\<close> of the message, with room for \<open>len\<close> bytes.\<close>

definition read_ok :: "nat \<Rightarrow> byte list \<Rightarrow> read_state \<Rightarrow> bool" where
  "read_ok len D rs \<longleftrightarrow> rs_data rs = take len D \<and> rs_remain rs = len - length D"

lemma read_packet_unit:
  assumes c: "content Q B S M b" and k: "k < m_szSize b" and p: "pk b k = Some p" and rs: "read_ok len D rs"
  shows "\<exists>b1 rs'. content Q B S M b1 \<and> same b b1 \<and> m_iFirstReadableOutOfOrder b1 = m_iFirstReadableOutOfOrder b \<and>
    (\<forall>j < m_szSize b. pk b1 j = (if j = k then None else pk b j) \<and> st b1 j = (if j = k then EntryState_Empty else st b j)) \<and>
    read_ok len (D @ s_data (sn S B k)) rs' \<and>
    read_packet upd (pos b k) rs b = do {
      b \<leftarrow> (if upd then
               (if m_iMaxPosOff b1 = 0 then None
                else Some (b1\<lparr>m_iStartPos := incPos b1 (pos b k) 1, m_iMaxPosOff := m_iMaxPosOff b1 - 1,
                        m_iStartSeqNo := incseq (getSeqNo p)\<rparr>))
             else do {
               e \<leftarrow> entry_at b1 (pos b k);
               Some (set_entry (pos b k) (e\<lparr>status := EntryState_Read\<rparr>) b1) });
      Some (is_last p, rs', b) }"
proof -
  have car: "carries b S (B + int k) p" using content_pk [OF c k p] by simp
  have data: "m_Length p \<le> length (m_pcData p)" "take (m_Length p) (m_pcData p) = s_data (sn S B k)"
    using car by (simp_all add: carries_def sn_def)
  then have len: "length (s_data (sn S B k)) = m_Length p" by (metis length_take min.absorb2)
  define t where "t = (if isTsbPd b then updateTsbPdTimeBase (getMsgTimeStamp p) b else b)"
  define b0 where "b0 = (if m_numOutOfOrderPackets t \<noteq> 0 \<and> \<not> getMsgOrderFlag p
                then t\<lparr>m_numOutOfOrderPackets := m_numOutOfOrderPackets t - 1\<rparr> else t)"
  have b0: "same b b0" "m_entries b0 = m_entries b" "m_pUnitQueue b0 = m_pUnitQueue b"
    "m_iFirstReadableOutOfOrder b0 = m_iFirstReadableOutOfOrder b"
    by (auto simp: b0_def t_def same_def updateTsbPdTimeBase_def isTsbPd_def)
  have num: "m_numOutOfOrderPackets b0 = (if isTsbPd b then 0 else card (unordered b - {pos b k}))"
    using unordered_remove [OF c k p] c car by (auto simp: b0_def t_def updateTsbPdTimeBase_def content_def carries_def sn_def)
  obtain b1 where b1: "releaseUnitInPos (pos b k) b0 = Some b1" "content Q B S M b1" "same b b1"
    "m_iFirstReadableOutOfOrder b1 = m_iFirstReadableOutOfOrder b0"
    "\<forall>j < m_szSize b. pk b1 j = (if j = k then None else pk b j) \<and> st b1 j = (if j = k then EntryState_Empty else st b j)"
    using releaseUnitInPos_content [OF c k b0(1-3) num disjI1 [OF b0(4)]] by blast
  define unitsize where "unitsize = min (rs_remain rs) (m_Length p)"
  define rs1 where "rs1 = rs\<lparr>rs_data := rs_data rs @ take unitsize (m_pcData p), rs_remain := rs_remain rs - unitsize,
                  rs_pkts_read := rs_pkts_read rs + 1, rs_bytes_extracted := rs_bytes_extracted rs + m_Length p\<rparr>"
  define rs' where "rs' = rs1\<lparr>rs_msgctrl := map_option (read_msgctrl b0 p) (rs_msgctrl rs1)\<rparr>"
  have "take unitsize (m_pcData p) = take (len - length D) (s_data (sn S B k))"
    using rs unfolding data(2) [symmetric] take_take unitsize_def by (simp add: read_ok_def)
  then have ok: "read_ok len (D @ s_data (sn S B k)) rs'"
    using rs len by (auto simp: read_ok_def rs'_def rs1_def unitsize_def)
  have "\<not> length (m_pcData p) < unitsize" using data(1) by (simp add: unitsize_def)
  then have "read_packet upd (pos b k) rs b = do {
      b \<leftarrow> (if upd then
               (if m_iMaxPosOff b1 = 0 then None
                else Some (b1\<lparr>m_iStartPos := incPos b1 (pos b k) 1, m_iMaxPosOff := m_iMaxPosOff b1 - 1,
                        m_iStartSeqNo := incseq (getSeqNo p)\<rparr>))
             else do {
               e \<leftarrow> entry_at b1 (pos b k);
               Some (set_entry (pos b k) (e\<lparr>status := EntryState_Read\<rparr>) b1) });
      Some (is_last p, rs', b) }"
    using b1(1) unfolding read_packet_def p [unfolded pk_def] Option.bind.bind_lunit Let_def
      unitsize_def [symmetric] rs1_def [symmetric] t_def [symmetric] b0_def [symmetric] rs'_def [symmetric] by simp
  then show ?thesis using b1 ok b0(4) by (intro exI [of _ b1] exI [of _ rs']) simp
qed

lemma read_packet_front:
  assumes c: "content Q B S (m_iMaxPosOff b) b" and p: "pk b 0 \<noteq> None" and rs: "read_ok len D rs"
  shows "\<exists>b' rs'. read_packet True (m_iStartPos b) rs b = Some (s_last (sn S B 0), rs', b') \<and>
    content Q (B + 1) S (m_iMaxPosOff b') b' \<and> shifted 1 b b' \<and> m_iMaxPosOff b' = m_iMaxPosOff b - 1 \<and>
    m_iStartSeqNo b' = sq (B + 1) \<and> m_iFirstReadableOutOfOrder b' = m_iFirstReadableOutOfOrder b \<and>
    read_ok len (D @ s_data (sn S B 0)) rs'"
proof -
  note sz = ring_size [OF content_ring [OF c]]
  obtain p where p: "pk b 0 = Some p" using p by blast
  note car = content_at [OF c sz(1) p]
  obtain b1 rs' where b1: "content Q B S (m_iMaxPosOff b) b1" "same b b1" "m_iFirstReadableOutOfOrder b1 = m_iFirstReadableOutOfOrder b"
    "\<forall>j < m_szSize b. pk b1 j = (if j = 0 then None else pk b j) \<and> st b1 j = (if j = 0 then EntryState_Empty else st b j)"
    "read_ok len (D @ s_data (sn S B 0)) rs'"
    "read_packet True (pos b 0) rs b = do {
      b \<leftarrow> (if True then
               (if m_iMaxPosOff b1 = 0 then None
                else Some (b1\<lparr>m_iStartPos := incPos b1 (pos b 0) 1, m_iMaxPosOff := m_iMaxPosOff b1 - 1,
                        m_iStartSeqNo := incseq (getSeqNo p)\<rparr>))
             else do {
               e \<leftarrow> entry_at b1 (pos b 0);
               Some (set_entry (pos b 0) (e\<lparr>status := EntryState_Read\<rparr>) b1) });
      Some (is_last p, rs', b) }"
    using read_packet_unit [OF c sz(1) p rs, of True] by blast
  define b' where "b' = b1\<lparr>m_iStartPos := pos b 1, m_iMaxPosOff := m_iMaxPosOff b - 1, m_iStartSeqNo := sq (B + 1)\<rparr>"
  have M: "m_iMaxPosOff b1 = m_iMaxPosOff b" "m_szSize b1 = m_szSize b" using b1(2) by (simp_all add: same_def)
  have inc: "incPos b1 (pos b 0) 1 = pos b 1" by (metis incPos_pos(1) One_nat_def b1(2) same_pos)
  have seq: "incseq (getSeqNo p) = sq (B + 1)" using car(6) by (simp add: incseq_sq)
  have "read_packet True (pos b 0) rs b = Some (s_last (sn S B 0), rs', b')"
    unfolding b1(6) inc seq using M car by (simp add: b'_def)
  moreover have "content Q (B + 1) S (m_iMaxPosOff b - 1) b'" "shifted 1 b b'"
    by (rule shift_step [OF b1(1,2,4)]; simp add: b'_def same_pos [OF b1(2)] isTsbPd_def)+
  ultimately show ?thesis using b1(3,5) sz by (intro exI [of _ b'] exI [of _ rs']) (simp add: b'_def)
qed

lemma read_front:
  assumes "content Q B S (m_iMaxPosOff b) b" "message_at B S b 0 m" "read_ok len D rs"
  shows "\<exists>b' rs'. read_loop True readPos (m_iStartPos b) rs b =
      Some (rs', if int readPos = m_iFirstReadableOutOfOrder b' then b'\<lparr>m_iFirstReadableOutOfOrder := - 1\<rparr> else b') \<and>
    content Q (B + int (Suc m)) S (m_iMaxPosOff b') b' \<and> shifted (Suc m) b b' \<and> m_iMaxPosOff b' = m_iMaxPosOff b - Suc m \<and>
    m_iStartSeqNo b' = sq (B + int (Suc m)) \<and> m_iFirstReadableOutOfOrder b' = m_iFirstReadableOutOfOrder b \<and>
    read_ok len (D @ concat (map (\<lambda>j. s_data (sn S B j)) [0..<Suc m])) rs'"
  using assms
proof (induction m arbitrary: B b D rs)
  case 0
  have "pk b 0 \<noteq> None" "s_last (sn S B 0)" using 0(2) by (auto simp: message_at_def)
  then obtain b' rs' where b': "read_packet True (m_iStartPos b) rs b = Some (True, rs', b')"
    "content Q (B + 1) S (m_iMaxPosOff b') b'" "shifted 1 b b'" "m_iMaxPosOff b' = m_iMaxPosOff b - 1"
    "m_iStartSeqNo b' = sq (B + 1)" "m_iFirstReadableOutOfOrder b' = m_iFirstReadableOutOfOrder b"
    "read_ok len (D @ s_data (sn S B 0)) rs'"
    using read_packet_front [OF 0(1) _ 0(3)] by auto
  show ?case by (intro exI [of _ b'] exI [of _ rs']) (use b' in \<open>simp add: read_loop.simps [of True]\<close>)
next
  case (Suc m)
  have m: "pk b 0 \<noteq> None" "\<not> s_last (sn S B 0)" using Suc.prems(2) by (auto simp: message_at_def)
  then obtain b1 rs1 where b1: "read_packet True (m_iStartPos b) rs b = Some (False, rs1, b1)"
    "content Q (B + 1) S (m_iMaxPosOff b1) b1" "shifted 1 b b1" "m_iMaxPosOff b1 = m_iMaxPosOff b - 1"
    "m_iFirstReadableOutOfOrder b1 = m_iFirstReadableOutOfOrder b"
    "read_ok len (D @ s_data (sn S B 0)) rs1"
    using read_packet_front [OF Suc.prems(1) m(1) Suc.prems(3)] by auto
  have "message_at B S b (0 + 1) m" using Suc.prems(2) by (auto simp: message_at_def)
  then have "message_at (B + 1) S b1 0 m" using message_at_shift [OF b1(3)] by simp
  from Suc.IH [OF b1(2) this b1(6)] obtain b' rs' where b': "read_loop True readPos (m_iStartPos b1) rs1 b1 =
      Some (rs', if int readPos = m_iFirstReadableOutOfOrder b' then b'\<lparr>m_iFirstReadableOutOfOrder := - 1\<rparr> else b')"
    "content Q (B + 1 + int (Suc m)) S (m_iMaxPosOff b') b'" "shifted (Suc m) b1 b'" "m_iMaxPosOff b' = m_iMaxPosOff b1 - Suc m"
    "m_iStartSeqNo b' = sq (B + 1 + int (Suc m))" "m_iFirstReadableOutOfOrder b' = m_iFirstReadableOutOfOrder b1"
    "read_ok len ((D @ s_data (sn S B 0)) @ concat (map (\<lambda>j. s_data (sn S (B + 1) j)) [0..<Suc m])) rs'"
    by blast
  have "incPos b1 (m_iStartPos b) 1 = m_iStartPos b1" using b1(3) by (simp add: shifted_def incPos_def pos_def)
  then have loop: "read_loop True readPos (m_iStartPos b) rs b = read_loop True readPos (m_iStartPos b1) rs1 b1"
    by (subst read_loop.simps) (simp add: b1(1))
  have "[0..<Suc (Suc m)] = 0 # map Suc [0..<Suc m]" by (subst upt_conv_Cons) (simp_all only: map_Suc_upt zero_less_Suc)
  then have data: "concat (map (\<lambda>j. s_data (sn S B j)) [0..<Suc (Suc m)]) =
      s_data (sn S B 0) @ concat (map (\<lambda>j. s_data (sn S (B + 1) j)) [0..<Suc m])"
    by (simp only: list.map concat.simps map_map o_def sn_shift)
  have B: "B + int (Suc (Suc m)) = B + 1 + int (Suc m)" by simp
  show ?case unfolding loop data B using b' b1 shifted_trans [OF b1(3) b'(3)]
    by (intro exI [of _ b'] exI [of _ rs']) simp
qed

lemma read_packet_out:
  assumes c: "content Q B S M b" and k: "k < m_szSize b" and p: "pk b k \<noteq> None" and rs: "read_ok len D rs"
  shows "\<exists>b' rs'. read_packet False (pos b k) rs b = Some (s_last (sn S B k), rs', b') \<and> content Q B S M b' \<and> same b b' \<and>
    m_iFirstReadableOutOfOrder b' = m_iFirstReadableOutOfOrder b \<and>
    (\<forall>j < m_szSize b. pk b' j = (if j = k then None else pk b j) \<and> st b' j = (if j = k then EntryState_Read else st b j)) \<and>
    read_ok len (D @ s_data (sn S B k)) rs'"
proof -
  obtain p where p: "pk b k = Some p" using p by blast
  note car = content_at [OF c k p]
  obtain b1 rs' where b1: "content Q B S M b1" "same b b1" "m_iFirstReadableOutOfOrder b1 = m_iFirstReadableOutOfOrder b"
    "\<forall>j < m_szSize b. pk b1 j = (if j = k then None else pk b j) \<and> st b1 j = (if j = k then EntryState_Empty else st b j)"
    "read_ok len (D @ s_data (sn S B k)) rs'"
    "read_packet False (pos b k) rs b = do {
      b \<leftarrow> (if False then
               (if m_iMaxPosOff b1 = 0 then None
                else Some (b1\<lparr>m_iStartPos := incPos b1 (pos b k) 1, m_iMaxPosOff := m_iMaxPosOff b1 - 1,
                        m_iStartSeqNo := incseq (getSeqNo p)\<rparr>))
             else do {
               e \<leftarrow> entry_at b1 (pos b k);
               Some (set_entry (pos b k) (e\<lparr>status := EntryState_Read\<rparr>) b1) });
      Some (is_last p, rs', b) }"
    using read_packet_unit [OF c k p rs, of False] by blast
  have k1: "k < m_szSize b1" "pk b1 k = None" "m_szSize b1 = m_szSize b" using b1(2,4) k by (auto simp: same_def)
  note s = setStatus_content [OF b1(1) k1(1,2), of EntryState_Read, simplified]
  define b' where "b' = set_entry (pos b1 k) ((m_entries b1 ! pos b1 k)\<lparr>status := EntryState_Read\<rparr>) b1"
  have "read_packet False (pos b k) rs b = Some (s_last (sn S B k), rs', b')"
    unfolding b1(6) using entry_pos [OF b1(1), of k] car by (simp add: b'_def same_pos [OF b1(2)])
  then show ?thesis using s [folded b'_def] same_trans [OF b1(2) s(2) [folded b'_def]] b1(3-5) k1(3) by (intro exI [of _ b'] exI [of _ rs']) auto
qed

lemma read_out:
  assumes "content Q B S M b" "message_at B S b k m" "read_ok len D rs"
  shows "\<exists>b' rs'. read_loop False readPos (pos b k) rs b =
      Some (rs', if int readPos = m_iFirstReadableOutOfOrder b' then b'\<lparr>m_iFirstReadableOutOfOrder := - 1\<rparr> else b') \<and>
    content Q B S M b' \<and> same b b' \<and> m_iFirstReadableOutOfOrder b' = m_iFirstReadableOutOfOrder b \<and>
    (\<forall>j < m_szSize b. pk b' j = (if k \<le> j \<and> j \<le> k + m then None else pk b j) \<and>
       st b' j = (if k \<le> j \<and> j \<le> k + m then EntryState_Read else st b j)) \<and>
    read_ok len (D @ concat (map (\<lambda>j. s_data (sn S B j)) [k..<Suc (k + m)])) rs'"
  using assms
proof (induction m arbitrary: k b D rs)
  case 0
  have m: "pk b k \<noteq> None" "s_last (sn S B k)" "k < m_szSize b" using 0(2) by (auto simp: message_at_def)
  then obtain b' rs' where b': "read_packet False (pos b k) rs b = Some (True, rs', b')" "content Q B S M b'" "same b b'"
    "m_iFirstReadableOutOfOrder b' = m_iFirstReadableOutOfOrder b"
    "\<forall>j < m_szSize b. pk b' j = (if j = k then None else pk b j) \<and> st b' j = (if j = k then EntryState_Read else st b j)"
    "read_ok len (D @ s_data (sn S B k)) rs'"
    using read_packet_out [OF 0(1) m(3) m(1) 0(3)] by auto
  show ?case by (intro exI [of _ b'] exI [of _ rs']) (use b' in \<open>auto simp: read_loop.simps [of False]\<close>)
next
  case (Suc m)
  have m: "pk b k \<noteq> None" "\<not> s_last (sn S B k)" "k < m_szSize b" using Suc.prems(2) by (auto simp: message_at_def)
  then obtain b1 rs1 where b1: "read_packet False (pos b k) rs b = Some (False, rs1, b1)" "content Q B S M b1" "same b b1"
    "m_iFirstReadableOutOfOrder b1 = m_iFirstReadableOutOfOrder b"
    "\<forall>j < m_szSize b. pk b1 j = (if j = k then None else pk b j) \<and> st b1 j = (if j = k then EntryState_Read else st b j)"
    "read_ok len (D @ s_data (sn S B k)) rs1"
    using read_packet_out [OF Suc.prems(1) m(3) m(1) Suc.prems(3)] by auto
  have n1: "m_szSize b1 = m_szSize b" using b1(3) by (simp add: same_def)
  have "message_at B S b1 (Suc k) m" unfolding message_at_def
  proof (intro conjI allI impI)
    show "Suc k + m < m_szSize b1" using Suc.prems(2) n1 by (auto simp: message_at_def)
    show "pk b1 (Suc k + j) \<noteq> None" if "j \<le> m" for j
    proof -
      have "Suc k + j < m_szSize b" "pk b (Suc k + j) \<noteq> None"
        using Suc.prems(2) that by (auto simp: message_at_def dest: spec [of _ "Suc j"])
      then show ?thesis using b1(5) by auto
    qed
  qed (use Suc.prems(2) in \<open>auto simp: message_at_def dest: spec [of _ "Suc _"]\<close>)
  from Suc.IH [OF b1(2) this b1(6)] obtain b' rs' where b': "read_loop False readPos (pos b1 (Suc k)) rs1 b1 =
      Some (rs', if int readPos = m_iFirstReadableOutOfOrder b' then b'\<lparr>m_iFirstReadableOutOfOrder := - 1\<rparr> else b')"
    "content Q B S M b'" "same b1 b'" "m_iFirstReadableOutOfOrder b' = m_iFirstReadableOutOfOrder b1"
    "\<forall>j < m_szSize b. pk b' j = (if Suc k \<le> j \<and> j \<le> Suc k + m then None else pk b1 j) \<and>
       st b' j = (if Suc k \<le> j \<and> j \<le> Suc k + m then EntryState_Read else st b1 j)"
    "read_ok len ((D @ s_data (sn S B k)) @ concat (map (\<lambda>j. s_data (sn S B j)) [Suc k..<Suc (Suc k + m)])) rs'"
    unfolding n1 by blast
  have loop: "read_loop False readPos (pos b k) rs b = read_loop False readPos (pos b1 (Suc k)) rs1 b1"
    using incPos_pos(1) [of b1 k] by (subst read_loop.simps) (simp add: b1(1) same_pos [OF b1(3)])
  have "[k..<Suc (k + Suc m)] = k # [Suc k..<Suc (Suc k + m)]" by (subst upt_conv_Cons) simp_all
  then have data: "concat (map (\<lambda>j. s_data (sn S B j)) [k..<Suc (k + Suc m)]) =
      s_data (sn S B k) @ concat (map (\<lambda>j. s_data (sn S B j)) [Suc k..<Suc (Suc k + m)])"
    by (simp only: list.map concat.simps)
  have pk': "pk b' j = (if k \<le> j \<and> j \<le> k + Suc m then None else pk b j) \<and>
       st b' j = (if k \<le> j \<and> j \<le> k + Suc m then EntryState_Read else st b j)" if "j < m_szSize b" for j
    using b'(5) b1(5) that by (cases "j = k") auto
  show ?case unfolding loop data using b' b1(4) same_trans [OF b1(3) b'(3)] pk'
    by (intro exI [of _ b'] exI [of _ rs']) simp
qed

section \<open>After the loop\<close>

text \<open>What follows the loop: the start moves over the fillers behind it, and the position of the first
  unread packet, if it is no longer inside the buffer, is the start.\<close>

lemma read_finish:
  assumes c: "content Q B S M b" "m_iStartSeqNo b = sq B" "m_iMaxPosOff b = M" "first_ok B S b" "M < m_szSize b"
    and r: "m_iFirstNonreadPos b0 = pos b0 r" "nonread_ok B0 S b0 r" and sh: "shifted D b0 b" "B = B0 + int D"
    and M0: "M = m_iMaxPosOff b0 - D" "m_iMaxPosOff b0 < m_szSize b0"
  shows "\<exists>d b' b''. releaseNextFillerEntries b = Some b' \<and>
    (let b = (if \<not> isInRange (m_iStartPos b') (m_iMaxPosOff b') (m_szSize b') (m_iFirstNonreadPos b')
              then b'\<lparr>m_iFirstNonreadPos := m_iStartPos b'\<rparr> else b')
     in (if \<not> isTsbPd b then updateFirstReadableOutOfOrder b else Some b)) = Some b'' \<and>
    rb_inv Q S (B + int d) b'' \<and> m_szSize b'' = m_szSize b \<and> (\<forall>k < d. filler (st b k)) \<and> d \<le> m_szSize b \<and>
    (\<forall>k < m_szSize b. pk b'' k = (if k + d < m_szSize b then pk b (k + d) else None) \<and>
       st b'' k = (if k + d < m_szSize b then st b (k + d) else EntryState_Empty))"
proof -
  obtain d b1 where b1: "releaseNextFillerEntries b = Some b1" "content Q (B + int d) S (M - d) b1" "shifted d b b1"
    "m_iStartSeqNo b1 = sq (B + int d)" "m_iMaxPosOff b1 = M - d" "first_ok (B + int d) S b1" "d \<le> m_szSize b"
    "\<forall>k < d. filler (st b k)" "\<not> filler (st b1 0)"
    using release_fillers_content [OF c(1-3)] c(4) by blast
  note sh1 = shifted_trans [OF sh(1) b1(3)]
  have n1: "m_szSize b1 = m_szSize b" "m_szSize b = m_szSize b0" using sh b1(3) by (simp_all add: shifted_def)
  have M1: "m_iMaxPosOff b1 = m_iMaxPosOff b0 - (D + d)" "m_iMaxPosOff b1 < m_szSize b1" using b1(5) M0 n1 by auto
  have B1: "B0 + int (D + d) = B + int d" using sh(2) by simp
  define b2 where "b2 = (if \<not> isInRange (m_iStartPos b1) (m_iMaxPosOff b1) (m_szSize b1) (m_iFirstNonreadPos b1)
      then b1\<lparr>m_iFirstNonreadPos := m_iStartPos b1\<rparr> else b1)"
  have b2: "content Q (B + int d) S (m_iMaxPosOff b2) b2" "m_iMaxPosOff b2 < m_szSize b2" "m_iStartSeqNo b2 = sq (B + int d)"
    "first_ok (B + int d) S b2" "\<not> filler (st b2 0)" "pk b2 = pk b1" "st b2 = st b1" "m_szSize b2 = m_szSize b"
    using b1 M1 n1 by (simp_all add: b2_def nonread_upd)
  obtain r' where r': "m_iFirstNonreadPos b2 = pos b2 r'" "nonread_ok (B + int d) S b2 r'"
  proof (cases "isInRange (m_iStartPos b1) (m_iMaxPosOff b1) (m_szSize b1) (m_iFirstNonreadPos b1)")
    case True
    then show ?thesis using nonread_shift [OF r sh1 M1(1) M0(2) content_ring [OF b1(2)] True] that unfolding B1 b2_def by auto
  next
    case False
    then show ?thesis using ring_size [OF content_ring [OF b2(1)]] by (intro that [of 0]) (simp_all add: b2_def nonread_ok_def nonread_upd)
  qed
  have "\<exists>b''. (if \<not> isTsbPd b2 then updateFirstReadableOutOfOrder b2 else Some b2) = Some b'' \<and> rb_inv Q S (B + int d) b'' \<and>
      pk b'' = pk b1 \<and> st b'' = st b1 \<and> m_szSize b'' = m_szSize b"
  proof (cases "isTsbPd b2")
    case True
    then show ?thesis using b2 r' by (intro exI [of _ b2]) (auto simp: rb_inv_def)
  next
    case False
    then show ?thesis using finish_first [OF b2(1-3) r' b2(4,5) False] b2(6-8) by auto
  qed
  then obtain b'' where "(if \<not> isTsbPd b2 then updateFirstReadableOutOfOrder b2 else Some b2) = Some b''" "rb_inv Q S (B + int d) b''"
      "pk b'' = pk b1" "st b'' = st b1" "m_szSize b'' = m_szSize b" by blast
  moreover have "pk b1 k = (if k + d < m_szSize b then pk b (k + d) else None) \<and>
       st b1 k = (if k + d < m_szSize b then st b (k + d) else EntryState_Empty)" if "k < m_szSize b" for k
    using b1(3) that by (simp add: shifted_def)
  ultimately show ?thesis using b1(1,7,8) unfolding Let_def
    by - (rule exI [of _ d], rule exI [of _ b1], rule exI [of _ b''], (simp only: b2_def [symmetric] simp_thms)?, simp)
qed

section \<open>readMessage\<close>

lemma first_message:
  assumes "nonread_ok B S b r" "0 < r" "m_iMaxPosOff b < m_szSize b"
  obtains m where "message_at B S b 0 m" "m < r"
proof -
  define m where "m = (LEAST j. s_last (sn S B j))"
  have l: "s_last (sn S B (r - 1))" using assms by (simp add: nonread_ok_def)
  have "s_last (sn S B m)" "m \<le> r - 1" unfolding m_def by (rule LeastI [of _ "r - 1"], rule l) (rule Least_le, rule l)
  moreover have "\<not> s_last (sn S B j)" if "j < m" for j using that not_less_Least unfolding m_def by blast
  ultimately show thesis using assms by (intro that [of m]) (auto simp: message_at_def nonread_ok_def)
qed

text \<open>The bytes of the packets from offset \<open>k\<close> to \<open>k + m\<close>.\<close>

definition message_bytes :: "(int \<Rightarrow> sent) \<Rightarrow> int \<Rightarrow> nat \<Rightarrow> nat \<Rightarrow> byte list" where
  "message_bytes S B k m = concat (map (\<lambda>j. s_data (sn S B j)) [k..<Suc (k + m)])"

lemma readMessage_steps:
  assumes "read_loop (readPos = m_iStartPos b0) readPos readPos
      \<lparr>rs_data = [], rs_remain = len, rs_pkts_read = 0, rs_bytes_extracted = 0, rs_msgctrl = mc\<rparr> b0 = Some (rs, b)"
    and "releaseNextFillerEntries (countBytes (- int (rs_pkts_read rs)) (- int (rs_bytes_extracted rs)) b) = Some b'"
    and "(let b = (if \<not> isInRange (m_iStartPos b') (m_iMaxPosOff b') (m_szSize b') (m_iFirstNonreadPos b')
              then b'\<lparr>m_iFirstNonreadPos := m_iStartPos b'\<rparr> else b')
     in (if \<not> isTsbPd b then updateFirstReadableOutOfOrder b else Some b)) = Some b''"
    and "hasReadableInorderPkts b0 \<and> readPos = m_iStartPos b0 \<or> \<not> hasReadableInorderPkts b0 \<and> m_iFirstReadableOutOfOrder b0 = int readPos"
  shows "readMessage len mc b0 = Some (rs_data rs, rs_msgctrl rs, b'')"
  using assms by (auto simp: readMessage_def Let_def)

lemma readMessage_front:
  assumes inv: "rb_inv Q S B b" and fr: "framed S" and m: "message_at B S b 0 m"
    and go: "hasReadableInorderPkts b \<or> m_iFirstReadableOutOfOrder b = int (m_iStartPos b)"
  shows "\<exists>d mc' b'. readMessage len mc b = Some (take len (message_bytes S B 0 m), mc', b') \<and>
    rb_inv Q S (B + int (Suc m + d)) b' \<and> m_szSize b' = m_szSize b \<and> Suc m + d \<le> m_szSize b + Suc m \<and>
    (\<forall>k. Suc m \<le> k \<and> k < Suc m + d \<and> k < m_szSize b \<longrightarrow> filler (st b k)) \<and>
    (\<forall>k < m_szSize b. pk b' k = (if k + (Suc m + d) < m_szSize b then pk b (k + (Suc m + d)) else None) \<and>
       st b' k = (if k + (Suc m + d) < m_szSize b then st b (k + (Suc m + d)) else EntryState_Empty))"
proof -
  note D = rb_invD [OF inv] and sz = ring_size [OF rb_invD(6) [OF inv]]
  obtain r where r: "m_iFirstNonreadPos b = pos b r" "nonread_ok B S b r" by (rule rb_inv_nonread [OF inv])
  define rs where "rs = \<lparr>rs_data = [], rs_remain = len, rs_pkts_read = 0, rs_bytes_extracted = 0, rs_msgctrl = mc\<rparr>"
  have rs: "read_ok len [] rs" by (simp add: read_ok_def rs_def)
  obtain b1 rs' where b1: "read_loop True (m_iStartPos b) (m_iStartPos b) rs b =
      Some (rs', if int (m_iStartPos b) = m_iFirstReadableOutOfOrder b1 then b1\<lparr>m_iFirstReadableOutOfOrder := - 1\<rparr> else b1)"
    "content Q (B + int (Suc m)) S (m_iMaxPosOff b1) b1" "shifted (Suc m) b b1" "m_iMaxPosOff b1 = m_iMaxPosOff b - Suc m"
    "m_iStartSeqNo b1 = sq (B + int (Suc m))" "m_iFirstReadableOutOfOrder b1 = m_iFirstReadableOutOfOrder b"
    "read_ok len ([] @ concat (map (\<lambda>j. s_data (sn S B j)) [0..<Suc m])) rs'"
    using read_front [OF D(1) m rs, of "m_iStartPos b"] by blast
  define b2 where "b2 = (if int (m_iStartPos b) = m_iFirstReadableOutOfOrder b1 then b1\<lparr>m_iFirstReadableOutOfOrder := - 1\<rparr> else b1)"
  have b2: "content Q (B + int (Suc m)) S (m_iMaxPosOff b1) b2" "pk b2 = pk b1" "st b2 = st b1" "shifted (Suc m) b b2"
    "m_iMaxPosOff b2 = m_iMaxPosOff b1" "m_iStartSeqNo b2 = m_iStartSeqNo b1" "m_szSize b2 = m_szSize b"
    using b1(2,3) readable_reset [OF b1(2)] by (simp_all add: b2_def readable_upd shifted_def)
  have "Suc m \<le> k" if k: "m_iFirstReadableOutOfOrder b2 \<noteq> - 1" "int (pos b k) = m_iFirstReadableOutOfOrder b" "message_at B S b k l" for k l
  proof (rule ccontr)
    assume "\<not> Suc m \<le> k"
    have k0: "k \<noteq> 0" using k(1,2) b1(6) pos_0 [OF sz(3)] by (intro notI) (auto simp: b2_def split: if_splits)
    have kn: "k < m_szSize b" "pk b k \<noteq> None" using k(3) by (auto simp: message_at_def dest: spec [of _ 0])
    then have "s_first (sn S B k)" using D(1) k(2) by (auto simp: content_def)
    then have "s_last (sn S B (k - 1))" using framed_next [OF fr, of B "k - 1"] k0 by simp
    then show False using m k0 \<open>\<not> Suc m \<le> k\<close> by (auto simp: message_at_def)
  qed
  then have fo2: "first_ok (B + int (Suc m)) S b2" using first_ok_shift [OF D(4) b2(4)] b1(6) by (auto simp: b2_def)
  define b3 where "b3 = countBytes (- int (rs_pkts_read rs')) (- int (rs_bytes_extracted rs')) b2"
  note cong3 = content_fields_cong [OF countBytes_fields(1) [of "- int (rs_pkts_read rs')" "- int (rs_bytes_extracted rs')" b2], folded b3_def]
  note same3 = countBytes_fields(2-) [of "- int (rs_pkts_read rs')" "- int (rs_bytes_extracted rs')" b2, folded b3_def]
  have sh3: "shifted (Suc m) b b3" using b2(4) by (simp add: shifted_def cong3 same3)
  have c3: "content Q (B + int (Suc m)) S (m_iMaxPosOff b1) b3" "m_iStartSeqNo b3 = sq (B + int (Suc m))"
    "m_iMaxPosOff b3 = m_iMaxPosOff b1" "first_ok (B + int (Suc m)) S b3" "m_iMaxPosOff b1 < m_szSize b3"
    using b2 b1(4,5) fo2 D(2) by (simp_all add: cong3 same3 first_ok_def message_at_def)
  obtain d b4 b5 where fin: "releaseNextFillerEntries b3 = Some b4"
    "(let b = (if \<not> isInRange (m_iStartPos b4) (m_iMaxPosOff b4) (m_szSize b4) (m_iFirstNonreadPos b4)
              then b4\<lparr>m_iFirstNonreadPos := m_iStartPos b4\<rparr> else b4)
     in (if \<not> isTsbPd b then updateFirstReadableOutOfOrder b else Some b)) = Some b5"
    "rb_inv Q S (B + int (Suc m) + int d) b5" "m_szSize b5 = m_szSize b3" "\<forall>k < d. filler (st b3 k)" "d \<le> m_szSize b3"
    "\<forall>k < m_szSize b3. pk b5 k = (if k + d < m_szSize b3 then pk b3 (k + d) else None) \<and>
       st b5 k = (if k + d < m_szSize b3 then st b3 (k + d) else EntryState_Empty)"
    using read_finish [OF c3 r sh3 refl b1(4) D(2)] by blast
  have n3: "m_szSize b3 = m_szSize b" using b2(7) by (simp add: cong3)
  have "hasReadableInorderPkts b \<and> m_iStartPos b = m_iStartPos b \<or>
      \<not> hasReadableInorderPkts b \<and> m_iFirstReadableOutOfOrder b = int (m_iStartPos b)" using go by auto
  then have "readMessage len mc b = Some (rs_data rs', rs_msgctrl rs', b5)"
    using b1(1) fin(1,2) by (intro readMessage_steps [where readPos = "m_iStartPos b"]) (simp_all only: rs_def b2_def b3_def simp_thms)
  then have res: "readMessage len mc b = Some (take len (message_bytes S B 0 m), rs_msgctrl rs', b5)"
    using b1(7) by (simp add: read_ok_def message_bytes_def del: upt_Suc)
  have sh5: "pk b5 k = (if k + (Suc m + d) < m_szSize b then pk b (k + (Suc m + d)) else None) \<and>
       st b5 k = (if k + (Suc m + d) < m_szSize b then st b (k + (Suc m + d)) else EntryState_Empty)" if "k < m_szSize b" for k
    using fin(7) sh3 that unfolding n3 shifted_def by (simp add: ac_simps)
  have "filler (st b k)" if "Suc m \<le> k" "k < Suc m + d" "k < m_szSize b" for k
  proof -
    have "k - Suc m < d" "k - Suc m + Suc m = k" "k - Suc m < m_szSize b" using that by auto
    then show ?thesis using fin(5) sh3 that unfolding shifted_def by (metis (no_types, lifting))
  qed
  then show ?thesis using res fin(3,4,6) sh5 n3 by (intro exI [of _ d] exI [of _ "rs_msgctrl rs'"] exI [of _ b5]) (simp add: ac_simps)
qed

lemma readMessage_out:
  assumes inv: "rb_inv Q S B b" and m: "message_at B S b k m" and k: "m_iFirstReadableOutOfOrder b = int (pos b k)" "k \<noteq> 0"
    and go: "\<not> hasReadableInorderPkts b"
  shows "\<exists>mc' b'. readMessage len mc b = Some (take len (message_bytes S B k m), mc', b') \<and> rb_inv Q S B b' \<and> m_szSize b' = m_szSize b \<and>
    (\<forall>j < m_szSize b. pk b' j = (if k \<le> j \<and> j \<le> k + m then None else pk b j) \<and>
       st b' j = (if k \<le> j \<and> j \<le> k + m then EntryState_Read else st b j))"
proof -
  note D = rb_invD [OF inv] and sz = ring_size [OF rb_invD(6) [OF inv]]
  obtain r where r: "m_iFirstNonreadPos b = pos b r" "hasReadableInorderPkts b \<longleftrightarrow> r \<noteq> 0" by (rule rb_inv_nonread [OF inv])
  then have r0: "m_iFirstNonreadPos b = pos b 0" using go by simp
  have kn: "k < m_szSize b" using m by (simp add: message_at_def)
  define rs where "rs = \<lparr>rs_data = [], rs_remain = len, rs_pkts_read = 0, rs_bytes_extracted = 0, rs_msgctrl = mc\<rparr>"
  have rs: "read_ok len [] rs" by (simp add: read_ok_def rs_def)
  obtain b1 rs' where b1: "read_loop False (pos b k) (pos b k) rs b =
      Some (rs', if int (pos b k) = m_iFirstReadableOutOfOrder b1 then b1\<lparr>m_iFirstReadableOutOfOrder := - 1\<rparr> else b1)"
    "content Q B S (m_iMaxPosOff b) b1" "same b b1" "m_iFirstReadableOutOfOrder b1 = m_iFirstReadableOutOfOrder b"
    "\<forall>j < m_szSize b. pk b1 j = (if k \<le> j \<and> j \<le> k + m then None else pk b j) \<and>
       st b1 j = (if k \<le> j \<and> j \<le> k + m then EntryState_Read else st b j)"
    "read_ok len ([] @ concat (map (\<lambda>j. s_data (sn S B j)) [k..<Suc (k + m)])) rs'"
    using read_out [OF D(1) m rs, of "pos b k"] by blast
  define b2 where "b2 = b1\<lparr>m_iFirstReadableOutOfOrder := - 1\<rparr>"
  have b2: "content Q B S (m_iMaxPosOff b) b2" "pk b2 = pk b1" "st b2 = st b1" "first_ok B S b2" "same b1 b2"
    using readable_reset [OF b1(2)] by (simp_all add: b2_def readable_upd first_ok_def same_def)
  define b3 where "b3 = countBytes (- int (rs_pkts_read rs')) (- int (rs_bytes_extracted rs')) b2"
  note cong3 = content_fields_cong [OF countBytes_fields(1) [of "- int (rs_pkts_read rs')" "- int (rs_bytes_extracted rs')" b2], folded b3_def]
  note same3 = countBytes_fields(2-) [of "- int (rs_pkts_read rs')" "- int (rs_bytes_extracted rs')" b2, folded b3_def]
  have sm: "same b b3" using same_trans [OF b1(3) b2(5)] by (simp add: same_def cong3 same3)
  have c3: "content Q B S (m_iMaxPosOff b) b3" "m_iStartSeqNo b3 = sq B" "m_iMaxPosOff b3 = m_iMaxPosOff b" "first_ok B S b3"
      "m_iMaxPosOff b < m_szSize b3"
    using b2 sm D(2,3) by (simp_all add: cong3 first_ok_def message_at_def) (simp_all add: same_def cong3)
  have M3: "m_iMaxPosOff b = m_iMaxPosOff b3 - 0" "m_iMaxPosOff b3 < m_szSize b3" using c3 by auto
  have r3: "m_iFirstNonreadPos b3 = pos b3 0" "nonread_ok B S b3 0" using r0 same_pos [OF sm] sm by (simp_all add: same_def nonread_ok_def)
  obtain d b4 b5 where fin: "releaseNextFillerEntries b3 = Some b4"
    "(let b = (if \<not> isInRange (m_iStartPos b4) (m_iMaxPosOff b4) (m_szSize b4) (m_iFirstNonreadPos b4)
              then b4\<lparr>m_iFirstNonreadPos := m_iStartPos b4\<rparr> else b4)
     in (if \<not> isTsbPd b then updateFirstReadableOutOfOrder b else Some b)) = Some b5"
    "rb_inv Q S (B + int d) b5" "m_szSize b5 = m_szSize b3" "\<forall>k < d. filler (st b3 k)"
    "\<forall>k < m_szSize b3. pk b5 k = (if k + d < m_szSize b3 then pk b3 (k + d) else None) \<and>
       st b5 k = (if k + d < m_szSize b3 then st b3 (k + d) else EntryState_Empty)"
    using read_finish [OF c3 r3 shifted_0 [OF content_ring [OF c3(1)]] _ M3] by auto
  have n3: "m_szSize b3 = m_szSize b" using sm by (simp add: same_def)
  have "st b3 0 = st b 0" using b1(5) b2(3) sz k(2) by (simp add: cong3)
  then have d: "d = 0" using fin(5) D(5) by (cases d) auto
  have neq: "pos b k \<noteq> m_iStartPos b" using pos_inject [OF sz(3) kn sz(1)] k(2) sz by simp
  then have eq: "(pos b k = m_iStartPos b) = False" by simp
  have "readMessage len mc b = Some (rs_data rs', rs_msgctrl rs', b5)"
    using b1(1,4) fin(1,2) k(1) go by (intro readMessage_steps [where readPos = "pos b k"]) (simp_all only: rs_def b2_def b3_def simp_thms if_True eq)
  then have res: "readMessage len mc b = Some (take len (message_bytes S B k m), rs_msgctrl rs', b5)"
    using b1(6) by (simp add: read_ok_def message_bytes_def del: upt_Suc)
  show ?thesis using res fin(3,4,6) n3 b1(5) b2(2,3) unfolding d
    by (intro exI [of _ "rs_msgctrl rs'"] exI [of _ b5]) (simp add: cong3)
qed

lemma readMessage_ok:
  assumes inv: "rb_inv Q S B b" and fr: "framed S"
  shows "\<not> hasReadableInorderPkts b \<and> m_iFirstReadableOutOfOrder b = - 1 \<and> readMessage len mc b = Some ([], mc, b) \<or>
    (\<exists>k m d mc' b'. readMessage len mc b = Some (take len (message_bytes S B k m), mc', b') \<and> message_at B S b k m \<and>
      (hasReadableInorderPkts b \<and> k = 0 \<or>
       \<not> hasReadableInorderPkts b \<and> \<not> isTsbPd b \<and> m_iFirstReadableOutOfOrder b = int (pos b k) \<and> s_first (sn S B k) \<and> \<not> s_order (sn S B k)) \<and>
      (if k = 0 then m < d else d = 0) \<and> d \<le> 2 * m_szSize b \<and> rb_inv Q S (B + int d) b' \<and> m_szSize b' = m_szSize b \<and>
      (\<forall>j < m_szSize b. pk b' j = (if j + d < m_szSize b \<and> \<not> (k \<le> j + d \<and> j + d \<le> k + m) then pk b (j + d) else None)) \<and>
      (\<forall>j < m_szSize b. filler (st b j) \<or> k \<le> j \<and> j \<le> k + m \<longrightarrow> j < d \<or> filler (st b' (j - d))))"
proof -
  note D = rb_invD [OF inv] and sz = ring_size [OF rb_invD(6) [OF inv]]
  obtain r where r: "m_iFirstNonreadPos b = pos b r" "nonread_ok B S b r" "hasReadableInorderPkts b \<longleftrightarrow> r \<noteq> 0" by (rule rb_inv_nonread [OF inv])
  have front: ?thesis if m: "message_at B S b 0 m"
    and h: "hasReadableInorderPkts b \<or> \<not> hasReadableInorderPkts b \<and> \<not> isTsbPd b \<and> m_iFirstReadableOutOfOrder b = int (pos b 0) \<and>
      s_first (sn S B 0) \<and> \<not> s_order (sn S B 0)" for m
  proof -
    have go: "hasReadableInorderPkts b \<or> m_iFirstReadableOutOfOrder b = int (m_iStartPos b)" using h sz by auto
    obtain d mc' b' where "readMessage len mc b = Some (take len (message_bytes S B 0 m), mc', b')"
      "rb_inv Q S (B + int (Suc m + d)) b'" "m_szSize b' = m_szSize b" "Suc m + d \<le> m_szSize b + Suc m"
      and sh: "\<forall>k < m_szSize b. pk b' k = (if k + (Suc m + d) < m_szSize b then pk b (k + (Suc m + d)) else None) \<and>
        st b' k = (if k + (Suc m + d) < m_szSize b then st b (k + (Suc m + d)) else EntryState_Empty)"
      using readMessage_front [OF inv fr m go, of len mc] by blast
    moreover have "filler (st b' (j - (Suc m + d)))" if "j < m_szSize b" "filler (st b j)" "\<not> j < Suc m + d" for j
    proof -
      have "j - (Suc m + d) < m_szSize b" "j - (Suc m + d) + (Suc m + d) = j" using that by auto
      then show ?thesis using sh that by metis
    qed
    moreover have "m < m_szSize b" using m by (simp add: message_at_def)
    ultimately show ?thesis using m h
      by - (rule disjI2, rule exI [of _ 0], rule exI [of _ m], rule exI [of _ "Suc m + d"], rule exI [of _ mc'], rule exI [of _ b'], auto)
  qed
  show ?thesis
  proof (cases "hasReadableInorderPkts b")
    case True
    then obtain m where "message_at B S b 0 m" using first_message [OF r(2) _ D(2)] r(3) by auto
    then show ?thesis using front True by blast
  next
    case h: False
    show ?thesis
    proof (cases "m_iFirstReadableOutOfOrder b = - 1")
      case True
      then show ?thesis using h by (intro disjI1) (simp add: readMessage_def)
    next
      case False
      then obtain k m where k: "m_iFirstReadableOutOfOrder b = int (pos b k)" "message_at B S b k m"
        using D(4) unfolding first_ok_def by metis
      have kn: "k < m_szSize b" "pk b k \<noteq> None" using k(2) by (auto simp: message_at_def dest: spec [of _ 0])
      then have s: "\<not> isTsbPd b" "s_first (sn S B k)" "\<not> s_order (sn S B k)" using D(1) k(1) False by (auto simp: content_def)
      show ?thesis
      proof (cases "k = 0")
        case True
        then show ?thesis using front k h s by blast
      next
        case k0: False
        obtain mc' b' where "readMessage len mc b = Some (take len (message_bytes S B k m), mc', b')" "rb_inv Q S B b'" "m_szSize b' = m_szSize b"
          "\<forall>j < m_szSize b. pk b' j = (if k \<le> j \<and> j \<le> k + m then None else pk b j) \<and>
             st b' j = (if k \<le> j \<and> j \<le> k + m then EntryState_Read else st b j)"
          using readMessage_out [OF inv k(2,1) k0 h, of len mc] by blast
        then show ?thesis using k h s k0
          by - (rule disjI2, rule exI [of _ k], rule exI [of _ m], rule exI [of _ 0], rule exI [of _ mc'], rule exI [of _ b'], auto)
      qed
    qed
  qed
qed

end
