(* ===== verification/RcvDrop.thy ===== *)
theory RcvDrop
  imports RcvOps
begin

text \<open>
  \<^verbatim>\<open>dropMessage\<close> of the receiver buffer: for a range that is not reversed it returns, keeps the
  invariant, takes every packet of the range out of the buffer and, outside the range, only packets of the
  message it names.
\<close>

unbundle bit_operations_syntax

section \<open>Dropping entries\<close>

lemma solo_boundary: "getMsgBoundary p = boundary_code PB_SOLO \<longleftrightarrow> is_first p \<and> is_last p"
proof -
  have two: "w AND 2 \<noteq> 0 \<longleftrightarrow> bit w 1" "w AND 1 \<noteq> 0 \<longleftrightarrow> bit w 0" for w :: u32
    by (simp_all add: and_exp_eq_0_iff_not_bit [where n = 1, simplified] and_one_eq odd_iff_mod_2_eq_one bit_0)
  have three: "(3 :: u32) = mask 2" by (simp add: mask_eq_exp_minus_1)
  have hi: "\<not> bit (getMsgBoundary p) n" if "2 \<le> n" for n
    using that by (simp add: getMsgBoundary_def bits_unwrap_def bit_simps)
  have "getMsgBoundary p = 3 \<longleftrightarrow> bit (getMsgBoundary p) 0 \<and> bit (getMsgBoundary p) 1"
  proof (rule iffI)
    assume h: "bit (getMsgBoundary p) 0 \<and> bit (getMsgBoundary p) 1"
    show "getMsgBoundary p = 3"
    proof (rule bit_eqI)
      fix n
      show "bit (getMsgBoundary p) n = bit (3 :: u32) n"
        using h hi [of n] by (cases "n = 0"; cases "n = 1") (auto simp: three bit_simps)
    qed
  qed simp
  then show ?thesis by (auto simp: is_first_def is_last_def boundary_code_def two)
qed

text \<open>A packet that \<^verbatim>\<open>KEEP_EXISTING\<close> keeps: a message of one packet that is in the buffer.\<close>

definition kept :: "bool \<Rightarrow> (int \<Rightarrow> sent) \<Rightarrow> int \<Rightarrow> CRcvBuffer \<Rightarrow> nat \<Rightarrow> bool" where
  "kept keep S B b j \<longleftrightarrow> keep \<and> pk b j \<noteq> None \<and> s_first (sn S B j) \<and> s_last (sn S B j)"

text \<open>\<open>wiped P b b'\<close>: the entries at the offsets in \<open>P\<close> are dropped, all others as they were.\<close>

definition wiped :: "nat set \<Rightarrow> CRcvBuffer \<Rightarrow> CRcvBuffer \<Rightarrow> bool" where
  "wiped P b b' \<longleftrightarrow> same b b' \<and> (\<forall>j < m_szSize b. pk b' j = (if j \<in> P then None else pk b j) \<and>
     st b' j = (if j \<in> P then EntryState_Drop else st b j))"

lemma wiped_refl [simp]: "wiped {} b b"
  by (simp add: wiped_def)

lemma wiped_trans: "wiped P b c \<Longrightarrow> wiped R c b' \<Longrightarrow> wiped (P \<union> R) b b'"
  by (auto simp: wiped_def same_def)

lemma wiped_one:
  assumes "content Q B S M b" "k < m_szSize b"
  shows "\<exists>b'. drop_one (pos b k) b = Some b' \<and> content Q B S M b' \<and> wiped {k} b b' \<and>
    offPos b' (m_iStartPos b') (pos b k) = k"
proof -
  obtain b' where b': "drop_one (pos b k) b = Some b'" "content Q B S M b'" "same b b'"
    "\<forall>j < m_szSize b. pk b' j = (if j = k then None else pk b j) \<and> st b' j = (if j = k then EntryState_Drop else st b j)"
    using drop_one_content [OF assms] by blast
  have "offPos b' (m_iStartPos b') (pos b k) = k"
    using offPos_pos [of b' k] same_pos [OF b'(3)] ring_size [OF content_ring [OF b'(2)]] assms(2) b'(3) by (simp add: same_def)
  then show ?thesis using b' by (auto simp: wiped_def)
qed

section \<open>The loops\<close>

lemma drop_range_spec:
  assumes "content Q B S M b" "e < m_szSize b" "k \<le> e"
  shows "\<exists>dm mn' cnt' b'. drop_range keep (pos b e) (pos b k) (dm0, mn, cnt) b = Some ((dm, mn', cnt'), b') \<and>
    content Q B S M b' \<and> wiped {j. k \<le> j \<and> j < e \<and> \<not> kept keep S B b j} b b' \<and>
    (dm \<longrightarrow> dm0) \<and> (mn \<noteq> - 1 \<longrightarrow> mn' = mn) \<and>
    (mn = - 1 \<longrightarrow> mn' = - 1 \<and> wiped {} b b' \<or> (\<exists>i. mn' = int i \<and> k \<le> i \<and> i < e \<and> (\<forall>j < i. pk b' j = pk b j \<and> st b' j = st b j)))"
  using assms
proof (induction "e - k" arbitrary: k b dm0 mn cnt)
  case 0
  then have "drop_range keep (pos b e) (pos b k) (dm0, mn, cnt) b = Some ((dm0, mn, cnt), b)" by (subst drop_range.simps) simp
  moreover have none: "{j. k \<le> j \<and> j < e \<and> \<not> kept keep S B b j} = {}" using 0 by auto
  ultimately show ?case using 0 unfolding none by simp
next
  case (Suc d)
  then have k: "k < e" "k < m_szSize b" "d = e - Suc k" "Suc k \<le> e" by auto
  note c = Suc.prems(1) and ok = content_ring [OF Suc.prems(1)]
  note sz = ring_size [OF ok] and en = entry_pos [OF c]
  have ne: "pos b k \<noteq> pos b e" using pos_inject [OF sz(3) k(2) Suc.prems(2)] k(1) by simp
  define K where "K = kept keep S B b"
  have split: "{j. k \<le> j \<and> j < e \<and> \<not> K j} = (if K k then {} else {k}) \<union> {j. Suc k \<le> j \<and> j < e \<and> \<not> K j}"
    using k by (auto simp: not_less_eq_eq le_Suc_eq dest: le_neq_implies_less)
  have step: "\<exists>dm mn1 cnt1 b1. drop_range keep (pos b e) (pos b k) (dm0, mn, cnt) b =
      drop_range keep (pos b1 e) (pos b1 (Suc k)) (dm, mn1, cnt1) b1 \<and> content Q B S M b1 \<and>
      wiped (if K k then {} else {k}) b b1 \<and> (dm \<longrightarrow> dm0) \<and> (mn \<noteq> - 1 \<longrightarrow> mn1 = mn) \<and> (mn = - 1 \<longrightarrow> mn1 = - 1 \<and> b1 = b \<or> mn1 = int k)"
  proof (cases "st b k = EntryState_Drop")
    case True
    then have none: "pk b k = None" using st_avail [OF ok, of k] by auto
    then have "wiped (if K k then {} else {k}) b b" using True by (simp add: wiped_def K_def kept_def)
    moreover have "drop_range keep (pos b e) (pos b k) (dm0, mn, cnt) b = drop_range keep (pos b e) (pos b (Suc k)) (dm0, mn, cnt) b"
      using ne en [of k] True by (subst drop_range.simps) simp
    ultimately show ?thesis using c by blast
  next
    case nd: False
    show ?thesis
    proof (cases "K k")
      case True
      then obtain p where p: "pk b k = Some p" "keep" "is_first p" "is_last p" using content_at [OF c k(2)] by (auto simp: K_def kept_def)
      then have "drop_range keep (pos b e) (pos b k) (dm0, mn, cnt) b = drop_range keep (pos b e) (pos b (Suc k)) (False, mn, cnt) b"
        using ne en [of k] nd by (subst drop_range.simps) (auto simp: solo_boundary)
      then show ?thesis using c True by (intro exI conjI) (assumption | simp)+
    next
      case False
      obtain b1 where b1: "drop_one (pos b k) b = Some b1" "content Q B S M b1" "wiped {k} b b1"
        "offPos b1 (m_iStartPos b1) (pos b k) = k"
        using wiped_one [OF c k(2)] by blast
      have ps: "pos b1 = pos b" using b1(3) by (simp add: wiped_def same_pos fun_eq_iff)
      have "\<exists>dm. (dm \<longrightarrow> dm0) \<and> drop_range keep (pos b e) (pos b k) (dm0, mn, cnt) b =
          drop_range keep (pos b e) (pos b (Suc k)) (dm, (if mn = - 1 then int k else mn), Suc cnt) b1"
      proof (cases "pk b k")
        case None
        then show ?thesis using ne en [of k] nd b1(1,4) incPos_pos(1) [of b1 k]
          by (intro exI [of _ dm0]) (subst drop_range.simps, simp add: ps)
      next
        case (Some p)
        then have "\<not> (keep \<and> is_first p \<and> is_last p)" using False content_at [OF c k(2) Some] by (auto simp: K_def kept_def)
        then have "drop_range keep (pos b e) (pos b k) (dm0, mn, cnt) b =
            drop_range keep (pos b e) (pos b (Suc k)) (dm0 \<and> getMsgBoundary p \<noteq> boundary_code PB_FIRST, (if mn = - 1 then int k else mn), Suc cnt) b1"
          using ne en [of k] nd b1(1,4) incPos_pos(1) [of b1 k] Some
          by (subst drop_range.simps) (auto simp: ps solo_boundary)
        then show ?thesis by (intro exI conjI) (rule impI, erule conjunct1, assumption)
      qed
      then obtain dm where "dm \<longrightarrow> dm0" "drop_range keep (pos b e) (pos b k) (dm0, mn, cnt) b =
          drop_range keep (pos b1 e) (pos b1 (Suc k)) (dm, (if mn = - 1 then int k else mn), Suc cnt) b1" unfolding ps by blast
      then show ?thesis using b1(2,3) False
        by (intro exI [of _ dm] exI [of _ "if mn = - 1 then int k else mn"] exI [of _ "Suc cnt"] exI [of _ b1]) simp
    qed
  qed
  then obtain dm mn1 cnt1 b1 where b1: "drop_range keep (pos b e) (pos b k) (dm0, mn, cnt) b =
      drop_range keep (pos b1 e) (pos b1 (Suc k)) (dm, mn1, cnt1) b1" "content Q B S M b1"
      "wiped (if K k then {} else {k}) b b1" "mn \<noteq> - 1 \<longrightarrow> mn1 = mn" "mn = - 1 \<longrightarrow> mn1 = - 1 \<and> b1 = b \<or> mn1 = int k" "dm \<longrightarrow> dm0" by blast
  have n1: "m_szSize b1 = m_szSize b" using b1(3) by (simp add: wiped_def same_def)
  obtain dm' mn' cnt' b' where b': "drop_range keep (pos b1 e) (pos b1 (Suc k)) (dm, mn1, cnt1) b1 = Some ((dm', mn', cnt'), b')"
    "content Q B S M b'" "wiped {j. Suc k \<le> j \<and> j < e \<and> \<not> kept keep S B b1 j} b1 b'" "mn1 \<noteq> - 1 \<longrightarrow> mn' = mn1"
    "mn1 = - 1 \<longrightarrow> mn' = - 1 \<and> wiped {} b1 b' \<or> (\<exists>i. mn' = int i \<and> Suc k \<le> i \<and> i < e \<and> (\<forall>j < i. pk b' j = pk b1 j \<and> st b' j = st b1 j))" "dm' \<longrightarrow> dm"
    using Suc.hyps(1) [OF k(3) b1(2) _ k(4), unfolded n1, OF Suc.prems(2), of dm mn1 cnt1] by blast
  have "kept keep S B b1 j = K j" if "Suc k \<le> j" "j < e" for j
    using b1(3) that Suc.prems(2) by (auto simp: wiped_def K_def kept_def)
  then have "{j. Suc k \<le> j \<and> j < e \<and> \<not> kept keep S B b1 j} = {j. Suc k \<le> j \<and> j < e \<and> \<not> K j}" by auto
  then have w: "wiped {j. k \<le> j \<and> j < e \<and> \<not> K j} b b'" using wiped_trans [OF b1(3)] b'(3) unfolding split by simp
  have "mn' = - 1 \<and> wiped {} b b' \<or> (\<exists>i. mn' = int i \<and> k \<le> i \<and> i < e \<and> (\<forall>j < i. pk b' j = pk b j \<and> st b' j = st b j))" if "mn = - 1"
  proof (cases "mn1 = - 1")
    case True
    then have "b1 = b" using b1(5) that by auto
    then show ?thesis using b'(5) True Suc_leD by auto
  next
    case False
    then have "mn' = int k" using b'(4) b1(5) that by simp
    then show ?thesis using w k by (intro disjI2 exI [of _ k]) (auto simp: wiped_def)
  qed
  then show ?case using b1(1,4,6) b'(1,2,4,6) w unfolding K_def
    by (intro exI [of _ dm'] exI [of _ mn'] exI [of _ cnt'] exI [of _ b']) auto
qed

lemma drop_backwards_step:
  fixes keep :: bool and msgno :: int
  assumes c: "content Q B S M b" and k: "k < m_szSize b" and nd: "k \<noteq> m_szSize b - 1"
  defines "go \<equiv> drop_backwards keep msgno (pos b (m_szSize b - 1))"
  shows "go (pos b k) w b = Some (w, b) \<or> go (pos b k) w b = go (decPos b (pos b k)) w b \<or>
    (\<exists>b1. content Q B S M b1 \<and> wiped {k} b b1 \<and> pk b k \<noteq> None \<and> s_msgno (sn S B k) = msgno \<and> \<not> kept keep S B b k \<and>
      go (pos b k) w b \<in> {Some ((int k, Suc (snd w)), b1), go (decPos b (pos b k)) (int k, Suc (snd w)) b1})"
proof -
  note sz = ring_size [OF content_ring [OF c]] and en = entry_pos [OF c]
  have ne: "pos b k \<noteq> pos b (m_szSize b - 1)" using pos_inject [OF sz(3) k, of "m_szSize b - 1"] nd sz by simp
  obtain mn cnt where mn: "w = (mn, cnt)" by (cases w)
  show ?thesis
  proof (cases "pk b k")
    case None
    then have "go (pos b k) w b = go (decPos b (pos b k)) w b"
      using ne en [of k] by (simp add: go_def mn) (subst drop_backwards.simps, simp)
    then show ?thesis by blast
  next
    case (Some p)
    note p = content_at [OF c k Some]
    obtain b1 where b1: "drop_one (pos b k) b = Some b1" "content Q B S M b1" "wiped {k} b b1"
      "offPos b1 (m_iStartPos b1) (pos b k) = k"
      using wiped_one [OF c k] by blast
    have dec: "decPos b1 = decPos b" using b1(3) by (simp add: wiped_def same_def decPos_def fun_eq_iff)
    have unf: "go (pos b k) w b = (if rb_msgseq b p \<noteq> msgno \<or> keep \<and> is_first p \<and> is_last p then Some (w, b)
        else if getMsgBoundary p = boundary_code PB_FIRST then Some ((int k, Suc cnt), b1)
        else go (decPos b (pos b k)) (int k, Suc cnt) b1)"
      using ne en [of k] Some b1(1,4) unfolding go_def mn by (subst drop_backwards.simps) (auto simp: solo_boundary dec Let_def)
    then show ?thesis using b1(2,3) Some p mn by (auto simp: kept_def)
  qed
qed

lemma drop_backwards_spec:
  assumes "content Q B S M b" "k < m_szSize b"
  shows "\<exists>mn' cnt' P b'. drop_backwards keep msgno (pos b (m_szSize b - 1)) (pos b k) (mn, cnt) b = Some ((mn', cnt'), b') \<and>
    content Q B S M b' \<and> wiped P b b' \<and>
    (\<forall>j \<in> P. j \<le> k \<and> Suc j < m_szSize b \<and> pk b j \<noteq> None \<and> s_msgno (sn S B j) = msgno \<and> \<not> kept keep S B b j) \<and>
    (mn' = mn \<and> P = {} \<or> (\<exists>i. mn' = int i \<and> i \<le> k \<and> (\<forall>j \<in> P. i \<le> j)))"
  using assms
proof (induction k arbitrary: b mn cnt rule: less_induct)
  case (less k)
  note c = less.prems(1) and k = less.prems(2)
  note sz = ring_size [OF content_ring [OF c]]
  define go where "go = drop_backwards keep msgno (pos b (m_szSize b - 1))"
  define goal where "goal = (\<lambda>x. \<exists>mn' (cnt' :: nat) P b'. x = Some ((mn', cnt'), b') \<and> content Q B S M b' \<and> wiped P b b' \<and>
    (\<forall>j \<in> P. j \<le> k \<and> Suc j < m_szSize b \<and> pk b j \<noteq> None \<and> s_msgno (sn S B j) = msgno \<and> \<not> kept keep S B b j) \<and>
    (mn' = mn \<and> P = {} \<or> (\<exists>i. mn' = int i \<and> i \<le> k \<and> (\<forall>j \<in> P. i \<le> j))))"
  have stop: "go (pos b (m_szSize b - 1)) s x = Some (s, x)" for s x
    unfolding go_def by (cases s) (subst drop_backwards.simps, simp)
  have same: "goal (Some ((mn, cnt), b))" unfolding goal_def using c
    by (intro exI [of _ mn] exI [of _ cnt] exI [of _ "{}"] exI [of _ b]) simp
  have "goal (go (pos b k) (mn, cnt) b)"
  proof (cases "k = m_szSize b - 1")
    case True
    then show ?thesis using stop same by simp
  next
    case False
    have kn: "Suc k < m_szSize b" using False k by simp
    have next_pos: "decPos b (pos b k) = (if k = 0 then pos b (m_szSize b - 1) else pos b (k - 1))"
      using decPos_start [OF sz(3)] decPos_pos [OF sz(3), of "k - 1"] kn sz by (cases k) auto
    have one: "goal (Some ((int k, cnt1), b1))" if b1: "content Q B S M b1" "wiped {k} b b1" "pk b k \<noteq> None"
        "s_msgno (sn S B k) = msgno" "\<not> kept keep S B b k" for b1 cnt1
      unfolding goal_def using b1 kn
      by (intro exI [of _ "int k"] exI [of _ cnt1] exI [of _ "{k}"] exI [of _ b1]) simp
    consider "go (pos b k) (mn, cnt) b = Some ((mn, cnt), b)" | "go (pos b k) (mn, cnt) b = go (decPos b (pos b k)) (mn, cnt) b"
      | b1 where "content Q B S M b1" "wiped {k} b b1" "pk b k \<noteq> None" "s_msgno (sn S B k) = msgno" "\<not> kept keep S B b k"
        "go (pos b k) (mn, cnt) b \<in> {Some ((int k, Suc cnt), b1), go (decPos b (pos b k)) (int k, Suc cnt) b1}"
      using drop_backwards_step [OF c k False, of keep msgno "(mn, cnt)", folded go_def] unfolding snd_conv by blast
    then show ?thesis
    proof cases
      case 1
      then show ?thesis using same by simp
    next
      case 2
      show ?thesis
      proof (cases "k = 0")
        case True
        then show ?thesis using 2 next_pos stop same by simp
      next
        case k0: False
        have k1: "k - 1 < k" "k - 1 < m_szSize b" using k0 k by auto
        obtain mn' cnt' P b' where b': "go (pos b (k - 1)) (mn, cnt) b = Some ((mn', cnt'), b')"
          "content Q B S M b'" "wiped P b b'"
          "\<forall>j \<in> P. j \<le> k - 1 \<and> Suc j < m_szSize b \<and> pk b j \<noteq> None \<and> s_msgno (sn S B j) = msgno \<and> \<not> kept keep S B b j"
          "mn' = mn \<and> P = {} \<or> (\<exists>i. mn' = int i \<and> i \<le> k - 1 \<and> (\<forall>j \<in> P. i \<le> j))"
          using less.IH [OF k1(1) c k1(2), of mn cnt] unfolding go_def by blast
        then show ?thesis using 2 next_pos k0 unfolding goal_def
          by (intro exI [of _ mn'] exI [of _ cnt'] exI [of _ P] exI [of _ b']) (auto dest: order_trans)
      qed
    next
      case b1: 3
      have n1: "m_szSize b1 = m_szSize b" "pos b1 = pos b" using b1(2) by (simp_all add: wiped_def fun_eq_iff same_pos) (simp add: same_def)
      show ?thesis
      proof (cases "go (pos b k) (mn, cnt) b = Some ((int k, Suc cnt), b1) \<or> k = 0")
        case True
        then show ?thesis using b1(6) one [OF b1(1-5)] next_pos stop by auto
      next
        case k0: False
        have k1: "k - 1 < k" "k - 1 < m_szSize b" using k0 k by auto
        obtain mn' cnt' P b' where b': "go (pos b (k - 1)) (int k, Suc cnt) b1 = Some ((mn', cnt'), b')"
          "content Q B S M b'" "wiped P b1 b'"
          "\<forall>j \<in> P. j \<le> k - 1 \<and> Suc j < m_szSize b \<and> pk b1 j \<noteq> None \<and> s_msgno (sn S B j) = msgno \<and> \<not> kept keep S B b1 j"
          "mn' = int k \<and> P = {} \<or> (\<exists>i. mn' = int i \<and> i \<le> k - 1 \<and> (\<forall>j \<in> P. i \<le> j))"
          using less.IH [OF k1(1) b1(1), of "int k" "Suc cnt"] k1(2) unfolding n1 go_def by blast
        have P: "j < k \<and> Suc j < m_szSize b \<and> pk b j \<noteq> None \<and> s_msgno (sn S B j) = msgno \<and> \<not> kept keep S B b j" if "j \<in> P" for j
        proof -
          have j: "j \<le> k - 1" "Suc j < m_szSize b" "pk b1 j \<noteq> None" "s_msgno (sn S B j) = msgno" "\<not> kept keep S B b1 j"
            using b'(4) that by auto
          have "j < k" "j < m_szSize b" using j k0 by auto
          moreover have "pk b1 j = pk b j" using b1(2) calculation by (simp add: wiped_def)
          ultimately show ?thesis using j by (auto simp: kept_def)
        qed
        have "goal (Some ((mn', cnt'), b'))" unfolding goal_def
        proof (intro exI conjI)
          show "wiped ({k} \<union> P) b b'" by (rule wiped_trans [OF b1(2) b'(3)])
          show "\<forall>j \<in> {k} \<union> P. j \<le> k \<and> Suc j < m_szSize b \<and> pk b j \<noteq> None \<and> s_msgno (sn S B j) = msgno \<and> \<not> kept keep S B b j"
            using P b1(3-5) kn by (auto dest: less_imp_le)
          show "mn' = mn \<and> {k} \<union> P = {} \<or> (\<exists>i. mn' = int i \<and> i \<le> k \<and> (\<forall>j \<in> {k} \<union> P. i \<le> j))"
            using b'(5) P by (auto intro: order_trans)
        qed (use b'(2) in simp_all)
        then show ?thesis using b1(6) b'(1) k0 next_pos by auto
      qed
    qed
  qed
  then show ?case unfolding goal_def go_def .
qed

section \<open>dropMessage\<close>

lemma drop_message_finish_ok:
  assumes inv: "rb_inv Q S B b" and c: "content Q B S (m_iMaxPosOff b) b1" and sm: "same b b1"
    and mn: "mn = - 1 \<and> (\<forall>j < m_szSize b. pk b1 j = pk b j \<and> st b1 j = st b j) \<or>
      (\<exists>i. mn = int i \<and> (\<forall>j < m_szSize b. j < i \<longrightarrow> pk b1 j = pk b j \<and> st b1 j = st b j))"
  shows "\<exists>d b'. drop_message_finish mn b1 = Some b' \<and> rb_inv Q S (B + int d) b' \<and> m_szSize b' = m_szSize b \<and>
    d \<le> m_szSize b \<and> (\<forall>k < d. filler (st b1 k)) \<and>
    (\<forall>k < m_szSize b. pk b' k = (if k + d < m_szSize b then pk b1 (k + d) else None) \<and>
       st b' k = (if k + d < m_szSize b then st b1 (k + d) else EntryState_Empty))"
proof -
  note D = rb_invD [OF inv] and sz = ring_size [OF rb_invD(6) [OF inv]]
  have e1: "m_szSize b1 = m_szSize b" "m_iStartSeqNo b1 = sq B" "m_iMaxPosOff b1 = m_iMaxPosOff b" "pos b1 = pos b"
    "getRcvDataSize b1 = getRcvDataSize b" "m_iFirstNonreadPos b1 = m_iFirstNonreadPos b"
    using sm D(3) by (simp_all add: same_def getRcvDataSize_def fun_eq_iff pos_def)
  obtain r where r: "m_iFirstNonreadPos b = pos b r" "nonread_ok B S b r" "r < m_szSize b" "getRcvDataSize b = r"
    by (rule rb_inv_nonread [OF inv])
  define need where "need = (mn \<noteq> - 1 \<and> mn \<le> int (getRcvDataSize b1))"
  obtain d b2 where b2: "releaseNextFillerEntries b1 = Some b2" "content Q (B + int d) S (m_iMaxPosOff b - d) b2" "shifted d b1 b2"
    "m_iStartSeqNo b2 = sq (B + int d)" "m_iMaxPosOff b2 = m_iMaxPosOff b - d" "d \<le> m_szSize b1"
    "\<forall>k < d. filler (st b1 k)" "\<not> filler (st b2 0)"
    using release_fillers_content [OF c e1(2,3)] by blast
  note sh2 = b2(3) [unfolded shifted_def e1]
  have c2: "content Q (B + int d) S (m_iMaxPosOff b2) b2" "m_iMaxPosOff b2 < m_szSize b2" using b2(2,5) D(2) sh2 by simp_all
  have z2: "m_iStartPos b2 < m_szSize b2" using ring_size [OF content_ring [OF c2(1)]] by simp
  define x where "x = (if need then updateNonreadPos (b2\<lparr>m_iFirstNonreadPos := m_iStartPos b2\<rparr>) else Some b2)"
  have "\<exists>r'. x = Some (b2\<lparr>m_iFirstNonreadPos := pos b2 r'\<rparr>) \<and> nonread_ok (B + int d) S b2 r'"
  proof (cases need)
    case True
    let ?b = "b2\<lparr>m_iFirstNonreadPos := m_iStartPos b2\<rparr>"
    have "\<exists>r'. updateNonreadPos ?b = Some (?b\<lparr>m_iFirstNonreadPos := pos ?b r'\<rparr>) \<and> 0 \<le> r' \<and> nonread_ok (B + int d) S ?b r' \<and>
        \<not> message_starts (B + int d) S ?b r'"
      using c2 z2 by (intro updateNonreadPos_spec) (simp_all add: nonread_upd nonread_ok_def)
    then show ?thesis using True by (auto simp: x_def nonread_upd)
  next
    case False
    have un: "pk b1 j = pk b j \<and> st b1 j = st b j" if "j \<le> r" for j
      using that r(3,4) mn False e1(5) by (auto simp: need_def)
    then have d: "d = 0" using b2(7) D(5) by (cases d) auto
    have s: "pos b2 = pos b" using shifted_pos [OF b2(3)] d e1(4) by (simp add: fun_eq_iff)
    have "pk b2 k = pk b k" if "k < r" for k using un that sh2 d r(3) by simp
    then have "nonread_ok B S b2 r" using r(2) b2(5) d by (simp add: nonread_ok_def)
    then show ?thesis using False r(1) sh2 s d by (intro exI [of _ r]) (simp add: x_def)
  qed
  then obtain r' where r': "x = Some (b2\<lparr>m_iFirstNonreadPos := pos b2 r'\<rparr>)" "nonread_ok (B + int d) S b2 r'" by blast
  define b3 where "b3 = b2\<lparr>m_iFirstNonreadPos := pos b2 r'\<rparr>"
  have b3: "content Q (B + int d) S (m_iMaxPosOff b3) b3" "m_iMaxPosOff b3 < m_szSize b3" "m_iStartSeqNo b3 = sq (B + int d)"
    "m_iFirstNonreadPos b3 = pos b3 r'" "nonread_ok (B + int d) S b3 r'" "\<not> filler (st b3 0)"
    "pk b3 = pk b2" "st b3 = st b2" "m_szSize b3 = m_szSize b" "m_bMessageAPI b3"
    using c2 b2(4,8) r'(2) sh2 content_api [OF c2(1)] by (simp_all add: b3_def nonread_upd)
  obtain b4 where b4: "(if \<not> isTsbPd b3 \<and> m_bMessageAPI b3 then do {
       ok \<leftarrow> checkFirstReadableOutOfOrder b3;
       updateFirstReadableOutOfOrder (if ok then b3 else b3\<lparr>m_iFirstReadableOutOfOrder := - 1\<rparr>) }
     else Some b3) = Some b4" "rb_inv Q S (B + int d) b4" "pk b4 = pk b2" "st b4 = st b2" "m_szSize b4 = m_szSize b"
  proof (cases "isTsbPd b3")
    case True
    then have "m_iFirstReadableOutOfOrder b3 = - 1" using b3(1) by (simp add: content_def)
    then show ?thesis using True b3 by (intro that [of b3]) (auto simp: rb_inv_def first_ok_def)
  next
    case False
    obtain ok where ok: "checkFirstReadableOutOfOrder b3 = Some ok" "ok \<longrightarrow> first_ok (B + int d) S b3"
      using checkFirst_spec [OF b3(1,2)] by blast
    define b' where "b' = (if ok then b3 else b3\<lparr>m_iFirstReadableOutOfOrder := - 1\<rparr>)"
    have b': "content Q (B + int d) S (m_iMaxPosOff b') b'" "m_iMaxPosOff b' < m_szSize b'" "m_iStartSeqNo b' = sq (B + int d)"
      "m_iFirstNonreadPos b' = pos b' r'" "nonread_ok (B + int d) S b' r'" "first_ok (B + int d) S b'" "\<not> filler (st b' 0)"
      "\<not> isTsbPd b'" "pk b' = pk b2" "st b' = st b2" "m_szSize b' = m_szSize b"
      using b3 ok(2) False readable_reset [OF b3(1)] by (auto simp: b'_def readable_upd first_ok_def)
    obtain b4 where "updateFirstReadableOutOfOrder b' = Some b4" "rb_inv Q S (B + int d) b4" "pk b4 = pk b'" "st b4 = st b'" "m_szSize b4 = m_szSize b'"
      using finish_first [OF b'(1-8)] by blast
    then show ?thesis using False b3(10) ok(1) b'(9-11) by (intro that [of b4]) (simp_all add: b'_def [symmetric])
  qed
  have "drop_message_finish mn b1 = Some b4" unfolding drop_message_finish_def Let_def need_def [symmetric] b2(1)
    using r'(1) [unfolded x_def, folded b3_def] b4(1) by simp
  then show ?thesis using b4(2-5) b2(6,7) sh2 e1 by (intro exI [of _ d] exI [of _ b4]) simp
qed

text \<open>What a drop request for the packets \<open>L\<close> to \<open>H\<close> takes away: every packet of the range inside the
  buffer, but with \<^verbatim>\<open>KEEP_EXISTING\<close> not a message of one packet that has arrived.\<close>

definition drop_hit :: "DropActionIfExists \<Rightarrow> int \<Rightarrow> int \<Rightarrow> (int \<Rightarrow> sent) \<Rightarrow> int \<Rightarrow> CRcvBuffer \<Rightarrow> nat \<Rightarrow> bool" where
  "drop_hit act L H S B b j \<longleftrightarrow> L \<le> B + int j \<and> B + int j \<le> H \<and> Suc j < m_szSize b \<and> \<not> kept (act = KEEP_EXISTING) S B b j"

lemma dropMessage_ok:
  assumes inv: "rb_inv Q S B b" and LH: "L \<le> H" "\<bar>L - B\<bar> < m_iSeqNoTH" "\<bar>H - B\<bar> < m_iSeqNoTH"
  shows "\<exists>P cnt d b'. dropMessage (sq L) (sq H) msgno act b = Some (cnt, b') \<and> rb_inv Q S (B + int d) b' \<and> m_szSize b' = m_szSize b \<and>
    (\<forall>j. drop_hit act L H S B b j \<longrightarrow> j \<in> P) \<and>
    (\<forall>j \<in> P. drop_hit act L H S B b j \<or>
       0 < msgno \<and> B + int j < L \<and> pk b j \<noteq> None \<and> s_msgno (sn S B j) = msgno \<and> \<not> kept (act = KEEP_EXISTING) S B b j) \<and>
    (\<forall>k < m_szSize b. pk b' k = (if k + d < m_szSize b \<and> k + d \<notin> P then pk b (k + d) else None)) \<and>
    d \<le> m_szSize b \<and> (\<forall>k < d. k \<in> P \<or> filler (st b k)) \<and>
    (\<forall>j < m_szSize b. filler (st b j) \<or> j \<in> P \<longrightarrow> j < d \<or> filler (st b' (j - d)))"
proof -
  note D = rb_invD [OF inv] and sz = ring_size [OF rb_invD(6) [OF inv]]
  let ?n = "m_szSize b" and ?keep = "act = KEEP_EXISTING"
  have off: "seqoff (m_iStartSeqNo b) (sq L) = L - B" "seqoff (m_iStartSeqNo b) (sq H) = H - B"
    using seqoff_window LH D(3) by simp_all
  show ?thesis
  proof (cases "H < B \<or> L - B \<ge> int ?n")
    case True
    then have "dropMessage (sq L) (sq H) msgno act b = Some (0, b)" by (auto simp: dropMessage_def off)
    moreover have "\<not> drop_hit act L H S B b j" for j using True by (auto simp: drop_hit_def)
    ultimately show ?thesis using inv sz
      by (intro exI [of _ "{}"] exI [of _ "0 :: nat"] exI [of _ b]) simp
  next
    case False
    define a where "a = nat (max 0 (L - B))"
    define e where "e = nat (min (int ?n - 1) (H - B + 1))"
    have ae: "a \<le> e" "e < ?n" "a < ?n" using False LH(1) sz by (auto simp: a_def e_def)
    have hit: "drop_hit act L H S B b j \<longleftrightarrow> a \<le> j \<and> j < e \<and> \<not> kept ?keep S B b j" for j
      using False sz by (auto simp: drop_hit_def a_def e_def)
    obtain dm mn cnt b1 where b1: "drop_range ?keep (pos b e) (pos b a) (msgno > SRT_MSGNO_CONTROL, - 1, 0) b = Some ((dm, mn, cnt), b1)"
      "content Q B S (m_iMaxPosOff b) b1" "wiped {j. a \<le> j \<and> j < e \<and> \<not> kept ?keep S B b j} b b1"
      "mn = - 1 \<and> wiped {} b b1 \<or> (\<exists>i. mn = int i \<and> a \<le> i \<and> i < e \<and> (\<forall>j < i. pk b1 j = pk b j \<and> st b1 j = st b j))"
      "dm \<longrightarrow> msgno > SRT_MSGNO_CONTROL"
      using drop_range_spec [OF D(1) ae(2,1), of ?keep "msgno > SRT_MSGNO_CONTROL" "- 1" 0] by blast
    define P1 where "P1 = {j. a \<le> j \<and> j < e \<and> \<not> kept ?keep S B b j}"
    note w1 = b1(3) [folded P1_def]
    have e1: "m_szSize b1 = ?n" "pos b1 = pos b" "m_iStartPos b1 = m_iStartPos b" "decPos b1 = decPos b"
      using w1 by (simp_all add: wiped_def same_def fun_eq_iff pos_def decPos_def)
    define x where "x = (if dm then drop_backwards ?keep msgno (pos b (?n - 1)) (pos b a) (mn, cnt) b1 else Some ((mn, cnt), b1))"
    have "\<exists>mn' cnt' P2 b2. x = Some ((mn', cnt'), b2) \<and> content Q B S (m_iMaxPosOff b) b2 \<and> wiped P2 b1 b2 \<and>
      (\<forall>j \<in> P2. dm \<and> j \<le> a \<and> Suc j < ?n \<and> pk b1 j \<noteq> None \<and> s_msgno (sn S B j) = msgno \<and> \<not> kept ?keep S B b1 j) \<and>
      (mn' = mn \<and> P2 = {} \<or> (\<exists>i. mn' = int i \<and> i \<le> a \<and> (\<forall>j \<in> P2. i \<le> j)))"
    proof (cases dm)
      case True
      then show ?thesis using drop_backwards_spec [OF b1(2), of a ?keep msgno mn cnt] ae(3) unfolding x_def e1 by simp
    next
      case False
      then show ?thesis using b1(2)
        by (intro exI [of _ mn] exI [of _ cnt] exI [of _ "{}"] exI [of _ b1]) (simp add: x_def)
    qed
    then obtain mn' cnt' P2 b2 where b2: "x = Some ((mn', cnt'), b2)" "content Q B S (m_iMaxPosOff b) b2" "wiped P2 b1 b2"
      "\<forall>j \<in> P2. dm \<and> j \<le> a \<and> Suc j < ?n \<and> pk b1 j \<noteq> None \<and> s_msgno (sn S B j) = msgno \<and> \<not> kept ?keep S B b1 j"
      "mn' = mn \<and> P2 = {} \<or> (\<exists>i. mn' = int i \<and> i \<le> a \<and> (\<forall>j \<in> P2. i \<le> j))"
      by blast
    note w2 = wiped_trans [OF w1 b2(3)]
    have mn': "mn' = - 1 \<and> (\<forall>j < ?n. pk b2 j = pk b j \<and> st b2 j = st b j) \<or>
      (\<exists>i. mn' = int i \<and> (\<forall>j < ?n. j < i \<longrightarrow> pk b2 j = pk b j \<and> st b2 j = st b j))"
      using b2(5)
    proof
      assume h: "mn' = mn \<and> P2 = {}"
      then have "pk b2 j = pk b1 j \<and> st b2 j = st b1 j" if "j < ?n" for j using b2(3) that by (simp add: wiped_def e1)
      then show ?thesis using b1(4) h by (auto simp: wiped_def)
    next
      assume "\<exists>i. mn' = int i \<and> i \<le> a \<and> (\<forall>j \<in> P2. i \<le> j)"
      then obtain i where i: "mn' = int i" "i \<le> a" "\<forall>j \<in> P2. i \<le> j" by blast
      have "pk b2 j = pk b j \<and> st b2 j = st b j" if "j < ?n" "j < i" for j
      proof -
        have "j \<notin> P1 \<union> P2" using i that by (auto simp: P1_def)
        then show ?thesis using w2 that by (simp add: wiped_def)
      qed
      then show ?thesis using i(1) by blast
    qed
    have sm2: "same b b2" using w2 by (simp add: wiped_def)
    obtain d b' where b': "drop_message_finish mn' b2 = Some b'" "rb_inv Q S (B + int d) b'" "m_szSize b' = ?n" "d \<le> ?n"
      "\<forall>k < d. filler (st b2 k)" "\<forall>k < ?n. pk b' k = (if k + d < ?n then pk b2 (k + d) else None) \<and>
         st b' k = (if k + d < ?n then st b2 (k + d) else EntryState_Empty)"
      using drop_message_finish_ok [OF inv b2(2) sm2 mn'] by blast
    have dm: "0 < msgno" if "dm" using b1(5) that by (simp add: SRT_MSGNO_CONTROL_def)
    have res: "dropMessage (sq L) (sq H) msgno act b = Some (cnt', b')"
      using False b1(1) b2(1) b'(1) by (auto simp: dropMessage_def Let_def off incPos_start a_def [symmetric] e_def [symmetric]
          decPos_start [OF sz(3)] e1 x_def)
    have P2: "drop_hit act L H S B b j \<or> 0 < msgno \<and> B + int j < L \<and> pk b j \<noteq> None \<and> s_msgno (sn S B j) = msgno \<and> \<not> kept ?keep S B b j"
      if "j \<in> P2" for j
    proof -
      have j: "j < ?n" "j \<le> a" "Suc j < ?n" "pk b1 j \<noteq> None" "s_msgno (sn S B j) = msgno" "\<not> kept ?keep S B b1 j" "dm"
        using b2(4) that by auto
      then have k: "pk b j \<noteq> None" "\<not> kept ?keep S B b j" using w1 by (auto simp: wiped_def kept_def split: if_splits)
      show ?thesis
      proof (cases "B + int j < L")
        case True
        then show ?thesis using k j dm by simp
      next
        case nl: False
        then have "B + int j \<le> H" using j(2) False LH(1) by (auto simp: a_def)
        then show ?thesis using nl j k by (simp add: drop_hit_def)
      qed
    qed
    show ?thesis
    proof (rule exI [of _ "P1 \<union> P2"], rule exI [of _ cnt'], rule exI [of _ d], rule exI [of _ b'], intro conjI)
      show "\<forall>j. drop_hit act L H S B b j \<longrightarrow> j \<in> P1 \<union> P2" by (simp add: hit P1_def)
      show "\<forall>j \<in> P1 \<union> P2. drop_hit act L H S B b j \<or>
        0 < msgno \<and> B + int j < L \<and> pk b j \<noteq> None \<and> s_msgno (sn S B j) = msgno \<and> \<not> kept ?keep S B b j"
        using P2 by (auto simp: hit P1_def)
      show "\<forall>k < ?n. pk b' k = (if k + d < ?n \<and> k + d \<notin> P1 \<union> P2 then pk b (k + d) else None)"
        using b'(6) w2 by (auto simp: wiped_def)
      show "\<forall>k < d. k \<in> P1 \<union> P2 \<or> filler (st b k)" using b'(4,5) w2 by (auto simp: wiped_def)
      show "\<forall>j < ?n. filler (st b j) \<or> j \<in> P1 \<union> P2 \<longrightarrow> j < d \<or> filler (st b' (j - d))"
      proof (intro allI impI)
        fix j
        assume j: "j < ?n" "filler (st b j) \<or> j \<in> P1 \<union> P2"
        then have f: "filler (st b2 j)" using w2 by (auto simp: wiped_def)
        show "j < d \<or> filler (st b' (j - d))"
        proof (cases "j < d")
          case False
          then have "j - d < ?n" "j - d + d = j" using j(1) by auto
          then show ?thesis using b'(6) f j(1) by metis
        qed simp
      qed
    qed (use res b' in simp_all)
  qed
qed

end
