(* ===== verification/RcvRun.thy ===== *)
theory RcvRun
  imports RcvRead RcvDrop
begin

text \<open>
  The receiver buffer and its unit pool under every sequence of the calls the rest of the program makes:
  packets arrive in units of the pool, messages are read, ranges are dropped, the pool is used by
  others, the delivery clock is set and corrected.
\<close>

section \<open>The pool under a buffer\<close>

text \<open>A change of the pool that leaves the stored units alone.\<close>

lemma inv_queue:
  assumes inv: "rb_inv Q S B b" and q: "uq_ok q" "taken_units q = stored b \<union> Q'" "stored b \<inter> Q' = {}"
    and eq: "\<And>u. u \<in> stored b \<Longrightarrow> m_Packet (m_pUnits q ! u) = m_Packet (m_pUnits (m_pUnitQueue b) ! u)"
  defines "b' \<equiv> b\<lparr>m_pUnitQueue := q\<rparr>"
  shows "rb_inv Q' S B b'" "pk b' = pk b" "st b' = st b"
proof -
  note D = rb_invD [OF inv]
  have pos: "pos b' = pos b" by (simp add: b'_def fun_eq_iff pos_def)
  have sto: "stored b' = stored b" and St: "St b' = St b" by (simp_all add: b'_def stored_def St_def fun_eq_iff)
  have f0: "m_szSize b' = m_szSize b" "m_entries b' = m_entries b" "m_iStartPos b' = m_iStartPos b" "m_pUnitQueue b' = q"
    by (simp_all add: b'_def)
  have ring: "ring_ok Q' b'" using D(6) q unfolding ring_ok_def sto St f0 by blast
  have pkt: "packetAt b' i = packetAt b i" for i
  proof (cases "i < m_szSize b")
    case True
    then show ?thesis using ring_packet [OF ring, of i] ring_packet [OF D(6), of i] ring_unit [OF D(6), of i] eq
      by (cases "pUnit (m_entries b ! i)") (auto simp: b'_def)
  next
    case False
    then show ?thesis using D(6) by (simp add: packetAt_def entry_at_def ring_ok_def b'_def)
  qed
  show pk: "pk b' = pk b" and st: "st b' = st b" by (simp_all add: fun_eq_iff pk_def st_def pos pkt St)
  have carr: "carries b' = carries b" using carries_cong [of b' b] by (simp add: fun_eq_iff b'_def)
  have un: "unordered b' = unordered b" by (simp add: unordered_def pkt) (simp add: b'_def)
  have f: "m_bMessageAPI b' = m_bMessageAPI b" "m_szSize b' = m_szSize b" "m_numOutOfOrderPackets b' = m_numOutOfOrderPackets b"
    "m_iFirstReadableOutOfOrder b' = m_iFirstReadableOutOfOrder b" "m_iMaxPosOff b' = m_iMaxPosOff b"
    "m_iStartSeqNo b' = m_iStartSeqNo b" "m_iFirstNonreadPos b' = m_iFirstNonreadPos b" "isTsbPd b' = isTsbPd b"
    by (simp_all add: b'_def isTsbPd_def)
  have "content Q' B S (m_iMaxPosOff b') b'" using D(1) ring unfolding content_def f carr un pos pk by simp
  then show "rb_inv Q' S B b'" using inv
    unfolding rb_inv_def f pos st nonread_ok_def first_ok_def message_at_def pk by simp
qed

text \<open>A change of the clock that does not switch it on or off.\<close>

lemma inv_tsbpd:
  assumes inv: "rb_inv Q S B b" and t: "m_bTsbPdMode t = m_bTsbPdMode (m_tsbpd b)"
  shows "rb_inv Q S B (b\<lparr>m_tsbpd := t\<rparr>)" "st (b\<lparr>m_tsbpd := t\<rparr>) = st b"
proof -
  let ?b = "b\<lparr>m_tsbpd := t\<rparr>"
  have "content_fields ?b = content_fields b" using t by (simp add: content_fields_def isTsbPd_def)
  note c = content_fields_cong [OF this]
  show "rb_inv Q S B ?b" using inv unfolding rb_inv_def nonread_ok_def first_ok_def message_at_def c by simp
  show "st ?b = st b" by (fact c)
qed

text \<open>An empty buffer holds no packet, so its clock and its flags may be set.\<close>

lemma inv_empty:
  assumes inv: "rb_inv Q S B b" and e: "m_iMaxPosOff b = 0"
    and b': "m_entries b' = m_entries b" "m_szSize b' = m_szSize b" "m_pUnitQueue b' = m_pUnitQueue b" "m_iStartSeqNo b' = m_iStartSeqNo b"
      "m_iStartPos b' = m_iStartPos b" "m_iFirstNonreadPos b' = m_iFirstNonreadPos b" "m_iMaxPosOff b' = m_iMaxPosOff b"
      "m_numOutOfOrderPackets b' = m_numOutOfOrderPackets b" "m_iFirstReadableOutOfOrder b' = m_iFirstReadableOutOfOrder b"
      "m_bMessageAPI b' = m_bMessageAPI b"
  shows "rb_inv Q S B b'" "st b' = st b"
proof -
  note D = rb_invD [OF inv] and sz = ring_size [OF rb_invD(6) [OF inv]]
  have none: "pk b k = None" if "k < m_szSize b" for k using content_pk [OF D(1) that] e by fastforce
  have pos: "pos b' = pos b" by (simp add: fun_eq_iff pos_def b')
  have pkt: "packetAt b' = packetAt b" "St b' = St b" using packetAt_cong [OF b'(1,3)] by (simp_all add: fun_eq_iff)
  show st: "st b' = st b" by (simp add: fun_eq_iff st_def pos pkt)
  have pk: "pk b' = pk b" by (simp add: fun_eq_iff pk_def pos pkt)
  have un: "unordered b' = {}" "unordered b = {}"
  proof -
    have "packetAt b i = None" if i: "i < m_szSize b" for i
    proof -
      obtain k where "k < m_szSize b" "pos b k = i" using pos_surj [OF sz(3) i] by blast
      then show ?thesis using none [of k] by (simp add: pk_def)
    qed
    then show "unordered b' = {}" "unordered b = {}" by (auto simp: unordered_def pkt b')
  qed
  have fr: "m_iFirstReadableOutOfOrder b = - 1"
  proof (rule ccontr)
    assume "m_iFirstReadableOutOfOrder b \<noteq> - 1"
    then obtain k m where "message_at B S b k m" using D(4) by (auto simp: first_ok_def)
    then have "k < m_szSize b" "pk b k \<noteq> None" by (auto simp: message_at_def dest: spec [of _ 0])
    then show False using none by simp
  qed
  have num: "m_numOutOfOrderPackets b = 0" using D(1) un by (auto simp: content_def split: if_splits)
  have ring: "ring_ok Q b'" using ring_ok_cong [OF b'(2,1,3) _ D(6)] sz b' by simp
  have "content Q B S (m_iMaxPosOff b') b'" using ring D(7) none fr num un b' by (simp add: content_def pk)
  then show "rb_inv Q S B b'" using inv fr
    unfolding rb_inv_def pos st nonread_ok_def first_ok_def message_at_def pk b' by simp
qed

section \<open>The calls\<close>

definition put_packet :: "nat \<Rightarrow> CPacket \<Rightarrow> CUnitQueue \<Rightarrow> CUnitQueue" where
  "put_packet u p q = q\<lparr>m_pUnits := (m_pUnits q)[u := (m_pUnits q ! u)\<lparr>m_Packet := p\<rparr>]\<rparr>"

lemma put_packet_ok:
  assumes "uq_ok q" "u < m_iSize q"
  shows "uq_ok (put_packet u p q)" "taken_units (put_packet u p q) = taken_units q" "length (m_pUnits (put_packet u p q)) = length (m_pUnits q)"
    "m_Packet (m_pUnits (put_packet u p q) ! u) = p" "\<And>v. v \<noteq> u \<Longrightarrow> m_pUnits (put_packet u p q) ! v = m_pUnits q ! v"
proof -
  show t: "taken_units (put_packet u p q) = taken_units q"
  proof -
    have "m_bTaken ((m_pUnits q)[u := (m_pUnits q ! u)\<lparr>m_Packet := p\<rparr>] ! x) = m_bTaken (m_pUnits q ! x)" if "x < length (m_pUnits q)" for x
      using that by (cases "x = u") auto
    then show ?thesis by (auto simp: put_packet_def taken_units_def)
  qed
  show "uq_ok (put_packet u p q)" using assms(1) t by (simp add: uq_ok_def) (simp add: put_packet_def)
qed (use assms in \<open>auto simp: put_packet_def uq_ok_def\<close>)

text \<open>The calls the program makes on the buffer.  A packet arrives with its number of the stream; the receiving
  queue takes a unit of the pool for it (\<open>alloc\<close> tells whether the pool may grow) and the connection
  inserts it.  A drop request carries the numbers of its range.  \<open>Other_*\<close> are other connections that share the pool.\<close>

datatype rb_op =
    Arrive (alloc: bool) CPacket int CPacket
  | DropUpTo int
  | DropAll
  | DropMessage int int int DropActionIfExists
  | Read nat "SRT_MSGCTRL option"
  | SetTsbPdMode int bool int
  | ApplyGroupTime int bool int int
  | ApplyGroupDrift int bool int
  | DriftSample int int int
  | SetPeerRexmitFlag bool
  | Other_Take nat
  | Other_Free nat

text \<open>The number of the stream that the start of the buffer has after a call, given the one before.\<close>

definition unwrap_start :: "int \<Rightarrow> CRcvBuffer \<Rightarrow> int" where
  "unwrap_start B b = B + (m_iStartSeqNo b - B) mod 2 ^ 31"

definition near :: "int \<Rightarrow> int \<Rightarrow> bool" where
  "near X Y \<longleftrightarrow> \<bar>X - Y\<bar> < m_iSeqNoTH"

text \<open>A call on the buffer \<open>b\<close> that starts at the number \<open>B\<close> of the stream while others hold the units \<open>Q\<close>.
  Calls the program does not make are skipped: a packet the sender did not send or with a number too far to be told
  from the others, a drop request with a reversed or distant range (\<^verbatim>\<open>processCtrlDropReq\<close> rejects it), a switch
  of the delivery mode or of the packet format while packets are stored.\<close>

fun rb_exec :: "(int \<Rightarrow> sent) \<Rightarrow> rb_op \<Rightarrow> nat set \<times> int \<times> CRcvBuffer \<Rightarrow> (nat set \<times> int \<times> CRcvBuffer) option" where
  "rb_exec S (Arrive success garbage X p) (Q, B, b) =
     (if near X B \<and> carries b S X p then do {
        (u, q) \<leftarrow> getNextAvailUnit success garbage (m_pUnitQueue b);
        case u of None \<Rightarrow> Some (Q, B, b\<lparr>m_pUnitQueue := q\<rparr>)
        | Some u \<Rightarrow> do { (_, b) \<leftarrow> rb_insert u (b\<lparr>m_pUnitQueue := put_packet u p q\<rparr>); Some (Q, B, b) } }
      else Some (Q, B, b))"
| "rb_exec S (DropUpTo Y) (Q, B, b) =
     (if near Y B then do { (_, b) \<leftarrow> dropUpTo (sq Y) b; Some (Q, unwrap_start B b, b) } else Some (Q, B, b))"
| "rb_exec S DropAll (Q, B, b) = do { (_, b) \<leftarrow> dropAll b; Some (Q, unwrap_start B b, b) }"
| "rb_exec S (DropMessage L H msgno act) (Q, B, b) =
     (if L \<le> H \<and> near L B \<and> near H B
      then do { (_, b) \<leftarrow> dropMessage (sq L) (sq H) msgno act b; Some (Q, unwrap_start B b, b) } else Some (Q, B, b))"
| "rb_exec S (Read len mc) (Q, B, b) = do { (_, _, b) \<leftarrow> readMessage len mc b; Some (Q, unwrap_start B b, b) }"
| "rb_exec S (SetTsbPdMode t w d) (Q, B, b) = Some (Q, B, if rb_empty b then rb_setTsbPdMode t w d b else b)"
| "rb_exec S (ApplyGroupTime t w d u) (Q, B, b) = Some (Q, B, if rb_empty b then rb_applyGroupTime t w d u b else b)"
| "rb_exec S (ApplyGroupDrift t w u) (Q, B, b) = Some (Q, B, rb_applyGroupDrift t w u b)"
| "rb_exec S (DriftSample ts arr rtt) (Q, B, b) = Some (Q, B, snd (addRcvTsbPdDriftSample ts arr rtt b))"
| "rb_exec S (SetPeerRexmitFlag f) (Q, B, b) = Some (Q, B, if rb_empty b then setPeerRexmitFlag f b else b)"
| "rb_exec S (Other_Take u) (Q, B, b) =
     Some (case makeUnitTaken u (m_pUnitQueue b) of None \<Rightarrow> (Q, B, b) | Some q \<Rightarrow> (insert u Q, B, b\<lparr>m_pUnitQueue := q\<rparr>))"
| "rb_exec S (Other_Free u) (Q, B, b) =
     (if u \<in> Q then do { q \<leftarrow> makeUnitFree u (m_pUnitQueue b); Some (Q - {u}, B, b\<lparr>m_pUnitQueue := q\<rparr>) } else Some (Q, B, b))"

text \<open>The packets the buffer has seen: those before its start and those whose entry is not empty.\<close>

definition seen :: "int \<Rightarrow> CRcvBuffer \<Rightarrow> int \<Rightarrow> bool" where
  "seen B b X \<longleftrightarrow> X < B \<or> X - B < int (m_szSize b) \<and> st b (nat (X - B)) \<noteq> EntryState_Empty"

text \<open>What every call keeps.\<close>

definition step_ok :: "(int \<Rightarrow> sent) \<Rightarrow> int \<Rightarrow> CRcvBuffer \<Rightarrow> nat set \<times> int \<times> CRcvBuffer \<Rightarrow> bool" where
  "step_ok S B b s' \<longleftrightarrow> (case s' of (Q', B', b') \<Rightarrow> rb_inv Q' S B' b' \<and> B \<le> B' \<and> m_szSize b' = m_szSize b \<and> (\<forall>X. seen B b X \<longrightarrow> seen B' b' X))"

lemma seen_shift:
  assumes "m_szSize b' = m_szSize b" "\<And>j. j < m_szSize b \<Longrightarrow> st b j \<noteq> EntryState_Empty \<Longrightarrow> j < d \<or> st b' (j - d) \<noteq> EntryState_Empty"
  shows "seen B b X \<longrightarrow> seen (B + int d) b' X"
proof
  assume h: "seen B b X"
  show "seen (B + int d) b' X"
  proof (cases "X < B + int d")
    case False
    then have "X - B < int (m_szSize b)" "st b (nat (X - B)) \<noteq> EntryState_Empty" using h by (auto simp: seen_def)
    moreover have "nat (X - B) - d = nat (X - (B + int d))" "\<not> nat (X - B) < d" "nat (X - B) < m_szSize b" using False calculation by auto
    ultimately show ?thesis using assms False by (auto simp: seen_def) metis
  qed (simp add: seen_def)
qed

lemma unwrap_start_eq: "m_iStartSeqNo b = sq (B + int d) \<Longrightarrow> int d < 2 ^ 31 \<Longrightarrow> unwrap_start B b = B + int d"
  by (simp add: unwrap_start_def sq_def mod_diff_left_eq)

lemma status_cases: "z = EntryState_Empty \<or> z = EntryState_Avail \<or> filler z"
  by (cases z) auto

section \<open>Every call returns and keeps the invariant\<close>

lemma arrive_queue:
  assumes inv: "rb_inv Q S B b" and g: "getNextAvailUnit success garbage (m_pUnitQueue b) = Some (r, q)"
  shows "rb_inv Q S B (b\<lparr>m_pUnitQueue := q\<rparr>) \<and> st (b\<lparr>m_pUnitQueue := q\<rparr>) = st b"
    and "r = Some u \<Longrightarrow> rb_inv Q S B (b\<lparr>m_pUnitQueue := put_packet u p q\<rparr>) \<and> st (b\<lparr>m_pUnitQueue := put_packet u p q\<rparr>) = st b \<and>
      u < length (m_pUnits (put_packet u p q)) \<and> u \<notin> taken_units (put_packet u p q) \<and> m_Packet (m_pUnits (put_packet u p q) ! u) = p"
proof -
  note D = rb_invD [OF inv]
  have uq: "uq_ok (m_pUnitQueue b)" "taken_units (m_pUnitQueue b) = stored b \<union> Q" "stored b \<inter> Q = {}"
    using D(6) by (simp_all add: ring_ok_def)
  have q: "uq_ok q" "taken_units q = stored b \<union> Q" "\<forall>u. r = Some u \<longrightarrow> u < m_iSize q \<and> u \<notin> taken_units q"
    "\<exists>us. m_pUnits q = m_pUnits (m_pUnitQueue b) @ us"
    using getNextAvailUnit_spec [OF uq(1), of success garbage] g uq(2) by auto
  have same: "m_Packet (m_pUnits q ! v) = m_Packet (m_pUnits (m_pUnitQueue b) ! v)" if "v \<in> stored b" for v
  proof -
    have "v \<in> taken_units (m_pUnitQueue b)" using that uq(2) by simp
    then show ?thesis using q(4) by (auto simp: taken_units_def nth_append)
  qed
  show "rb_inv Q S B (b\<lparr>m_pUnitQueue := q\<rparr>) \<and> st (b\<lparr>m_pUnitQueue := q\<rparr>) = st b"
    using inv_queue [OF inv q(1,2) uq(3) same] by blast
  assume "r = Some u"
  then have u: "u < m_iSize q" "u \<notin> taken_units q" using q(3) by simp_all
  note pp = put_packet_ok [OF q(1) u(1), where p = p]
  have eq: "m_Packet (m_pUnits (put_packet u p q) ! v) = m_Packet (m_pUnits (m_pUnitQueue b) ! v)" if "v \<in> stored b" for v
  proof -
    have "v \<noteq> u" using that u(2) q(2) by auto
    then show ?thesis using pp(5) same [OF that] by simp
  qed
  have tk: "taken_units (put_packet u p q) = stored b \<union> Q" using pp(2) q(2) by simp
  have "rb_inv Q S B (b\<lparr>m_pUnitQueue := put_packet u p q\<rparr>) \<and> st (b\<lparr>m_pUnitQueue := put_packet u p q\<rparr>) = st b"
    using inv_queue(1,3) [OF inv pp(1) tk uq(3) eq] by blast
  then show "rb_inv Q S B (b\<lparr>m_pUnitQueue := put_packet u p q\<rparr>) \<and> st (b\<lparr>m_pUnitQueue := put_packet u p q\<rparr>) = st b \<and>
      u < length (m_pUnits (put_packet u p q)) \<and> u \<notin> taken_units (put_packet u p q) \<and> m_Packet (m_pUnits (put_packet u p q) ! u) = p"
    using pp u q(1) by (simp add: uq_ok_def)
qed

lemma arrive_ok:
  assumes inv: "rb_inv Q S B b" and fr: "framed S" and X: "near X B" "carries b S X p"
  shows "\<exists>s'. rb_exec S (Arrive success garbage X p) (Q, B, b) = Some s' \<and> step_ok S B b s'"
proof -
  have "uq_ok (m_pUnitQueue b)" using rb_invD(6) [OF inv] by (simp add: ring_ok_def)
  then obtain r q where g: "getNextAvailUnit success garbage (m_pUnitQueue b) = Some (r, q)"
    using getNextAvailUnit_spec [of "m_pUnitQueue b" success garbage] by blast
  show ?thesis
  proof (cases r)
    case None
    then show ?thesis using X g arrive_queue(1) [OF inv g] by (simp add: step_ok_def seen_def)
  next
    case (Some u)
    define b1 where "b1 = b\<lparr>m_pUnitQueue := put_packet u p q\<rparr>"
    note q = arrive_queue(2) [OF inv g Some, where p = p, folded b1_def]
    have u: "u < length (m_pUnits (m_pUnitQueue b1))" "u \<notin> taken_units (m_pUnitQueue b1)" "unit_packet b1 u = Some p"
      using q by (auto simp: b1_def unit_packet_def Let_def)
    have p: "carries b1 S X p" using X(2) carries_cong [of b1 b] by (simp add: b1_def)
    have b1: "rb_inv Q S B b1" "st b1 = st b" "m_szSize b1 = m_szSize b" using q by (auto simp: b1_def)
    obtain b' c where b': "rb_insert u b1 = Some (c, b')" "rb_inv Q S B b'" "m_szSize b' = m_szSize b1"
      "\<forall>j < m_szSize b1. st b' j = (if insert_code b1 (X - B) = 0 \<and> j = nat (X - B) then EntryState_Avail else st b1 j)"
      using insert_ok [OF fr b1(1) X(1) [unfolded near_def] u p] by blast
    have "seen B b Y \<longrightarrow> seen (B + int 0) b' Y" for Y
      by (rule seen_shift) (use b'(3,4) b1 in auto)
    then show ?thesis using X g Some b' b1 by (simp add: step_ok_def b1_def)
  qed
qed

lemma unwrap_small:
  assumes "rb_inv Q S (B + int d) b" "int d < 2 ^ 31"
  shows "unwrap_start B b = B + int d"
  using unwrap_start_eq [OF rb_invD(3) [OF assms(1)] assms(2)] .

lemma step_shift:
  assumes "rb_inv Q S (B + int d) b'" "int d < 2 ^ 31" "m_szSize b' = m_szSize b"
    and "\<And>j. j < m_szSize b \<Longrightarrow> st b j \<noteq> EntryState_Empty \<Longrightarrow> j < d \<or> st b' (j - d) \<noteq> EntryState_Empty"
  shows "step_ok S B b (Q, unwrap_start B b', b')"
  using assms(1,3) seen_shift [OF assms(3,4)] unfolding step_ok_def unwrap_small [OF assms(1,2)] by simp

lemma TH_small: "near X B \<Longrightarrow> X - B < 2 ^ 30"
  by (simp add: near_def m_iSeqNoTH_def)

lemma drop_up_to_step:
  assumes inv: "rb_inv Q S B b" and Y: "near Y B"
  shows "\<exists>r b'. dropUpTo (sq Y) b = Some (r, b') \<and> step_ok S B b (Q, unwrap_start B b', b')"
proof -
  note sz = ring_size [OF rb_invD(6) [OF inv]]
  let ?l = "nat (Y - B)"
  obtain d r b' where b': "dropUpTo (sq Y) b = Some (r, b')" "rb_inv Q S (max B Y + int d) b'" "d \<le> m_szSize b" "m_szSize b' = m_szSize b"
    "\<forall>k < m_szSize b. st b' k = (if k + ?l + d < m_szSize b then st b (k + ?l + d) else EntryState_Empty)"
    using dropUpTo_ok [OF inv Y [unfolded near_def]] by blast
  have B: "max B Y + int d = B + int (?l + d)" by (simp add: max_def)
  have small: "int (?l + d) < 2 ^ 31" using b'(3) sz(4) TH_small [OF Y] by (simp add: max_def)
  have "st b' (j - (?l + d)) \<noteq> EntryState_Empty" if "j < m_szSize b" "st b j \<noteq> EntryState_Empty" "\<not> j < ?l + d" for j
  proof -
    have "j - (?l + d) < m_szSize b" "j - (?l + d) + ?l + d = j" using that by auto
    then show ?thesis using b'(5) that by metis
  qed
  then show ?thesis using b'(1) step_shift [OF b'(2) [unfolded B] small b'(4)] by blast
qed

lemma drop_all_step:
  assumes inv: "rb_inv Q S B b"
  shows "\<exists>r b'. dropAll b = Some (r, b') \<and> step_ok S B b (Q, unwrap_start B b', b')"
proof -
  note D = rb_invD [OF inv] and sz = ring_size [OF rb_invD(6) [OF inv]]
  show ?thesis
  proof (cases "rb_empty b")
    case True
    then show ?thesis using step_shift [of Q S B 0 b b] inv by (simp add: dropAll_def)
  next
    case False
    have near: "near (B + int (m_iMaxPosOff b)) B" using D(2) sz(4) by (simp add: near_def m_iSeqNoTH_def)
    have "incseq_by (m_iStartSeqNo b) (int (m_iMaxPosOff b)) = sq (B + int (m_iMaxPosOff b))"
      using D(2,3) sz(4) by (simp add: incseq_by_sq)
    then show ?thesis using drop_up_to_step [OF inv near] False by (auto simp: dropAll_def)
  qed
qed

lemma status_from_packets:
  assumes "rb_inv Q S B b" "rb_inv Q' S B' b'" "st b j \<noteq> EntryState_Empty" "\<not> filler (st b j)" "pk b' i = pk b j"
  shows "st b' i \<noteq> EntryState_Empty"
proof -
  have "st b j = EntryState_Avail" using assms(3,4) status_cases [of "st b j"] by blast
  then have "pk b' i \<noteq> None" using st_avail [OF rb_invD(6) [OF assms(1)]] assms(5) by simp
  then have "st b' i = EntryState_Avail" using st_avail [OF rb_invD(6) [OF assms(2)]] by simp
  then show ?thesis by simp
qed

lemma drop_message_step:
  assumes inv: "rb_inv Q S B b" and LH: "L \<le> H" "near L B" "near H B"
  shows "\<exists>r b'. dropMessage (sq L) (sq H) msgno act b = Some (r, b') \<and> step_ok S B b (Q, unwrap_start B b', b')"
proof -
  note sz = ring_size [OF rb_invD(6) [OF inv]]
  obtain P cnt d b' where b': "dropMessage (sq L) (sq H) msgno act b = Some (cnt, b')" "rb_inv Q S (B + int d) b'" "m_szSize b' = m_szSize b"
    "\<forall>k < m_szSize b. pk b' k = (if k + d < m_szSize b \<and> k + d \<notin> P then pk b (k + d) else None)" "d \<le> m_szSize b"
    "\<forall>j < m_szSize b. filler (st b j) \<or> j \<in> P \<longrightarrow> j < d \<or> filler (st b' (j - d))"
    using dropMessage_ok [OF inv LH(1) LH(2,3) [unfolded near_def]] by blast
  have "j < d \<or> st b' (j - d) \<noteq> EntryState_Empty" if j: "j < m_szSize b" "st b j \<noteq> EntryState_Empty" for j
  proof (cases "filler (st b j) \<or> j \<in> P \<or> j < d")
    case True
    then show ?thesis using b'(6) j by fastforce
  next
    case False
    then have "j - d < m_szSize b" "j - d + d = j" using j by auto
    then have "pk b' (j - d) = pk b j" using b'(4) False j by simp
    then show ?thesis using status_from_packets [OF inv b'(2) j(2)] False by blast
  qed
  then show ?thesis using b'(1) step_shift [OF b'(2) _ b'(3)] b'(5) sz(4) by fastforce
qed

lemma read_step:
  assumes inv: "rb_inv Q S B b" and fr: "framed S"
  shows "\<exists>data mc' b'. readMessage len mc b = Some (data, mc', b') \<and> step_ok S B b (Q, unwrap_start B b', b')"
  using readMessage_ok [OF inv fr, of len mc]
proof
  assume "\<not> hasReadableInorderPkts b \<and> m_iFirstReadableOutOfOrder b = - 1 \<and> readMessage len mc b = Some ([], mc, b)"
  then show ?thesis using step_shift [of Q S B 0 b b] inv by simp
next
  note sz = ring_size [OF rb_invD(6) [OF inv]]
  assume "\<exists>k m d mc' b'. readMessage len mc b = Some (take len (message_bytes S B k m), mc', b') \<and> message_at B S b k m \<and>
      (hasReadableInorderPkts b \<and> k = 0 \<or>
       \<not> hasReadableInorderPkts b \<and> \<not> isTsbPd b \<and> m_iFirstReadableOutOfOrder b = int (pos b k) \<and> s_first (sn S B k) \<and> \<not> s_order (sn S B k)) \<and>
      (if k = 0 then m < d else d = 0) \<and> d \<le> 2 * m_szSize b \<and> rb_inv Q S (B + int d) b' \<and> m_szSize b' = m_szSize b \<and>
      (\<forall>j < m_szSize b. pk b' j = (if j + d < m_szSize b \<and> \<not> (k \<le> j + d \<and> j + d \<le> k + m) then pk b (j + d) else None)) \<and>
      (\<forall>j < m_szSize b. filler (st b j) \<or> k \<le> j \<and> j \<le> k + m \<longrightarrow> j < d \<or> filler (st b' (j - d)))"
  then obtain k m d mc' b' where b': "readMessage len mc b = Some (take len (message_bytes S B k m), mc', b')"
      "rb_inv Q S (B + int d) b'" "m_szSize b' = m_szSize b"
      "\<forall>j < m_szSize b. pk b' j = (if j + d < m_szSize b \<and> \<not> (k \<le> j + d \<and> j + d \<le> k + m) then pk b (j + d) else None)"
      "\<forall>j < m_szSize b. filler (st b j) \<or> k \<le> j \<and> j \<le> k + m \<longrightarrow> j < d \<or> filler (st b' (j - d))" "d \<le> 2 * m_szSize b" by blast
  have "j < d \<or> st b' (j - d) \<noteq> EntryState_Empty" if j: "j < m_szSize b" "st b j \<noteq> EntryState_Empty" for j
  proof (cases "filler (st b j) \<or> k \<le> j \<and> j \<le> k + m \<or> j < d")
    case True
    then show ?thesis using b'(5) j by fastforce
  next
    case False
    then have "j - d < m_szSize b" "j - d + d = j" using j by auto
    then have "pk b' (j - d) = pk b j" using b'(4) False j by simp
    then show ?thesis using status_from_packets [OF inv b'(2) j(2)] False by blast
  qed
  moreover have "int d < 2 ^ 31" using b'(6) sz(4) by simp
  ultimately show ?thesis using b'(1) step_shift [OF b'(2) _ b'(3)] by blast
qed

lemma sample_mode: "m_bTsbPdMode (snd (addDriftSample ts arr rtt t)) = m_bTsbPdMode t"
  by (auto simp: addDriftSample_def Let_def split: prod.split)

lemma rb_exec_ok:
  assumes inv: "rb_inv Q S B b" and fr: "framed S"
  shows "\<exists>s'. rb_exec S e (Q, B, b) = Some s' \<and> step_ok S B b s'"
proof -
  have skip: "step_ok S B b (Q, B, b)" using inv by (simp add: step_ok_def)
  have uq: "uq_ok (m_pUnitQueue b)" "taken_units (m_pUnitQueue b) = stored b \<union> Q" "stored b \<inter> Q = {}"
    using rb_invD(6) [OF inv] by (simp_all add: ring_ok_def)
  have keep: "step_ok S B b (Q, B, b')" if "rb_inv Q S B b'" "st b' = st b" "m_szSize b' = m_szSize b" for b'
    using that by (simp add: step_ok_def seen_def)
  show ?thesis
  proof (cases e)
    case (Arrive success garbage X p)
    then show ?thesis using arrive_ok [OF inv fr] skip by (cases "near X B \<and> carries b S X p") auto
  next
    case (DropUpTo Y)
    then show ?thesis using drop_up_to_step [OF inv, of Y] skip by (cases "near Y B") auto
  next
    case DropAll
    then show ?thesis using drop_all_step [OF inv] by auto
  next
    case (DropMessage L H msgno act)
    then show ?thesis using drop_message_step [OF inv, of L H msgno act] skip by (cases "L \<le> H \<and> near L B \<and> near H B") auto
  next
    case (Read len mc)
    then show ?thesis using read_step [OF inv fr, of len mc] by auto
  next
    case (SetTsbPdMode t w d)
    then show ?thesis using skip inv_empty [OF inv, of "rb_setTsbPdMode t w d b"] keep [of "rb_setTsbPdMode t w d b"]
      by (auto simp: rb_empty_def rb_setTsbPdMode_def)
  next
    case (ApplyGroupTime t w d u)
    then show ?thesis using skip inv_empty [OF inv, of "rb_applyGroupTime t w d u b"] keep [of "rb_applyGroupTime t w d u b"]
      by (auto simp: rb_empty_def rb_applyGroupTime_def)
  next
    case (ApplyGroupDrift t w u)
    have "m_bTsbPdMode (applyGroupDrift t w u (m_tsbpd b)) = m_bTsbPdMode (m_tsbpd b)" by (simp add: applyGroupDrift_def)
    then show ?thesis using ApplyGroupDrift inv_tsbpd [OF inv] keep by (simp add: rb_applyGroupDrift_def)
  next
    case (DriftSample ts arr rtt)
    have "snd (addRcvTsbPdDriftSample ts arr rtt b) = b\<lparr>m_tsbpd := snd (addDriftSample ts arr rtt (m_tsbpd b))\<rparr>"
      by (simp add: addRcvTsbPdDriftSample_def split: prod.split)
    then show ?thesis using DriftSample inv_tsbpd [OF inv sample_mode] keep by simp
  next
    case (SetPeerRexmitFlag f)
    then show ?thesis using skip inv_empty [OF inv, of "setPeerRexmitFlag f b"] keep [of "setPeerRexmitFlag f b"]
      by (auto simp: rb_empty_def setPeerRexmitFlag_def)
  next
    case (Other_Take u)
    show ?thesis
    proof (cases "makeUnitTaken u (m_pUnitQueue b)")
      case None
      then show ?thesis using Other_Take skip by simp
    next
      case (Some q)
      note q = makeUnitTaken_ok [OF uq(1) Some]
      have pkt: "m_Packet (m_pUnits q ! v) = m_Packet (m_pUnits (m_pUnitQueue b) ! v)" for v
        using Some by (cases "v = u") (auto simp: makeUnitTaken_def split: if_splits)
      have "rb_inv (insert u Q) S B (b\<lparr>m_pUnitQueue := q\<rparr>)" "st (b\<lparr>m_pUnitQueue := q\<rparr>) = st b"
        using inv_queue [OF inv q(1), of "insert u Q"] q uq pkt by auto
      then show ?thesis using Other_Take Some by (simp add: step_ok_def seen_def)
    qed
  next
    case (Other_Free u)
    show ?thesis
    proof (cases "u \<in> Q")
      case False
      then show ?thesis using Other_Free skip by simp
    next
      case True
      then have "u \<in> taken_units (m_pUnitQueue b)" using uq(2) by simp
      then obtain q where Some: "makeUnitFree u (m_pUnitQueue b) = Some q" by (auto simp: makeUnitFree_def taken_units_def)
      note q = makeUnitFree_ok [OF uq(1) Some]
      have pkt: "m_Packet (m_pUnits q ! v) = m_Packet (m_pUnits (m_pUnitQueue b) ! v)" for v
        using Some by (cases "v = u") (auto simp: makeUnitFree_def split: if_splits)
      have "rb_inv (Q - {u}) S B (b\<lparr>m_pUnitQueue := q\<rparr>)" "st (b\<lparr>m_pUnitQueue := q\<rparr>) = st b"
        using inv_queue [OF inv q(1), of "Q - {u}"] q uq pkt True by auto
      then show ?thesis using Other_Free Some True by (simp add: step_ok_def seen_def)
    qed
  qed
qed

end
