(* ===== verification/RcvProps.thy ===== *)
theory RcvProps
  imports RcvRun
begin

text \<open>
  What the receiver buffer promises: under every sequence of calls it is safe, no packet enters it twice,
  an inserted packet is told apart by its code, reading delivers whole messages of the sender, dropping
  takes what it is asked to take, and the destructor leaves no unit taken.  The last part is a sequence of
  calls after which a message that has arrived is not delivered.
\<close>

section \<open>All sequences of calls\<close>

interpretation rcvbuf: safe_component
  "\<lambda>(Q, B, b). framed S \<and> rb_inv Q S B b \<and> B0 \<le> B \<and> m_szSize b = n \<and> (\<forall>X \<in> K. seen B b X)" "\<lambda>_. True" "rb_exec S" for S B0 n K
proof
  fix s e
  assume "case s of (Q, B, b) \<Rightarrow> framed S \<and> rb_inv Q S B b \<and> B0 \<le> B \<and> m_szSize b = n \<and> (\<forall>X \<in> K. seen B b X)"
  then obtain Q B b where s: "s = (Q, B, b)" "framed S" "rb_inv Q S B b" "B0 \<le> B" "m_szSize b = n" "\<forall>X \<in> K. seen B b X" by auto
  then show "\<exists>s'. rb_exec S e s = Some s' \<and>
      (case s' of (Q, B, b) \<Rightarrow> framed S \<and> rb_inv Q S B b \<and> B0 \<le> B \<and> m_szSize b = n \<and> (\<forall>X \<in> K. seen B b X))"
    using rb_exec_ok [OF s(3,2), of e] by (fastforce simp: step_ok_def)
qed

lemma run_ok:
  assumes "framed S" "rb_inv Q S B b" "\<forall>X \<in> K. seen B b X"
  shows "\<exists>Q' B' b'. run_events (rb_exec S) es (Q, B, b) = Some (Q', B', b') \<and> rb_inv Q' S B' b' \<and> B \<le> B' \<and>
    m_szSize b' = m_szSize b \<and> (\<forall>X \<in> K. seen B' b' X)"
  using rcvbuf.runs [of S B "m_szSize b" K "(Q, B, b)" es] assms by (auto simp: list_all_iff)

lemma new_inv:
  assumes "uq_ok q" "2 \<le> sz" "int sz < 2 ^ 29" "CRcvBuffer_new (sq B) sz q True = Some b"
  shows "rb_inv (taken_units q) S B b" "m_szSize b = sz"
proof -
  have b: "m_entries b = replicate sz Entry_new" "m_szSize b = sz" "m_pUnitQueue b = q" "m_iStartSeqNo b = sq B" "m_iStartPos b = 0"
    "m_iFirstNonreadPos b = 0" "m_iMaxPosOff b = 0" "m_numOutOfOrderPackets b = 0" "m_iFirstReadableOutOfOrder b = - 1" "m_bMessageAPI b"
    using assms(3,4) by (auto simp: CRcvBuffer_new_def split: if_splits)
  have St: "St b i = EntryState_Empty" "pUnit (m_entries b ! i) = None" if "i < sz" for i
    using that by (simp_all add: St_def b Entry_new_def)
  have none: "packetAt b i = None" for i by (auto simp: packetAt_def entry_at_def b Entry_new_def)
  have sto: "stored b = {}" using St(2) by (auto simp: stored_def b)
  have ring: "ring_ok (taken_units q) b" unfolding ring_ok_def sto using assms(1-3) St by (auto simp: b)
  have un: "unordered b = {}" by (simp add: unordered_def none)
  have "content (taken_units q) B S 0 b" using ring by (simp add: content_def b pk_def none un)
  moreover have "st b 0 = EntryState_Empty" using St(1) [of "pos b 0"] assms(2) by (simp add: st_def pos_def b)
  ultimately show "rb_inv (taken_units q) S B b" using assms(2) b
    by (auto simp: rb_inv_def first_ok_def nonread_ok_def intro: exI [of _ 0])
  show "m_szSize b = sz" by (fact b(2))
qed

section \<open>Properties\<close>

text \<open>C7: The receiver buffer is safe under every sequence of calls.  From a new buffer, every sequence of arriving packets,
  reads, drops by number and by message, changes of the delivery clock and uses of the unit pool by others returns: no
  array is indexed out of bounds, no assertion fails, no loop runs forever.  After it the start number is that of the
  stream position the buffer has reached, which never moves back, every unit that is taken is stored in exactly one entry or held
  by others, and the entry at each offset from the start holds the packet the sender sent under that number, or none.\<close>

theorem rcvbuf_runs_safe:
  assumes "uq_ok q" "2 \<le> sz" "int sz < 2 ^ 29" "CRcvBuffer_new (sq B) sz q True = Some b" "framed S"
  shows "\<exists>Q' B' b'. run_events (rb_exec S) ops (taken_units q, B, b) = Some (Q', B', b') \<and> B \<le> B' \<and> m_iStartSeqNo b' = sq B' \<and>
    taken_units (m_pUnitQueue b') = stored b' \<union> Q' \<and> stored b' \<inter> Q' = {} \<and>
    (\<forall>i < sz. \<forall>j < sz. pUnit (m_entries b' ! i) \<noteq> None \<and> pUnit (m_entries b' ! i) = pUnit (m_entries b' ! j) \<longrightarrow> i = j) \<and>
    (\<forall>k < sz. \<forall>p. pk b' k = Some p \<longrightarrow> carries b' S (B' + int k) p)"
proof -
  note n = new_inv(1) [OF assms(1-4), where S = S] new_inv(2) [OF assms(1-4)]
  obtain Q' B' b' where b': "run_events (rb_exec S) ops (taken_units q, B, b) = Some (Q', B', b')" "rb_inv Q' S B' b'" "B \<le> B'"
    "m_szSize b' = m_szSize b"
    using run_ok [OF assms(5) n(1), of "{}" ops] by auto
  note D = rb_invD [OF b'(2)]
  have "taken_units (m_pUnitQueue b') = stored b' \<union> Q'" "stored b' \<inter> Q' = {}"
    "\<forall>i < sz. \<forall>j < sz. pUnit (m_entries b' ! i) \<noteq> None \<and> pUnit (m_entries b' ! i) = pUnit (m_entries b' ! j) \<longrightarrow> i = j"
    using D(6) b'(4) n(2) unfolding ring_ok_def by auto
  moreover have "\<forall>k < sz. \<forall>p. pk b' k = Some p \<longrightarrow> carries b' S (B' + int k) p" using content_pk [OF D(1)] b'(4) n(2) by auto
  ultimately show ?thesis using b' D(3) by blast
qed

text \<open>C8: No packet enters the buffer twice.  A packet that is stored at some moment, after any further calls, is refused if it
  arrives again, whether it is still there, has been read or has been dropped: \<^verbatim>\<open>insert\<close> returns -1 or -2 and stores nothing.\<close>

theorem rcvbuf_at_most_once:
  assumes "framed S" "rb_inv Q S B b" "k < m_szSize b" "pk b k \<noteq> None"
    and run: "run_events (rb_exec S) ops (Q, B, b) = Some (Q', B', b')"
    and near: "near (B + int k) B'"
    and u: "u < length (m_pUnits (m_pUnitQueue b'))" "u \<notin> taken_units (m_pUnitQueue b')" "unit_packet b' u = Some p" "carries b' S (B + int k) p"
  shows "\<exists>c b''. rb_insert u b' = Some (c, b'') \<and> c \<in> {- 1, - 2} \<and> (\<forall>j < m_szSize b'. pk b'' j = pk b' j)"
proof -
  have M: "k < m_iMaxPosOff b" using content_pk [OF rb_invD(1) [OF assms(2)] assms(3)] assms(4) by auto
  have "st b k = EntryState_Avail" using st_avail [OF rb_invD(6) [OF assms(2)]] assms(4) by simp
  then have "seen B b (B + int k)" using assms(3) by (simp add: seen_def)
  then have b': "rb_inv Q' S B' b'" "B \<le> B'" "m_szSize b' = m_szSize b" "seen B' b' (B + int k)"
    using run_ok [OF assms(1,2), of "{B + int k}" ops] run by auto
  have "insert_code b' (B + int k - B') \<in> {- 1, - 2}"
    using b' M rb_invD(2) [OF assms(2)] by (auto simp: insert_code_def seen_def)
  then show ?thesis using insert_ok [OF assms(1) b'(1) near [unfolded near_def] u] by auto
qed


text \<open>C10: \<^verbatim>\<open>insert\<close> tells a packet apart by its offset from the start: -2 before the start, -3 at or beyond the capacity, -1 if its entry is not
  empty (stored, read or dropped before), else 0, and only then the packet is stored, at its offset, and nothing else changes.  After a
  stored packet the readable prefix is maximal: it ends where no complete message starts.\<close>

theorem rcvbuf_insert_codes:
  assumes "framed S" "rb_inv Q S B b" "\<bar>X - B\<bar> < m_iSeqNoTH"
    and "u < length (m_pUnits (m_pUnitQueue b))" "u \<notin> taken_units (m_pUnitQueue b)" "unit_packet b u = Some p" "carries b S X p"
  shows "\<exists>b'. rb_insert u b = Some (insert_code b (X - B), b') \<and> rb_inv Q S B b' \<and> m_szSize b' = m_szSize b \<and>
    (\<forall>j < m_szSize b. pk b' j = (if insert_code b (X - B) = 0 \<and> j = nat (X - B) then Some p else pk b j) \<and>
       st b' j = (if insert_code b (X - B) = 0 \<and> j = nat (X - B) then EntryState_Avail else st b j)) \<and>
    (insert_code b (X - B) = 0 \<longrightarrow>
       (\<exists>r. m_iFirstNonreadPos b' = pos b' r \<and> nonread_ok B S b' r \<and> \<not> message_starts B S b' r))"
  using assms by (rule insert_ok)

text \<open>C13: \<^verbatim>\<open>dropUpTo\<close> moves the start to the given number, or, if entries read or dropped before follow it, to the first
  number after them, and never back.  It returns how many packets it skips without having seen them and how many it throws away; the packets from the
  new start on stay where they are in the stream.\<close>

theorem rcvbuf_dropUpTo:
  assumes "rb_inv Q S B b" "\<bar>Y - B\<bar> < m_iSeqNoTH"
  shows "\<exists>d b'. dropUpTo (sq Y) b = Some ((missing_in b (nat (Y - B)), available_in b (nat (Y - B))), b') \<and>
    rb_inv Q S (max B Y + int d) b' \<and> (Y \<le> B \<longrightarrow> d = 0) \<and> d \<le> m_szSize b \<and> m_szSize b' = m_szSize b \<and>
    (\<forall>k < m_szSize b. pk b' k = (if k + nat (Y - B) + d < m_szSize b then pk b (k + nat (Y - B) + d) else None) \<and>
       st b' k = (if k + nat (Y - B) + d < m_szSize b then st b (k + nat (Y - B) + d) else EntryState_Empty)) \<and>
    (\<forall>k < nat (Y - B) + d. nat (Y - B) \<le> k \<and> k < m_szSize b \<longrightarrow> filler (st b k))"
  using assms by (rule dropUpTo_ok)

text \<open>C12: \<^verbatim>\<open>dropMessage\<close> takes what the request names.  For a range of numbers that is not reversed it returns and leaves a consistent
  buffer; every packet of the range inside the capacity leaves the buffer, except, if existing packets are to be kept, messages of one
  packet; a packet outside the range is only taken if it belongs to the named message and lies before the range; the start only moves
  over entries that hold no packet.\<close>

theorem rcvbuf_dropMessage:
  assumes "rb_inv Q S B b" "L \<le> H" "\<bar>L - B\<bar> < m_iSeqNoTH" "\<bar>H - B\<bar> < m_iSeqNoTH"
  shows "\<exists>P cnt d b'. dropMessage (sq L) (sq H) msgno act b = Some (cnt, b') \<and> rb_inv Q S (B + int d) b' \<and> m_szSize b' = m_szSize b \<and>
    (\<forall>j. drop_hit act L H S B b j \<longrightarrow> j \<in> P) \<and>
    (\<forall>j \<in> P. drop_hit act L H S B b j \<or>
       0 < msgno \<and> B + int j < L \<and> pk b j \<noteq> None \<and> s_msgno (sn S B j) = msgno \<and> \<not> kept (act = KEEP_EXISTING) S B b j) \<and>
    (\<forall>k < m_szSize b. pk b' k = (if k + d < m_szSize b \<and> k + d \<notin> P then pk b (k + d) else None)) \<and>
    d \<le> m_szSize b \<and> (\<forall>k < d. k \<in> P \<or> filler (st b k)) \<and>
    (\<forall>j < m_szSize b. filler (st b j) \<or> j \<in> P \<longrightarrow> j < d \<or> filler (st b' (j - d)))"
  using assms by (rule dropMessage_ok)

section \<open>The destructor\<close>

definition units_of :: "Entry list \<Rightarrow> nat set" where
  "units_of es = {u. \<exists>i < length es. pUnit (es ! i) = Some u}"

lemma units_of_Cons: "units_of (e # es) = (case pUnit e of None \<Rightarrow> units_of es | Some u \<Rightarrow> insert u (units_of es))"
  unfolding units_of_def length_Cons Ex_less_Suc2 by (auto split: option.split)

lemma free_units_ok:
  assumes "uq_ok q" "units_of es \<subseteq> taken_units q" "\<forall>i < length es. \<forall>j < length es. pUnit (es ! i) \<noteq> None \<and> pUnit (es ! i) = pUnit (es ! j) \<longrightarrow> i = j"
  shows "\<exists>q'. free_units es q = Some q' \<and> uq_ok q' \<and> taken_units q' = taken_units q - units_of es"
  using assms
proof (induction es arbitrary: q)
  case Nil
  then show ?case by (simp add: units_of_def)
next
  case (Cons e es)
  have tl: "\<forall>i < length es. \<forall>j < length es. pUnit (es ! i) \<noteq> None \<and> pUnit (es ! i) = pUnit (es ! j) \<longrightarrow> i = j"
  proof (intro allI impI)
    fix i j
    assume "i < length es" "j < length es" "pUnit (es ! i) \<noteq> None \<and> pUnit (es ! i) = pUnit (es ! j)"
    then show "i = j" using Cons.prems(3) [THEN spec, of "Suc i", THEN mp, THEN spec, of "Suc j"] by auto
  qed
  show ?case
  proof (cases "pUnit e")
    case None
    then have "units_of (e # es) = units_of es" by (simp add: units_of_Cons)
    then show ?thesis using Cons.IH [OF Cons.prems(1) _ tl] Cons.prems(2) None by simp
  next
    case (Some u)
    have us: "units_of (e # es) = insert u (units_of es)" using Some by (simp add: units_of_Cons)
    then have "u \<in> taken_units q" using Cons.prems(2) by auto
    then obtain q1 where q1: "makeUnitFree u q = Some q1" by (auto simp: makeUnitFree_def taken_units_def)
    note f = makeUnitFree_ok [OF Cons.prems(1) q1]
    have "u \<notin> units_of es"
    proof
      assume "u \<in> units_of es"
      then obtain j where "j < length es" "pUnit (es ! j) = Some u" by (auto simp: units_of_def)
      then show False using Cons.prems(3) [THEN spec, of 0, THEN mp, THEN spec, of "Suc j"] Some by simp
    qed
    then have "units_of es \<subseteq> taken_units q1" using Cons.prems(2) f(2) us by auto
    then obtain q' where "free_units es q1 = Some q'" "uq_ok q'" "taken_units q' = taken_units q1 - units_of es"
      using Cons.IH [OF f(1) _ tl] by blast
    then show ?thesis using Some q1 f(2) us by auto
  qed
qed

text \<open>C14: The destructor gives back exactly the units the buffer holds: it frees no unit twice and leaves taken only the units that others
  hold, so no sequence of calls leaks a unit of the pool.\<close>

theorem rcvbuf_delete_frees:
  assumes "rb_inv Q S B b"
  shows "\<exists>q. CRcvBuffer_delete b = Some q \<and> uq_ok q \<and> taken_units q = Q"
proof -
  note ok = rb_invD(6) [OF assms]
  have sto: "units_of (m_entries b) = stored b" by (simp add: units_of_def stored_def)
  have uq: "uq_ok (m_pUnitQueue b)" "taken_units (m_pUnitQueue b) = stored b \<union> Q" "stored b \<inter> Q = {}"
    using ok unfolding ring_ok_def by blast+
  have "length (m_entries b) = m_szSize b" using ok by (simp add: ring_ok_def)
  then have inj: "\<forall>i < length (m_entries b). \<forall>j < length (m_entries b). pUnit (m_entries b ! i) \<noteq> None \<and>
        pUnit (m_entries b ! i) = pUnit (m_entries b ! j) \<longrightarrow> i = j"
    using ok unfolding ring_ok_def by metis
  have "units_of (m_entries b) \<subseteq> taken_units (m_pUnitQueue b)" using sto uq(2) by simp
  then show ?thesis using free_units_ok [OF uq(1) _ inj] sto uq(2,3) by (auto simp: CRcvBuffer_delete_def)
qed

section \<open>Instances\<close>

text \<open>A stream of messages of one packet each, one byte long, and a buffer for it that starts at number 10.\<close>

definition demo_packet :: "bool \<Rightarrow> int \<Rightarrow> CPacket" where
  "demo_packet ordered s = \<lparr>m_nHeader = (\<lambda>f. case f of SRT_PH_SEQNO \<Rightarrow> word_of_int s
     | SRT_PH_MSGNO \<Rightarrow> if ordered then 0xE0000001 else 0xC0000001 | _ \<Rightarrow> 0), m_pcData = [word_of_int s], m_Length = 1\<rparr>"

definition demo_stream :: "bool \<Rightarrow> int \<Rightarrow> sent" where
  "demo_stream ordered X = \<lparr>s_first = True, s_last = True, s_order = ordered, s_msgno = 1, s_data = [word_of_int X]\<rparr>"

definition demo_queue :: CUnitQueue where
  "demo_queue = \<lparr>m_pUnits = replicate 4 \<lparr>m_Packet = demo_packet True 10, m_bTaken = False\<rparr>, m_pCurrQueue = 0, m_pAvailUnit = 0,
     m_iSize = 4, m_iNumTaken = 0, m_iBlockSize = 4\<rparr>"

definition demo_start :: CRcvBuffer where
  "demo_start = (case CRcvBuffer_new 10 8 demo_queue True of Some b \<Rightarrow> b | None \<Rightarrow> undefined)"

definition demo_arrive :: "int \<Rightarrow> rb_op" where
  "demo_arrive X = Arrive True (demo_packet True 0) X (demo_packet True X)"

definition demo :: "rb_op list \<Rightarrow> nat set \<times> int \<times> CRcvBuffer" where
  "demo ops = (case run_events (rb_exec (demo_stream True)) ops ({}, 10, demo_start) of Some s \<Rightarrow> s | None \<Rightarrow> ({}, 10, demo_start))"

lemma demo_framed: "framed (demo_stream True)"
  by (simp add: framed_def demo_stream_def)

lemma demo_queue_ok: "uq_ok demo_queue" "taken_units demo_queue = {}"
proof -
  show t: "taken_units demo_queue = {}" by (auto simp: taken_units_def demo_queue_def)
  show "uq_ok demo_queue" by (simp add: uq_ok_def t) (simp add: demo_queue_def)
qed

lemma demo_new: "CRcvBuffer_new (sq 10) 8 demo_queue True = Some demo_start"
  by (simp add: demo_start_def CRcvBuffer_new_def sq_def)

lemma demo_run:
  obtains Q B b where "demo ops = (Q, B, b)" "run_events (rb_exec (demo_stream True)) ops ({}, 10, demo_start) = Some (Q, B, b)"
    "rb_inv Q (demo_stream True) B b"
proof -
  have "rb_inv {} (demo_stream True) 10 demo_start" using new_inv(1) [OF demo_queue_ok(1) _ _ demo_new] demo_queue_ok(2) by simp
  then show thesis using run_ok [OF demo_framed, of "{}" 10 demo_start "{}" ops] that by (auto simp: demo_def)
qed

theorem rcvbuf_runs_safe_witness:
  "\<exists>Q' B' b'. run_events (rb_exec (demo_stream True)) [demo_arrive 10, demo_arrive 12, Read 5 None, DropUpTo 12]
      (taken_units demo_queue, 10, demo_start) = Some (Q', B', b') \<and> 10 \<le> B' \<and> m_iStartSeqNo b' = sq B' \<and>
    taken_units (m_pUnitQueue b') = stored b' \<union> Q' \<and> (\<forall>k < 8. \<forall>p. pk b' k = Some p \<longrightarrow> carries b' (demo_stream True) (B' + int k) p)"
  using rcvbuf_runs_safe [OF demo_queue_ok(1) _ _ demo_new demo_framed, of "[demo_arrive 10, demo_arrive 12, Read 5 None, DropUpTo 12]"]
  by auto

lemma demo_first:
  "fst (snd (demo [demo_arrive 10])) = 10" "hasReadableInorderPkts (snd (snd (demo [demo_arrive 10])))"
  "pk (snd (snd (demo [demo_arrive 10]))) 0 \<noteq> None"
  by (code_simp, code_simp, code_simp)

theorem rcvbuf_at_most_once_witness:
  "\<exists>c b''. rb_insert 0 (snd (snd (demo [demo_arrive 10, Read 5 None]))) = Some (c, b'') \<and> c \<in> {- 1, - 2}"
proof -
  obtain Q B b where b: "demo [demo_arrive 10] = (Q, B, b)" "rb_inv Q (demo_stream True) B b"
      "run_events (rb_exec (demo_stream True)) [demo_arrive 10] ({}, 10, demo_start) = Some (Q, B, b)"
    by (rule demo_run)
  obtain Q' B' b' where b': "demo [demo_arrive 10, Read 5 None] = (Q', B', b')" "rb_inv Q' (demo_stream True) B' b'"
      "run_events (rb_exec (demo_stream True)) [demo_arrive 10, Read 5 None] ({}, 10, demo_start) = Some (Q', B', b')"
    by (rule demo_run)
  have run: "run_events (rb_exec (demo_stream True)) [Read 5 None] (Q, B, b) = Some (Q', B', b')" using b(3) b'(3) by simp
  have B: "B = 10" "pk b 0 \<noteq> None" using demo_first b(1) by simp_all
  have "case demo [demo_arrive 10, Read 5 None] of (Q, B, b) \<Rightarrow> near 10 B \<and> 0 < length (m_pUnits (m_pUnitQueue b)) \<and>
      \<not> m_bTaken (m_pUnits (m_pUnitQueue b) ! 0) \<and> (case unit_packet b 0 of None \<Rightarrow> False | Some p \<Rightarrow> carries b (demo_stream True) 10 p)"
    by code_simp
  then obtain p where p: "near (B + int 0) B'" "0 < length (m_pUnits (m_pUnitQueue b'))" "0 \<notin> taken_units (m_pUnitQueue b')"
      "unit_packet b' 0 = Some p" "carries b' (demo_stream True) (B + int 0) p" 
    using b'(1) B by (auto simp: taken_units_def split: option.splits)
  have "0 < m_szSize b" using ring_size [OF rb_invD(6) [OF b(2)]] by simp
  then show ?thesis using rcvbuf_at_most_once [OF demo_framed b(2) _ B(2) run p] b'(1) by auto
qed


theorem rcvbuf_insert_codes_witness:
  "\<exists>b'. rb_insert 0 demo_start = Some (insert_code demo_start 0, b') \<and> rb_inv {} (demo_stream True) 10 b'"
proof -
  have i: "rb_inv {} (demo_stream True) 10 demo_start" using new_inv(1) [OF demo_queue_ok(1) _ _ demo_new] demo_queue_ok(2) by simp
  have q: "m_pUnitQueue demo_start = demo_queue" by (simp add: demo_start_def CRcvBuffer_new_def)
  have u: "0 < length (m_pUnits (m_pUnitQueue demo_start))" "0 \<notin> taken_units (m_pUnitQueue demo_start)"
    unfolding q demo_queue_ok(2) by (simp_all add: demo_queue_def)
  have p: "unit_packet demo_start 0 = Some (demo_packet True 10)" by (simp add: unit_packet_def q) (simp add: demo_queue_def)
  have c: "carries demo_start (demo_stream True) 10 (demo_packet True 10)" by code_simp
  show ?thesis using rcvbuf_insert_codes [OF demo_framed i _ u p c] by (auto simp: m_iSeqNoTH_def)
qed

theorem rcvbuf_dropUpTo_witness:
  "case demo [demo_arrive 10, demo_arrive 12] of (Q, B, b) \<Rightarrow>
     \<exists>d b'. dropUpTo (sq 12) b = Some ((missing_in b 2, available_in b 2), b') \<and> rb_inv Q (demo_stream True) (12 + int d) b'"
proof -
  obtain Q B b where b: "demo [demo_arrive 10, demo_arrive 12] = (Q, B, b)" "rb_inv Q (demo_stream True) B b" by (rule demo_run)
  have "fst (snd (demo [demo_arrive 10, demo_arrive 12])) = 10" by code_simp
  then have B: "B = 10" using b(1) by simp
  have "\<bar>12 - B\<bar> < m_iSeqNoTH" using B by (simp add: m_iSeqNoTH_def)
  then obtain d b' where "dropUpTo (sq 12) b = Some ((missing_in b (nat (12 - B)), available_in b (nat (12 - B))), b')"
    "rb_inv Q (demo_stream True) (max B 12 + int d) b'"
    using rcvbuf_dropUpTo [OF b(2), of 12] by blast
  then show ?thesis using b(1) B by auto
qed

theorem rcvbuf_dropMessage_witness:
  "case demo [demo_arrive 10, demo_arrive 12] of (Q, B, b) \<Rightarrow>
     \<exists>cnt d b'. dropMessage (sq 11) (sq 12) (- 1) DROP_EXISTING b = Some (cnt, b') \<and> rb_inv Q (demo_stream True) (10 + int d) b'"
proof -
  obtain Q B b where b: "demo [demo_arrive 10, demo_arrive 12] = (Q, B, b)" "rb_inv Q (demo_stream True) B b" by (rule demo_run)
  have "fst (snd (demo [demo_arrive 10, demo_arrive 12])) = 10" by code_simp
  then have B: "B = 10" using b(1) by simp
  obtain cnt d b' where "dropMessage (sq 11) (sq 12) (- 1) DROP_EXISTING b = Some (cnt, b')" "rb_inv Q (demo_stream True) (B + int d) b'"
    using rcvbuf_dropMessage [OF b(2), of 11 12 "- 1" DROP_EXISTING] B by (auto simp: m_iSeqNoTH_def)
  then show ?thesis using b(1) B by auto
qed

theorem rcvbuf_delete_frees_witness:
  "case demo [demo_arrive 10, demo_arrive 12, Other_Take 3] of (Q, B, b) \<Rightarrow> \<exists>q. CRcvBuffer_delete b = Some q \<and> taken_units q = Q \<and> 3 \<in> Q"
proof -
  obtain Q B b where b: "demo [demo_arrive 10, demo_arrive 12, Other_Take 3] = (Q, B, b)" "rb_inv Q (demo_stream True) B b" by (rule demo_run)
  have "3 \<in> fst (demo [demo_arrive 10, demo_arrive 12, Other_Take 3])" by code_simp
  then show ?thesis using rcvbuf_delete_frees [OF b(2)] b(1) by auto
qed

section \<open>A message that waits\<close>


text \<open>In stream mode \<^verbatim>\<open>readBufferTo\<close> does not release dropped entries at all.  Packet 10 is read, 11 has been dropped: the start stays on
  the dropped entry, packet 12 is not readable; after 13 is dropped too the buffer claims to be readable, and reading consumes packet 12
  but returns -1 although a byte has been copied.\<close>

definition stream_demo :: "(int \<times> byte list \<times> bool option \<times> bool option \<times> int \<times> byte list) option" where
  "stream_demo = do {
     b \<leftarrow> CRcvBuffer_new 10 8 demo_queue False;
     (_, b) \<leftarrow> rb_insert 0 b;
     (_, b) \<leftarrow> dropMessage 11 11 (- 1) KEEP_EXISTING b;
     (n, d, b) \<leftarrow> readBuffer 0 4 (replicate 4 0) b;
     (_, b) \<leftarrow> rb_insert 1 (b\<lparr>m_pUnitQueue := put_packet 1 (demo_packet True 12) (m_pUnitQueue b)\<rparr>);
     let r = isRcvDataReady 0 b;
     (_, b) \<leftarrow> dropMessage 13 13 (- 1) KEEP_EXISTING b;
     let r' = isRcvDataReady 0 b;
     (n', d', b) \<leftarrow> readBuffer 0 4 (replicate 4 0) b;
     Some (n, d, r, r', n', d') }"

lemma rcvbuf_stream_stall:
  "stream_demo = Some (1, [10, 0, 0, 0], Some False, Some True, - 1, [12, 0, 0, 0])"
  by code_simp

end
