(* ===== verification/Simul.thy ===== *)
theory Simul
  imports Main
begin

text \<open>
  Components with an abstract specification: a relation between abstract and concrete states that every
  admissible call keeps, with a result the specification allows.  The lemmas carry the relation to all
  reachable states.
\<close>

text \<open>The states reachable by admissible calls, with the abstract state the specification gives them.\<close>

inductive reach :: "('e \<Rightarrow> 'a \<Rightarrow> 's \<Rightarrow> bool) \<Rightarrow> ('e \<Rightarrow> 's \<Rightarrow> ('r \<times> 's) option) \<Rightarrow> ('e \<Rightarrow> 'r \<Rightarrow> 'a \<Rightarrow> 'a) \<Rightarrow> 'a \<Rightarrow> 's \<Rightarrow> 'a \<Rightarrow> 's \<Rightarrow> bool"
  for ok step nxt a0 s0 where
  start: "reach ok step nxt a0 s0 a0 s0"
| call: "reach ok step nxt a0 s0 a s \<Longrightarrow> ok e a s \<Longrightarrow> step e s = Some (r, s') \<Longrightarrow> reach ok step nxt a0 s0 (nxt e r a) s'"

text \<open>A sequence of calls that checks their admissibility as it goes.\<close>

fun checked_run :: "('e \<Rightarrow> 'a \<Rightarrow> 's \<Rightarrow> bool) \<Rightarrow> ('e \<Rightarrow> 's \<Rightarrow> ('r \<times> 's) option) \<Rightarrow> ('e \<Rightarrow> 'r \<Rightarrow> 'a \<Rightarrow> 'a) \<Rightarrow> 'e list \<Rightarrow> 'a \<Rightarrow> 's \<Rightarrow> ('a \<times> 's) option" where
  "checked_run ok step nxt [] a s = Some (a, s)"
| "checked_run ok step nxt (e # es) a s = (if ok e a s
     then (case step e s of None \<Rightarrow> None | Some (r, s') \<Rightarrow> checked_run ok step nxt es (nxt e r a) s') else None)"

lemma checked_run_reach:
  assumes "reach ok step nxt a0 s0 a s" and "checked_run ok step nxt es a s = Some (a', s')"
  shows "reach ok step nxt a0 s0 a' s'"
  using assms by (induction es arbitrary: a s) (auto split: if_splits option.splits intro: reach.call)

locale simulation =
  fixes sim :: "'a \<Rightarrow> 's \<Rightarrow> bool" and ok :: "'e \<Rightarrow> 'a \<Rightarrow> 's \<Rightarrow> bool" and step :: "'e \<Rightarrow> 's \<Rightarrow> ('r \<times> 's) option"
    and allowed :: "'e \<Rightarrow> 'a \<Rightarrow> 'r \<Rightarrow> bool" and nxt :: "'e \<Rightarrow> 'r \<Rightarrow> 'a \<Rightarrow> 'a"
  assumes step_law: "sim a s \<Longrightarrow> ok e a s \<Longrightarrow> \<exists>r s'. step e s = Some (r, s') \<and> allowed e a r \<and> sim (nxt e r a) s'"
begin

lemma reach_sim:
  assumes "reach ok step nxt a0 s0 a s" and "sim a0 s0"
  shows "sim a s"
  using assms(1)
proof induction
  case (call a s e r s')
  then show ?case using step_law [of a s e] by auto
qed (rule assms(2))

lemma progress:
  assumes "reach ok step nxt a0 s0 a s" and "sim a0 s0" and "ok e a s"
  shows "\<exists>r s'. step e s = Some (r, s') \<and> allowed e a r \<and> reach ok step nxt a0 s0 (nxt e r a) s'"
  using step_law [OF reach_sim [OF assms(1,2)] assms(3)] reach.call [OF assms(1,3)] by blast

end

end
