(* ===== verification/SndBuffer.thy ===== *)
theory SndBuffer
  imports SeqNo Packet
begin

text \<open>
  The sender buffer: \<^verbatim>\<open>CSndBuffer\<close> of \<^verbatim>\<open>srtcore/buffer_snd.h\<close> and
  \<^verbatim>\<open>buffer_snd.cpp\<close>, a circular linked list of blocks, one per packet.

  A pointer to a block is its index in the list of the blocks allocated so far.  The memory behind
  \<^verbatim>\<open>m_pcData\<close>, a slice of \<^verbatim>\<open>m_iBlockLen\<close> bytes of one of the physical buffers, is kept
  with the block; of a physical buffer only its size remains.  What an allocation leaves in a new
  block is the argument \<open>g\<close>, and whether an allocation succeeds the argument \<open>mem\<close>.  Times are
  microseconds and the clock is an argument.  Following a bad pointer, writing outside a block and a
  failed assertion are \<^term>\<open>None\<close>; a thrown exception is a left value.  The moving averages
  (\<^verbatim>\<open>m_mavg\<close>) and the input rate (\<^verbatim>\<open>m_rateEstimator\<close>), which only feed statistics, are left out.
\<close>

unbundle bit_operations_syntax

section \<open>State\<close>

record Block =
  b_pcData :: "byte list"
  b_iLength :: int
  b_iMsgNoBitset :: u32
  b_iSeqNo :: int
  b_tsOriginTime :: int
  b_tsRexmitTime :: int
  b_iTTL :: int
  b_pNext :: nat

definition b_getMsgSeq :: "Block \<Rightarrow> int" where
  "b_getMsgSeq b = sint (b_iMsgNoBitset b AND BitsetMask 25 0)"

text \<open>The list \<open>sb_pBuffer\<close> is the chain of physical buffers, \<open>sb_pBlock\<close> the head pointer.\<close>

record CSndBuffer =
  sb_blocks :: "Block list"
  sb_pBlock :: nat
  sb_pFirstBlock :: nat
  sb_pCurrBlock :: nat
  sb_pLastBlock :: nat
  sb_pBuffer :: "nat list"
  sb_iNextMsgNo :: int
  sb_iSize :: int
  sb_iBlockLen :: int
  sb_iAuthTagSize :: int
  sb_iCount :: int
  sb_iBytesCount :: int
  sb_tsLastOriginTime :: int

definition block_at :: "CSndBuffer \<Rightarrow> nat \<Rightarrow> Block option" where
  "block_at s a = (if a < length (sb_blocks s) then Some (sb_blocks s ! a) else None)"

definition set_block :: "nat \<Rightarrow> Block \<Rightarrow> CSndBuffer \<Rightarrow> CSndBuffer" where
  "set_block a b s = s\<lparr>sb_blocks := (sb_blocks s)[a := b]\<rparr>"

text \<open>Copying bytes to the start of a block's memory.\<close>

definition block_write :: "byte list \<Rightarrow> Block \<Rightarrow> Block option" where
  "block_write bs b = (if length bs \<le> length (b_pcData b)
     then Some (b\<lparr>b_pcData := bs @ drop (length bs) (b_pcData b)\<rparr>) else None)"

definition fresh_memory :: "int \<Rightarrow> Block \<Rightarrow> byte list" where
  "fresh_memory n g = take (nat n) (b_pcData g @ replicate (nat n) 0)"

definition count_milliseconds :: "int \<Rightarrow> int" where
  "count_milliseconds t = c_div t 1000"

definition PacketBoundaryBits :: "PacketBoundary \<Rightarrow> u32" where
  "PacketBoundaryBits o' = bits_wrap 31 30 (boundary_code o')"

definition SRT_MSGTTL_INF :: int where "SRT_MSGTTL_INF = - 1"

section \<open>Construction and growth\<close>

text \<open>A size below one, for which the only block has no memory, is \<^term>\<open>None\<close>.\<close>

definition CSndBuffer_new :: "Block \<Rightarrow> int \<Rightarrow> int \<Rightarrow> int \<Rightarrow> CSndBuffer option" where
  "CSndBuffer_new g sz maxpld authtag = (if sz \<le> 0 \<or> maxpld < 0 then None else
     Some \<lparr>sb_blocks = map (\<lambda>i. g\<lparr>b_iMsgNoBitset := 0, b_pcData := fresh_memory maxpld g,
              b_pNext := (if int i < sz - 1 then i + 1 else 0)\<rparr>) [0..<nat sz],
           sb_pBlock = 0, sb_pFirstBlock = 0, sb_pCurrBlock = 0, sb_pLastBlock = 0,
           sb_pBuffer = [nat sz], sb_iNextMsgNo = 1, sb_iSize = sz, sb_iBlockLen = maxpld,
           sb_iAuthTagSize = authtag, sb_iCount = 0, sb_iBytesCount = 0, sb_tsLastOriginTime = 0\<rparr>)"

datatype alloc_result = ALLOC_OK | FAIL_BUFFER | FAIL_BLOCK nat

datatype snd_error = MN_MEMORY | BAD_ALLOC

text \<open>When the physical buffer has been chained and the allocation of a block fails, the buffer stays: the first
  failing block is reported as \<^verbatim>\<open>MN_MEMORY\<close>, a later one escapes as \<^verbatim>\<open>bad_alloc\<close>.\<close>

definition increase :: "Block \<Rightarrow> alloc_result \<Rightarrow> CSndBuffer \<Rightarrow> ((snd_error + unit) \<times> CSndBuffer) option" where
  "increase g mem s = (case sb_pBuffer s of [] \<Rightarrow> None
   | unitsize # _ \<Rightarrow>
     (let s1 = s\<lparr>sb_pBuffer := sb_pBuffer s @ [unitsize]\<rparr> in
      case mem of
        FAIL_BUFFER \<Rightarrow> Some (Inl MN_MEMORY, s)
      | FAIL_BLOCK k \<Rightarrow> Some (Inl (if k = 0 then MN_MEMORY else BAD_ALLOC), s1)
      | ALLOC_OK \<Rightarrow> do {
          lb \<leftarrow> block_at s1 (sb_pLastBlock s1);
          let nblk = length (sb_blocks s1);
          let new = map (\<lambda>i. g\<lparr>b_pcData := fresh_memory (sb_iBlockLen s1) g,
                b_pNext := (if i < unitsize - 1 then nblk + i + 1 else b_pNext lb)\<rparr>) [0..<max 1 unitsize];
          let s2 = set_block (sb_pLastBlock s1) (lb\<lparr>b_pNext := nblk\<rparr>) s1;
          Some (Inr (), s2\<lparr>sb_blocks := sb_blocks s2 @ new, sb_iSize := sb_iSize s2 + int unitsize\<rparr>) }))"

partial_function (option) grow ::
  "Block \<Rightarrow> (nat \<Rightarrow> alloc_result) \<Rightarrow> int \<Rightarrow> CSndBuffer \<Rightarrow> ((snd_error + unit) \<times> CSndBuffer) option" where
  "grow g mem iNumBlocks s =
     (if iNumBlocks + sb_iCount s \<ge> sb_iSize s then do {
        (r, s) \<leftarrow> increase g (mem 0) s;
        case r of Inl e \<Rightarrow> Some (Inl e, s) | Inr u \<Rightarrow> grow g (\<lambda>i. mem (Suc i)) iNumBlocks s }
      else Some (Inr (), s))"

declare grow.simps [code]

section \<open>Adding data\<close>

definition getMaxPacketLen :: "CSndBuffer \<Rightarrow> int" where
  "getMaxPacketLen s = sb_iBlockLen s - sb_iAuthTagSize s"

definition countNumPacketsRequired :: "int \<Rightarrow> int \<Rightarrow> int option" where
  "countNumPacketsRequired iPldLen iPktLen =
     (if iPktLen = 0 then None else Some (c_div (iPldLen + iPktLen - 1) iPktLen))"

definition next_msgno :: "int \<Rightarrow> int" where
  "next_msgno m = roll_inc msgno_over 1 m"

text \<open>The message word of block \<open>i\<close> of \<open>n\<close>.\<close>

definition msg_bits :: "int \<Rightarrow> u32 \<Rightarrow> int \<Rightarrow> int \<Rightarrow> u32" where
  "msg_bits msgno inorder i n = word_of_int msgno OR inorder OR
     (if i = 0 then PacketBoundaryBits PB_FIRST else 0) OR
     (if i = n - 1 then PacketBoundaryBits PB_LAST else 0)"

text \<open>The block loop of \<^verbatim>\<open>addBuffer\<close>, with \<open>k\<close> iterations to go: the pointer \<open>a\<close>, the sequence
  number and the buffer.\<close>

primrec add_blocks :: "nat \<Rightarrow> byte list \<Rightarrow> int \<Rightarrow> int \<Rightarrow> int \<Rightarrow> u32 \<Rightarrow> int \<Rightarrow> nat \<Rightarrow> int \<Rightarrow> CSndBuffer \<Rightarrow>
    (nat \<times> int \<times> CSndBuffer) option" where
  "add_blocks 0 data len iPktLen iNumBlocks inorder ttl a seqno s = Some (a, seqno, s)"
| "add_blocks (Suc k) data len iPktLen iNumBlocks inorder ttl a seqno s = (
     let i = iNumBlocks - int (Suc k);
         pktlen = min (len - i * iPktLen) iPktLen in
     if i * iPktLen < 0 \<or> pktlen < 0 \<or> i * iPktLen + pktlen > int (length data) then None
     else do {
       b \<leftarrow> block_at s a;
       b \<leftarrow> block_write (take (nat pktlen) (drop (nat (i * iPktLen)) data)) b;
       let b = b\<lparr>b_iLength := pktlen, b_iSeqNo := seqno,
              b_iMsgNoBitset := msg_bits (sb_iNextMsgNo s) inorder i iNumBlocks,
              b_iTTL := ttl, b_tsRexmitTime := 0, b_tsOriginTime := sb_tsLastOriginTime s\<rparr>;
       add_blocks k data len iPktLen iNumBlocks inorder ttl (b_pNext b) (incseq seqno) (set_block a b s) })"

definition add_message :: "byte list \<Rightarrow> int \<Rightarrow> int \<Rightarrow> int \<Rightarrow> int \<Rightarrow> SRT_MSGCTRL \<Rightarrow> CSndBuffer \<Rightarrow>
    (SRT_MSGCTRL \<times> CSndBuffer) option" where
  "add_message data len iPktLen iNumBlocks tnow mctrl s0 = do {
     let inorder = (if mc_inorder mctrl then BitsetMask 29 29 else 0);
     let s = s0\<lparr>sb_tsLastOriginTime := (if mc_srctime mctrl \<noteq> 0 then mc_srctime mctrl else tnow)\<rparr>;
     let mctrl = mctrl\<lparr>mc_srctime := sb_tsLastOriginTime s\<rparr>;
     let (mctrl, s) = (if mc_msgno mctrl = SRT_MSGNO_NONE
        then (mctrl\<lparr>mc_msgno := sb_iNextMsgNo s\<rparr>, s)
        else (mctrl, s\<lparr>sb_iNextMsgNo := mc_msgno mctrl\<rparr>));
     (a, seqno, s) \<leftarrow> add_blocks (nat iNumBlocks) data len iPktLen iNumBlocks inorder (mc_msgttl mctrl)
        (sb_pLastBlock s) (mc_pktseq mctrl) s;
     let s = s\<lparr>sb_pLastBlock := a, sb_iCount := sb_iCount s + iNumBlocks, sb_iBytesCount := sb_iBytesCount s + len\<rparr>;
     Some (mctrl\<lparr>mc_pktseq := seqno\<rparr>, s\<lparr>sb_iNextMsgNo := next_msgno (sb_iNextMsgNo s)\<rparr>) }"

definition addBuffer :: "Block \<Rightarrow> (nat \<Rightarrow> alloc_result) \<Rightarrow> int \<Rightarrow> byte list \<Rightarrow> int \<Rightarrow> SRT_MSGCTRL \<Rightarrow> CSndBuffer \<Rightarrow>
    ((snd_error + SRT_MSGCTRL) \<times> CSndBuffer) option" where
  "addBuffer g mem tnow data len mctrl s = do {
     let iPktLen = getMaxPacketLen s;
     iNumBlocks \<leftarrow> countNumPacketsRequired len iPktLen;
     (r, s) \<leftarrow> grow g mem iNumBlocks s;
     case r of
       Inl e \<Rightarrow> Some (Inl e, s)
     | Inr u \<Rightarrow> map_option (\<lambda>(mctrl, s). (Inr mctrl, s)) (add_message data len iPktLen iNumBlocks tnow mctrl s) }"

text \<open>An input file: the bytes still to be read, and whether the stream has failed or met its end.\<close>

record fstream =
  fs_rest :: "byte list"
  fs_failed :: bool

definition fs_read :: "int \<Rightarrow> fstream \<Rightarrow> byte list \<times> fstream" where
  "fs_read n f = (let bs = take (nat n) (fs_rest f) in
     (bs, f\<lparr>fs_rest := drop (nat n) (fs_rest f), fs_failed := fs_failed f \<or> int (length (fs_rest f)) < n\<rparr>))"

primrec file_blocks :: "nat \<Rightarrow> int \<Rightarrow> int \<Rightarrow> int \<Rightarrow> nat \<Rightarrow> int \<Rightarrow> fstream \<Rightarrow> CSndBuffer \<Rightarrow>
    (nat \<times> int \<times> fstream \<times> CSndBuffer) option" where
  "file_blocks 0 len iPktLen iNumBlocks a tot f s = Some (a, tot, f, s)"
| "file_blocks (Suc k) len iPktLen iNumBlocks a tot f s = (
     let i = iNumBlocks - int (Suc k);
         pktlen = min (len - i * iPktLen) iPktLen in
     if fs_failed f then Some (a, tot, f, s)
     else do {
       b \<leftarrow> block_at s a;
       let (bs, f) = fs_read pktlen f;
       b \<leftarrow> block_write bs b;
       if bs = [] then Some (a, tot, f, set_block a b s)
       else do {
         let b = b\<lparr>b_iMsgNoBitset := msg_bits (sb_iNextMsgNo s) (BitsetMask 29 29) i iNumBlocks,
                b_iLength := int (length bs), b_iTTL := SRT_MSGTTL_INF\<rparr>;
         file_blocks k len iPktLen iNumBlocks (b_pNext b) (tot + int (length bs)) f (set_block a b s) } })"

definition addBufferFromFile :: "Block \<Rightarrow> (nat \<Rightarrow> alloc_result) \<Rightarrow> fstream \<Rightarrow> int \<Rightarrow> CSndBuffer \<Rightarrow>
    ((snd_error + int) \<times> fstream \<times> CSndBuffer) option" where
  "addBufferFromFile g mem f len s = do {
     let iPktLen = getMaxPacketLen s;
     iNumBlocks \<leftarrow> countNumPacketsRequired len iPktLen;
     (r, s) \<leftarrow> grow g mem iNumBlocks s;
     case r of
       Inl e \<Rightarrow> Some (Inl e, f, s)
     | Inr u \<Rightarrow> do {
         (a, tot, f, s) \<leftarrow> file_blocks (nat iNumBlocks) len iPktLen iNumBlocks (sb_pLastBlock s) 0 f s;
         let s = s\<lparr>sb_pLastBlock := a, sb_iCount := sb_iCount s + iNumBlocks, sb_iBytesCount := sb_iBytesCount s + tot\<rparr>;
         let m = sb_iNextMsgNo s + 1;
         Some (Inr tot, f, s\<lparr>sb_iNextMsgNo := (if m = sint (BitsetMask 25 0) then 1 else m)\<rparr>) } }"

section \<open>Reading\<close>

text \<open>\<^verbatim>\<open>setLength\<close> takes a \<^verbatim>\<open>size_t\<close>, so that a negative length fails its assertion.\<close>

definition setLength :: "int \<Rightarrow> int \<Rightarrow> CPacket \<Rightarrow> CPacket option" where
  "setLength len cap p = (if 0 \<le> len \<and> len \<le> cap then Some (p\<lparr>m_Length := nat len\<rparr>) else None)"

definition set_seqno :: "int \<Rightarrow> CPacket \<Rightarrow> CPacket" where
  "set_seqno seqno p = p\<lparr>m_nHeader := (m_nHeader p)(SRT_PH_SEQNO := word_of_int seqno)\<rparr>"

definition set_msgflags :: "u32 \<Rightarrow> CPacket \<Rightarrow> CPacket" where
  "set_msgflags mf p = p\<lparr>m_nHeader := (m_nHeader p)(SRT_PH_MSGNO := mf)\<rparr>"

definition expired :: "int \<Rightarrow> Block \<Rightarrow> bool" where
  "expired now b \<longleftrightarrow> b_iTTL b \<ge> 0 \<and> count_milliseconds (now - b_tsOriginTime b) > b_iTTL b"

text \<open>The loop of the first \<^verbatim>\<open>readData\<close>; \<open>now i\<close> is the clock when block \<open>i\<close> of the call is looked at.\<close>

record read_result =
  rr_readlen :: int
  rr_packet :: CPacket
  rr_srctime :: int
  rr_seqnoinc :: int

partial_function (option) read_unique :: "int \<Rightarrow> (nat \<Rightarrow> int) \<Rightarrow> read_result \<Rightarrow> CSndBuffer \<Rightarrow>
    (read_result \<times> CSndBuffer) option" where
  "read_unique kflgs now r s =
     (if sb_pCurrBlock s = sb_pLastBlock s then Some (r, s)
      else do {
        b \<leftarrow> block_at s (sb_pCurrBlock s);
        pkt \<leftarrow> setLength (b_iLength b) (sb_iBlockLen s) ((rr_packet r)\<lparr>m_pcData := b_pcData b\<rparr>);
        let readlen = (if kflgs = - 1 then 0 else b_iLength b);
        let b = (if kflgs = - 1 then b
               else b\<lparr>b_iMsgNoBitset := b_iMsgNoBitset b OR bits_wrap 28 27 (word_of_int kflgs)\<rparr>);
        let pkt = set_msgflags (b_iMsgNoBitset b) (set_seqno (b_iSeqNo b) pkt);
        let s = (set_block (sb_pCurrBlock s) b s)\<lparr>sb_pCurrBlock := b_pNext b\<rparr>;
        let r = r\<lparr>rr_packet := pkt, rr_srctime := b_tsOriginTime b\<rparr>;
        if expired (now 0) b
        then read_unique kflgs (\<lambda>i. now (Suc i)) (r\<lparr>rr_readlen := 0, rr_seqnoinc := rr_seqnoinc r + 1\<rparr>) s
        else Some (r\<lparr>rr_readlen := readlen\<rparr>, s) })"

declare read_unique.simps [code]

definition readData :: "int \<Rightarrow> (nat \<Rightarrow> int) \<Rightarrow> CPacket \<Rightarrow> int \<Rightarrow> CSndBuffer \<Rightarrow> (read_result \<times> CSndBuffer) option" where
  "readData kflgs now pkt srctime s =
     read_unique kflgs now \<lparr>rr_readlen = 0, rr_packet = pkt, rr_srctime = srctime, rr_seqnoinc = 0\<rparr> s"

definition peekNextOriginal :: "CSndBuffer \<Rightarrow> int option" where
  "peekNextOriginal s = (if sb_pCurrBlock s = sb_pLastBlock s then Some 0
     else map_option b_tsOriginTime (block_at s (sb_pCurrBlock s)))"

text \<open>Following the chain \<open>n\<close> times, as the loops of \<^verbatim>\<open>getMsgNoAt\<close> and \<^verbatim>\<open>getPacketRexmitTime\<close> do.\<close>

primrec advance :: "nat \<Rightarrow> nat \<Rightarrow> CSndBuffer \<Rightarrow> nat option" where
  "advance 0 a s = Some a"
| "advance (Suc n) a s = do { b \<leftarrow> block_at s a; advance n (b_pNext b) s }"

definition getMsgNoAt :: "int \<Rightarrow> CSndBuffer \<Rightarrow> int option" where
  "getMsgNoAt offset s = (if offset \<ge> sb_iCount s then Some SRT_MSGNO_CONTROL
     else do { a \<leftarrow> advance (nat offset) (sb_pFirstBlock s) s; map_option b_getMsgSeq (block_at s a) })"

definition getPacketRexmitTime :: "int \<Rightarrow> CSndBuffer \<Rightarrow> int option" where
  "getPacketRexmitTime offset s =
     do { a \<leftarrow> advance (nat offset) (sb_pFirstBlock s) s; map_option b_tsRexmitTime (block_at s a) }"

primrec advance_before_last :: "nat \<Rightarrow> nat \<Rightarrow> CSndBuffer \<Rightarrow> nat option" where
  "advance_before_last 0 a s = Some a"
| "advance_before_last (Suc n) a s = (if a = sb_pLastBlock s then Some a
     else do { b \<leftarrow> block_at s a; advance_before_last n (b_pNext b) s })"

definition READ_NONE :: int where "READ_NONE = 0"
definition READ_DROP :: int where "READ_DROP = - 1"

record DropRange =
  dr_begin :: int
  dr_end :: int
  dr_msgno :: int

partial_function (option) drop_expired :: "int \<Rightarrow> nat \<Rightarrow> bool \<Rightarrow> int \<Rightarrow> CSndBuffer \<Rightarrow>
    (nat \<times> int \<times> CSndBuffer) option" where
  "drop_expired msgno p move msglen s =
     (if p = sb_pLastBlock s then Some (p, msglen, s)
      else do {
        b \<leftarrow> block_at s p;
        if msgno = b_getMsgSeq b
        then (let move = (move \<or> p = sb_pCurrBlock s) in
              drop_expired msgno (b_pNext b) move (msglen + 1)
                (if move then s\<lparr>sb_pCurrBlock := b_pNext b\<rparr> else s))
        else Some (p, msglen, s) })"

declare drop_expired.simps [code]

record rexmit_result =
  rx_return :: int
  rx_packet :: CPacket
  rx_srctime :: int
  rx_drop :: DropRange

text \<open>The second \<^verbatim>\<open>readData\<close>; \<open>now\<close> is the clock of the expiry test and \<open>now'\<close> that of the
  retransmission time.\<close>

definition readData_rexmit :: "int \<Rightarrow> int \<Rightarrow> int \<Rightarrow> CPacket \<Rightarrow> int \<Rightarrow> DropRange \<Rightarrow> CSndBuffer \<Rightarrow>
    (rexmit_result \<times> CSndBuffer) option" where
  "readData_rexmit offset now now' pkt srctime drp s = do {
     a \<leftarrow> advance_before_last (nat offset) (sb_pFirstBlock s) s;
     if a = sb_pLastBlock s
     then Some (\<lparr>rx_return = READ_NONE, rx_packet = pkt, rx_srctime = srctime, rx_drop = drp\<rparr>, s)
     else do {
       b \<leftarrow> block_at s a;
       if b_iSeqNo b \<noteq> getSeqNo pkt then None
       else if expired now b then do {
         (p, msglen, s) \<leftarrow> drop_expired (b_getMsgSeq b) (b_pNext b) False 1 s;
         let drp = \<lparr>dr_begin = getSeqNo pkt, dr_end = incseq_by (getSeqNo pkt) (msglen - 1), dr_msgno = b_getMsgSeq b\<rparr>;
         bp \<leftarrow> block_at s p;
         if dr_end drp = decseq (b_iSeqNo bp)
         then Some (\<lparr>rx_return = READ_DROP, rx_packet = pkt, rx_srctime = srctime, rx_drop = drp\<rparr>, s)
         else None }
       else do {
         pkt \<leftarrow> setLength (b_iLength b) (sb_iBlockLen s) (pkt\<lparr>m_pcData := b_pcData b\<rparr>);
         let s = set_block a (b\<lparr>b_tsRexmitTime := now'\<rparr>) s;
         Some (\<lparr>rx_return = b_iLength b, rx_packet = set_msgflags (b_iMsgNoBitset b) pkt,
                rx_srctime = b_tsOriginTime b, rx_drop = drp\<rparr>, s) } } }"

section \<open>Acknowledging and dropping\<close>

primrec ack_blocks :: "nat \<Rightarrow> bool \<Rightarrow> CSndBuffer \<Rightarrow> (bool \<times> CSndBuffer) option" where
  "ack_blocks 0 move s = Some (move, s)"
| "ack_blocks (Suc n) move s = do {
     b \<leftarrow> block_at s (sb_pFirstBlock s);
     ack_blocks n (move \<or> sb_pFirstBlock s = sb_pCurrBlock s)
       (s\<lparr>sb_iBytesCount := sb_iBytesCount s - b_iLength b, sb_pFirstBlock := b_pNext b\<rparr>) }"

definition ackData :: "int \<Rightarrow> CSndBuffer \<Rightarrow> CSndBuffer option" where
  "ackData offset s = do {
     let offset = (if offset > sb_iCount s then sb_iCount s else offset);
     (move, s) \<leftarrow> ack_blocks (nat offset) False s;
     let s = (if move then s\<lparr>sb_pCurrBlock := sb_pFirstBlock s\<rparr> else s);
     Some (s\<lparr>sb_iCount := sb_iCount s - offset\<rparr>) }"

text \<open>The loop of \<^verbatim>\<open>dropLateData\<close> with at most \<open>n\<close> iterations to go.\<close>

primrec late_blocks :: "nat \<Rightarrow> int \<Rightarrow> int \<Rightarrow> int \<Rightarrow> bool \<Rightarrow> int \<Rightarrow> CSndBuffer \<Rightarrow>
    (int \<times> int \<times> bool \<times> int \<times> CSndBuffer) option" where
  "late_blocks 0 too_late dpkts dbytes move msgno s = Some (dpkts, dbytes, move, msgno, s)"
| "late_blocks (Suc n) too_late dpkts dbytes move msgno s = do {
     b \<leftarrow> block_at s (sb_pFirstBlock s);
     if b_tsOriginTime b < too_late
     then late_blocks n too_late (dpkts + 1) (dbytes + b_iLength b)
            (move \<or> sb_pFirstBlock s = sb_pCurrBlock s) (b_getMsgSeq b) (s\<lparr>sb_pFirstBlock := b_pNext b\<rparr>)
     else Some (dpkts, dbytes, move, msgno, s) }"

text \<open>The results are the number of packets, the bytes and the first message number kept.\<close>

definition dropLateData :: "int \<Rightarrow> CSndBuffer \<Rightarrow> ((int \<times> int \<times> int) \<times> CSndBuffer) option" where
  "dropLateData too_late s = do {
     (dpkts, dbytes, move, msgno, s) \<leftarrow> late_blocks (nat (sb_iCount s)) too_late 0 0 False 0 s;
     let s = (if move then s\<lparr>sb_pCurrBlock := sb_pFirstBlock s\<rparr> else s);
     Some ((dpkts, dbytes, next_msgno msgno),
           s\<lparr>sb_iCount := sb_iCount s - dpkts, sb_iBytesCount := sb_iBytesCount s - dbytes\<rparr>) }"

section \<open>State queries and destruction\<close>

definition getCurrBufSize :: "CSndBuffer \<Rightarrow> int" where
  "getCurrBufSize s = sb_iCount s"

text \<open>Packets, bytes and the time span in milliseconds.\<close>

definition getCurrBufSize_span :: "CSndBuffer \<Rightarrow> (int \<times> int \<times> int) option" where
  "getCurrBufSize_span s = (if 0 < sb_iCount s then do {
       b \<leftarrow> block_at s (sb_pFirstBlock s);
       Some (sb_iCount s, sb_iBytesCount s, count_milliseconds (sb_tsLastOriginTime s - b_tsOriginTime b) + 1) }
     else Some (sb_iCount s, sb_iBytesCount s, 0))"

definition getBufferingDelay :: "int \<Rightarrow> CSndBuffer \<Rightarrow> int option" where
  "getBufferingDelay tnow s = (if sb_iCount s = 0 then Some 0
     else map_option (\<lambda>b. tnow - b_tsOriginTime b) (block_at s (sb_pFirstBlock s)))"

text \<open>The block loop of the destructor collects the blocks it has freed; freeing one twice is \<^term>\<open>None\<close>.\<close>

partial_function (option) free_blocks :: "nat \<Rightarrow> nat list \<Rightarrow> CSndBuffer \<Rightarrow> nat list option" where
  "free_blocks pb freed s =
     (if pb = sb_pBlock s then (if pb \<in> set freed then None else Some (freed @ [pb]))
      else do {
        b \<leftarrow> block_at s pb;
        if pb \<in> set freed then None else free_blocks (b_pNext b) (freed @ [pb]) s })"

declare free_blocks.simps [code]

definition CSndBuffer_delete :: "CSndBuffer \<Rightarrow> nat list option" where
  "CSndBuffer_delete s = do { b \<leftarrow> block_at s (sb_pBlock s); free_blocks (b_pNext b) [] s }"

end
