(* ===== verification/SndRing.thy ===== *)
theory SndRing
  imports SndBuffer
begin

text \<open>
  The linked list of the sender buffer as a queue.  \<open>snd_ok R q c s\<close> says that the blocks of the buffer
  \<open>s\<close>, followed from \<^verbatim>\<open>m_pFirstBlock\<close>, are those of the list \<open>R\<close>, that the occupied ones
  hold the packets \<open>q\<close>, and that \<open>c\<close> of these have been taken out for sending.  Each operation is then
  an operation on \<open>q\<close> and \<open>c\<close>.
\<close>

record spkt =
  p_seq :: int
  p_bits :: u32
  p_data :: "byte list"
  p_origin :: int
  p_ttl :: int
  p_rexmit :: int

definition abs_block :: "Block \<Rightarrow> spkt" where
  "abs_block b = \<lparr>p_seq = b_iSeqNo b, p_bits = b_iMsgNoBitset b, p_data = take (nat (b_iLength b)) (b_pcData b),
     p_origin = b_tsOriginTime b, p_ttl = b_iTTL b, p_rexmit = b_tsRexmitTime b\<rparr>"

definition ring :: "nat list \<Rightarrow> Block list \<Rightarrow> bool" where
  "ring R bs \<longleftrightarrow> R \<noteq> [] \<and> distinct R \<and> set R = {0..<length bs} \<and>
     (\<forall>i < length R. b_pNext (bs ! (R ! i)) = R ! (Suc i mod length R))"

definition snd_ok :: "nat list \<Rightarrow> spkt list \<Rightarrow> nat \<Rightarrow> CSndBuffer \<Rightarrow> bool" where
  "snd_ok R q c s \<longleftrightarrow> ring R (sb_blocks s) \<and> sb_iSize s = int (length R) \<and> sb_iCount s = int (length q) \<and>
     length q < length R \<and> c \<le> length q \<and> sb_pFirstBlock s = R ! 0 \<and> sb_pCurrBlock s = R ! c \<and>
     sb_pLastBlock s = R ! length q \<and> sb_iBytesCount s = (\<Sum>p \<leftarrow> q. int (length (p_data p))) \<and>
     0 \<le> sb_iBlockLen s \<and> (\<forall>b \<in> set (sb_blocks s). int (length (b_pcData b)) = sb_iBlockLen s) \<and>
     (\<forall>i < length q. abs_block (sb_blocks s ! (R ! i)) = q ! i \<and>
        0 \<le> b_iLength (sb_blocks s ! (R ! i)) \<and> b_iLength (sb_blocks s ! (R ! i)) \<le> sb_iBlockLen s) \<and>
     sb_pBuffer s \<noteq> [] \<and> 0 < hd (sb_pBuffer s) \<and> sb_pBlock s < length (sb_blocks s)"

section \<open>The ring\<close>

lemma ring_addr: "ring R bs \<Longrightarrow> i < length R \<Longrightarrow> R ! i < length bs"
  using nth_mem [of i R] by (auto simp: ring_def)

lemma ring_inj: "ring R bs \<Longrightarrow> i < length R \<Longrightarrow> j < length R \<Longrightarrow> R ! i = R ! j \<longleftrightarrow> i = j"
  by (simp add: ring_def nth_eq_iff_index_eq)

lemma ring_length: "ring R bs \<Longrightarrow> length R = length bs"
  using distinct_card [of R] by (auto simp: ring_def)

lemma ring_next: "ring R bs \<Longrightarrow> Suc i < length R \<Longrightarrow> b_pNext (bs ! (R ! i)) = R ! Suc i"
  by (simp add: ring_def)

lemma ring_rotate1:
  assumes "ring R bs"
  shows "ring (rotate1 R) bs"
proof -
  have l: "0 < length R" using assms by (simp add: ring_def)
  have n: "rotate1 R ! i = R ! (Suc i mod length R)" if "i < length R" for i
    using that nth_rotate [of i R 1] by simp
  have "b_pNext (bs ! (rotate1 R ! i)) = rotate1 R ! (Suc i mod length R)" if "i < length R" for i
  proof -
    have "b_pNext (bs ! (R ! (Suc i mod length R))) = R ! (Suc (Suc i mod length R) mod length R)"
      using assms l by (simp add: ring_def)
    then show ?thesis using that l n [of i] n [of "Suc i mod length R"] by (simp add: mod_Suc_eq)
  qed
  then show ?thesis using assms by (simp add: ring_def)
qed

lemma ring_update:
  assumes "ring R bs" and "a < length bs" and "b_pNext b = b_pNext (bs ! a)"
  shows "ring R (bs[a := b])"
  using assms by (auto simp: ring_def nth_list_update)

lemma ring_insert:
  assumes r: "ring R bs" and n: "n < length R" and u: "0 < u"
    and new: "length new = u" "\<forall>i < u. b_pNext (new ! i) = (if i < u - 1 then length bs + i + 1 else b_pNext (bs ! (R ! n)))"
    and b: "b_pNext b = length bs"
  shows "ring (take (Suc n) R @ [length bs..<length bs + u] @ drop (Suc n) R) (bs[R ! n := b] @ new)"
    (is "ring ?R ?bs")
proof -
  have d: "distinct R" "set R = {0..<length bs}" using r by (simp_all add: ring_def)
  have R: "?R ! i = (if i \<le> n then R ! i else if i \<le> n + u then length bs + (i - Suc n) else R ! (i - u))" if "i < length R + u" for i
    using that n u by (auto simp: nth_append min_def Suc_diff_Suc)
  have bs: "?bs ! (R ! i) = (if i = n then b else bs ! (R ! i))" if "i < length R" for i
    using that ring_addr [OF r that] ring_inj [OF r that n] n by (auto simp: nth_append nth_list_update)
  have nx: "b_pNext (bs ! (R ! i)) = R ! (Suc i mod length R)" if "i < length R" for i
    using r that by (simp add: ring_def)
  have wrap: "?R ! (Suc (i + u) mod (length R + u)) = R ! (Suc i mod length R)" if "i < length R" "n \<le> i" for i
  proof (cases "Suc i = length R")
    case True
    then have "Suc (i + u) mod (length R + u) = 0" "Suc i mod length R = 0" by (metis add_Suc mod_self, simp)
    then show ?thesis using R [of 0] u n by (simp only:) simp
  next
    case False
    then have i: "Suc i < length R" using that by simp
    then have "Suc (i + u) mod (length R + u) = Suc (i + u)" by simp
    moreover have "?R ! Suc (i + u) = R ! Suc i" using R [of "Suc (i + u)"] i that n by simp
    ultimately show ?thesis using i by simp
  qed
  have "b_pNext (?bs ! (?R ! i)) = ?R ! (Suc i mod (length R + u))" if i: "i < length R + u" for i
  proof -
    consider "i < n" | "i = n" | "n < i" "i < n + u" | "i = n + u" | "n + u < i" by linarith
    then show ?thesis
    proof cases
      case 1
      then show ?thesis using n R [OF i] R [of "Suc i"] bs [of i] nx [of i] by simp
    next
      case 2
      then show ?thesis using n u R [OF i] R [of "Suc i"] bs [of i] b by simp
    next
      case 3
      have "?bs ! (length bs + (i - Suc n)) = new ! (i - Suc n)" by (simp add: nth_append)
      moreover have "i - Suc n < u - 1" using 3 u by linarith
      ultimately show ?thesis using 3 n R [OF i] R [of "Suc i"] new(2) by simp
    next
      case 4
      have "?bs ! (length bs + (i - Suc n)) = new ! (i - Suc n)" by (simp add: nth_append)
      moreover have "b_pNext (new ! (i - Suc n)) = b_pNext (bs ! (R ! n))" using new(2) 4 u by simp
      ultimately show ?thesis using 4 n u R [OF i] nx [OF n] wrap [of n] by simp
    next
      case 5
      have "Suc (i - u + u) = Suc i" "i - u \<noteq> n" "i - u < length R" using 5 i by auto
      then show ?thesis using 5 i R [OF i] bs [of "i - u"] nx [of "i - u"] wrap [of "i - u"] by simp
    qed
  qed
  moreover have "distinct ?R"
  proof -
    have "distinct (take (Suc n) R @ drop (Suc n) R)" using d by simp
    moreover have "set (take (Suc n) R) \<inter> {length bs..<length bs + u} = {}" "{length bs..<length bs + u} \<inter> set (drop (Suc n) R) = {}"
      using set_take_subset [of "Suc n" R, unfolded d(2)] set_drop_subset [of "Suc n" R, unfolded d(2)]
      by (fastforce simp del: set_take_subset set_drop_subset)+
    ultimately show ?thesis by (simp add: Int_Un_distrib del: append_take_drop_id)
  qed
  moreover have "set ?R = {0..<length ?bs}"
  proof -
    have "set (take (Suc n) R) \<union> set (drop (Suc n) R) = set R" by (metis append_take_drop_id set_append)
    moreover have "set ?R = (set (take (Suc n) R) \<union> set (drop (Suc n) R)) \<union> {length bs..<length bs + u}"
      by (simp only: set_append set_upt Un_ac)
    ultimately have "set ?R = {0..<length bs} \<union> {length bs..<length bs + u}" by (simp only: d(2))
    then show ?thesis by (simp only: ivl_disj_un_two(3) length_append length_list_update new(1))
  qed
  moreover have "length ?R = length R + u" "?R \<noteq> []" using n u by auto
  ultimately show ?thesis unfolding ring_def by metis
qed

section \<open>The invariant\<close>

lemma snd_ok_ring: "snd_ok R q c s \<Longrightarrow> ring R (sb_blocks s)"
  by (simp add: snd_ok_def)

lemma snd_ok_lens:
  assumes "snd_ok R q c s"
  shows "sb_iSize s = int (length R)" "sb_iCount s = int (length q)" "length q < length R" "c \<le> length q"
    "0 < length R" "0 < hd (sb_pBuffer s)" "0 \<le> sb_iBlockLen s" "0 < length (sb_blocks s)"
  using assms ring_length [of R "sb_blocks s"] by (auto simp: snd_ok_def)

lemma snd_ok_ptrs:
  assumes "snd_ok R q c s"
  shows "sb_pFirstBlock s = R ! 0" "sb_pCurrBlock s = R ! c" "sb_pLastBlock s = R ! length q"
  using assms by (auto simp: snd_ok_def)

text \<open>The block behind the \<open>i\<close>th pointer of the ring.\<close>

lemma snd_ok_at:
  assumes "snd_ok R q c s" and "i < length R"
  shows "block_at s (R ! i) = Some (sb_blocks s ! (R ! i))"
    "int (length (b_pcData (sb_blocks s ! (R ! i)))) = sb_iBlockLen s"
    "R ! i < length (sb_blocks s)"
  using assms ring_addr [OF snd_ok_ring [OF assms(1)] assms(2)] by (auto simp: block_at_def snd_ok_def)

lemma snd_ok_next:
  assumes "snd_ok R q c s" and "i < length q"
  shows "b_pNext (sb_blocks s ! (R ! i)) = R ! Suc i"
  using ring_next [OF snd_ok_ring [OF assms(1)]] assms snd_ok_lens [OF assms(1)] by simp

lemma snd_ok_same_ptr:
  assumes "snd_ok R q c s" and "i \<le> length q" and "j \<le> length q"
  shows "R ! i = R ! j \<longleftrightarrow> i = j"
  using ring_inj [OF snd_ok_ring [OF assms(1)]] assms snd_ok_lens [OF assms(1)] by simp

lemma snd_ok_block:
  assumes "snd_ok R q c s" and "i < length q"
  shows "abs_block (sb_blocks s ! (R ! i)) = q ! i" "0 \<le> b_iLength (sb_blocks s ! (R ! i))"
    "b_iLength (sb_blocks s ! (R ! i)) \<le> sb_iBlockLen s"
  using assms by (auto simp: snd_ok_def)

lemma snd_ok_fields:
  assumes "snd_ok R q c s" and "i < length q"
  shows "b_iSeqNo (sb_blocks s ! (R ! i)) = p_seq (q ! i)" "b_iMsgNoBitset (sb_blocks s ! (R ! i)) = p_bits (q ! i)"
    "take (nat (b_iLength (sb_blocks s ! (R ! i)))) (b_pcData (sb_blocks s ! (R ! i))) = p_data (q ! i)"
    "b_iLength (sb_blocks s ! (R ! i)) = int (length (p_data (q ! i)))"
    "b_tsOriginTime (sb_blocks s ! (R ! i)) = p_origin (q ! i)" "b_iTTL (sb_blocks s ! (R ! i)) = p_ttl (q ! i)"
    "b_tsRexmitTime (sb_blocks s ! (R ! i)) = p_rexmit (q ! i)"
proof -
  note b = snd_ok_block(1) [OF assms, symmetric]
  have "int (length (b_pcData (sb_blocks s ! (R ! i)))) = sb_iBlockLen s"
    using snd_ok_at [OF assms(1)] snd_ok_lens [OF assms(1)] assms(2) by simp
  then show "b_iLength (sb_blocks s ! (R ! i)) = int (length (p_data (q ! i)))"
    using snd_ok_block(2,3) [OF assms] unfolding b by (simp add: abs_block_def)
qed (simp_all add: snd_ok_block(1) [OF assms, symmetric] abs_block_def)

text \<open>The part of the state that only \<open>addBuffer\<close> changes.\<close>

definition snd_frame :: "CSndBuffer \<Rightarrow> CSndBuffer \<Rightarrow> bool" where
  "snd_frame s s' \<longleftrightarrow> sb_iNextMsgNo s' = sb_iNextMsgNo s \<and> sb_iBlockLen s' = sb_iBlockLen s \<and>
     sb_iAuthTagSize s' = sb_iAuthTagSize s \<and> sb_tsLastOriginTime s' = sb_tsLastOriginTime s"

lemma snd_frame_refl [simp]: "snd_frame s s" and snd_frame_trans: "snd_frame s t \<Longrightarrow> snd_frame t u \<Longrightarrow> snd_frame s u"
  by (simp_all add: snd_frame_def)

section \<open>Construction and growth\<close>

lemma fresh_memory_length: "0 \<le> n \<Longrightarrow> int (length (fresh_memory n g)) = n"
  by (simp add: fresh_memory_def)

lemma new_ok:
  assumes "0 < sz" and "0 \<le> maxpld"
  shows "\<exists>s. CSndBuffer_new g sz maxpld authtag = Some s \<and> snd_ok [0..<nat sz] [] 0 s \<and>
    sb_iNextMsgNo s = 1 \<and> sb_iBlockLen s = maxpld \<and> sb_iAuthTagSize s = authtag"
proof -
  have "Suc i mod nat sz = (if int i < sz - 1 then i + 1 else 0)" if "i < nat sz" for i
    using that assms by (cases "Suc i = nat sz") auto
  then show ?thesis using assms
    by (auto simp: CSndBuffer_new_def snd_ok_def ring_def fresh_memory_length)
qed

lemma increase_fails:
  assumes "snd_ok R q c s" and "mem \<noteq> ALLOC_OK"
  shows "\<exists>e s'. increase g mem s = Some (Inl e, s') \<and> snd_ok R q c s' \<and> snd_frame s s'"
  using assms by (cases mem; cases "sb_pBuffer s")
    (auto simp: increase_def snd_ok_def snd_frame_def Let_def)

lemma increase_ok:
  assumes ok: "snd_ok R q c s"
  shows "\<exists>R' s'. increase g ALLOC_OK s = Some (Inr (), s') \<and> snd_ok R' q c s' \<and> snd_frame s s' \<and>
    sb_iSize s' = sb_iSize s + int (hd (sb_pBuffer s)) \<and> hd (sb_pBuffer s') = hd (sb_pBuffer s)"
proof -
  note l = snd_ok_lens [OF ok] and r = snd_ok_ring [OF ok]
  let ?n = "length q" and ?bs = "sb_blocks s"
  define u where "u = hd (sb_pBuffer s)"
  obtain us where us: "sb_pBuffer s = u # us" using ok by (cases "sb_pBuffer s") (auto simp: snd_ok_def u_def)
  have u: "0 < u" using l u_def by simp
  define new where "new = map (\<lambda>i. g\<lparr>b_pcData := fresh_memory (sb_iBlockLen s) g,
      b_pNext := (if i < u - 1 then length ?bs + i + 1 else b_pNext (?bs ! (R ! ?n)))\<rparr>) [0..<u]"
  define b where "b = (?bs ! (R ! ?n))\<lparr>b_pNext := length ?bs\<rparr>"
  define s' where "s' = s\<lparr>sb_pBuffer := sb_pBuffer s @ [u], sb_blocks := ?bs[R ! ?n := b] @ new, sb_iSize := sb_iSize s + int u\<rparr>"
  have inc: "increase g ALLOC_OK s = Some (Inr (), s')"
    using u us snd_ok_at [OF ok l(3)] snd_ok_ptrs [OF ok]
    by (simp add: increase_def block_at_def set_block_def s'_def b_def new_def Let_def max_def split: if_splits)
  define R' where "R' = take (Suc ?n) R @ [length ?bs..<length ?bs + u] @ drop (Suc ?n) R"
  have ring: "ring R' (?bs[R ! ?n := b] @ new)"
    unfolding R'_def by (rule ring_insert [OF r l(3) u]) (auto simp: new_def b_def)
  have R': "R' ! i = R ! i" if "i \<le> ?n" for i using that l by (simp add: R'_def nth_append)
  have bs': "(?bs[R ! ?n := b] @ new) ! (R ! i) = ?bs ! (R ! i)" if "i < ?n" for i
    using that snd_ok_at(3) [OF ok] snd_ok_same_ptr [OF ok, of i ?n] l by (auto simp: nth_append nth_list_update)
  have mem: "int (length (b_pcData x)) = sb_iBlockLen s" if "x \<in> set (?bs[R ! ?n := b] @ new)" for x
  proof -
    have "set (?bs[R ! ?n := b]) \<subseteq> insert b (set ?bs)" by (rule set_update_subset_insert)
    then have "x = b \<or> x \<in> set ?bs \<or> x \<in> set new" using that by auto
    then show ?thesis using ok l fresh_memory_length [of "sb_iBlockLen s" g] snd_ok_at(2) [OF ok l(3)]
      by (auto simp: snd_ok_def b_def new_def)
  qed
  have lR: "length R' = length R + u" using l by (simp add: R'_def)
  have held: "\<forall>i < ?n. abs_block ((?bs[R ! ?n := b] @ new) ! (R' ! i)) = q ! i \<and>
      0 \<le> b_iLength ((?bs[R ! ?n := b] @ new) ! (R' ! i)) \<and> b_iLength ((?bs[R ! ?n := b] @ new) ! (R' ! i)) \<le> sb_iBlockLen s"
    using bs' R' snd_ok_block [OF ok] by simp
  have ok': "snd_ok R' q c s'"
    unfolding snd_ok_def s'_def using ring held mem lR l u us R' [of 0] R' [of c] R' [of ?n] ok [unfolded snd_ok_def]
    by simp
  have "snd_frame s s'" by (simp add: s'_def snd_frame_def)
  moreover have "sb_iSize s' = sb_iSize s + int (hd (sb_pBuffer s))" "hd (sb_pBuffer s') = hd (sb_pBuffer s)"
    by (simp_all add: s'_def us)
  ultimately show ?thesis using inc ok' by metis
qed

text \<open>The growth loop ends, with room for the new packets unless an allocation failed.\<close>

lemma grow_ok:
  assumes "snd_ok R q c s"
  shows "\<exists>r R' s'. grow g mem n s = Some (r, s') \<and> snd_ok R' q c s' \<and> snd_frame s s' \<and>
    (case r of Inl e \<Rightarrow> \<exists>i. mem i \<noteq> ALLOC_OK | Inr u \<Rightarrow> n + int (length q) < sb_iSize s')"
  using assms
proof (induction "nat (n + sb_iCount s - sb_iSize s + 1)" arbitrary: mem R s rule: less_induct)
  case less
  note ok = less.prems and l = snd_ok_lens [OF less.prems]
  show ?case
  proof (cases "n + sb_iCount s \<ge> sb_iSize s")
    case False
    then show ?thesis using ok l by (subst grow.simps) auto
  next
    case True
    show ?thesis
    proof (cases "mem 0 = ALLOC_OK")
      case fail: False
      obtain e s' where "increase g (mem 0) s = Some (Inl e, s')" "snd_ok R q c s'" "snd_frame s s'"
        using increase_fails [OF ok fail] by blast
      then show ?thesis using True fail by (subst grow.simps) auto
    next
      case alloc: True
      obtain R1 s1 where s1: "increase g (mem 0) s = Some (Inr (), s1)" "snd_ok R1 q c s1" "snd_frame s s1"
          "sb_iSize s1 = sb_iSize s + int (hd (sb_pBuffer s))" "hd (sb_pBuffer s1) = hd (sb_pBuffer s)"
        using increase_ok [OF ok] alloc by metis
      have "nat (n + sb_iCount s1 - sb_iSize s1 + 1) < nat (n + sb_iCount s - sb_iSize s + 1)"
        using s1 l snd_ok_lens [OF s1(2)] True by simp
      from less.hyps [OF this s1(2), of "\<lambda>i. mem (Suc i)"] obtain r R' s' where
        r: "grow g (\<lambda>i. mem (Suc i)) n s1 = Some (r, s')" "snd_ok R' q c s'" "snd_frame s1 s'"
        "case r of Inl e \<Rightarrow> \<exists>i. mem (Suc i) \<noteq> ALLOC_OK | Inr u \<Rightarrow> n + int (length q) < sb_iSize s'" by metis
      have "grow g mem n s = Some (r, s')" by (subst grow.simps) (simp add: True s1(1) r(1))
      moreover have "case r of Inl e \<Rightarrow> \<exists>i. mem i \<noteq> ALLOC_OK | Inr u \<Rightarrow> n + int (length q) < sb_iSize s'"
        using r(4) by (cases r) auto
      ultimately show ?thesis using r(2) snd_frame_trans [OF s1(3) r(3)] by metis
    qed
  qed
qed

end
