(* ===== verification/SndOps.thy ===== *)
theory SndOps
  imports SndRing
begin

text \<open>
  What each operation of the sender buffer does to the queue of packets: adding a message appends its
  packets, reading moves the sending point, acknowledging and dropping remove from the front.
\<close>

section \<open>Adding a message\<close>

text \<open>Packet \<open>i\<close> of the \<open>n\<close> packets of a message with at most \<open>pl\<close> bytes each.\<close>

definition msg_pkt :: "int \<Rightarrow> nat \<Rightarrow> SRT_MSGCTRL \<Rightarrow> byte list \<Rightarrow> nat \<Rightarrow> spkt" where
  "msg_pkt pl n m msg i = \<lparr>p_seq = (incseq ^^ i) (mc_pktseq m),
     p_bits = msg_bits (mc_msgno m) (if mc_inorder m then BitsetMask 29 29 else 0) (int i) (int n),
     p_data = take (nat pl) (drop (i * nat pl) msg), p_origin = mc_srctime m, p_ttl = mc_msgttl m, p_rexmit = 0\<rparr>"

definition num_packets :: "int \<Rightarrow> byte list \<Rightarrow> nat" where
  "num_packets pl msg = (length msg + nat pl - 1) div nat pl"

definition message_packets :: "int \<Rightarrow> SRT_MSGCTRL \<Rightarrow> byte list \<Rightarrow> spkt list" where
  "message_packets pl m msg = map (msg_pkt pl (num_packets pl msg) m msg) [0..<num_packets pl msg]"

text \<open>The control block as \<open>addBuffer\<close> completes it.\<close>

definition resolved :: "int \<Rightarrow> CSndBuffer \<Rightarrow> SRT_MSGCTRL \<Rightarrow> SRT_MSGCTRL" where
  "resolved tnow s m = m\<lparr>mc_srctime := (if mc_srctime m \<noteq> 0 then mc_srctime m else tnow),
     mc_msgno := (if mc_msgno m = SRT_MSGNO_NONE then sb_iNextMsgNo s else mc_msgno m)\<rparr>"

lemma concat_chunks: "concat (map (\<lambda>i. take k (drop (i * k) xs)) [0..<n]) = take (n * k) xs"
proof (induction n)
  case (Suc n)
  then show ?case using take_add [of "n * k" k xs] by (simp add: add.commute)
qed simp

lemma num_packets_enough: "0 < pl \<Longrightarrow> length msg \<le> num_packets pl msg * nat pl"
proof -
  assume "0 < pl"
  then have p: "0 < nat pl" by simp
  have "length msg + nat pl - 1 < (num_packets pl msg + 1) * nat pl"
    unfolding num_packets_def using p by (metis Suc_eq_plus1 dividend_less_div_times mult.commute mult_Suc)
  then show ?thesis using p by simp
qed

lemma message_concat: "0 < pl \<Longrightarrow> concat (map p_data (message_packets pl m msg)) = msg"
  using concat_chunks [of "nat pl" msg "num_packets pl msg"] num_packets_enough [of pl msg]
  by (simp add: message_packets_def msg_pkt_def comp_def)

lemma message_length [simp]: "length (message_packets pl m msg) = num_packets pl msg"
  by (simp add: message_packets_def)

lemma sum_lengths: "(\<Sum>p \<leftarrow> ps. int (length (p_data p))) = int (length (concat (map p_data ps)))"
  by (induction ps) auto

lemma countNumPacketsRequired_eq:
  assumes "0 < pl" and "0 \<le> len" and "len \<le> int (length data)"
  shows "countNumPacketsRequired len pl = Some (int (num_packets pl (take (nat len) data)))"
proof -
  have "c_div (len + pl - 1) pl = int ((nat len + nat pl - 1) div nat pl)"
    using assms by (simp add: zdiv_int of_nat_diff)
  then show ?thesis using assms by (simp add: countNumPacketsRequired_def num_packets_def min_absorb2 nat_le_iff)
qed

text \<open>Filling the block behind the last pointer.\<close>

lemma fill_block:
  assumes ok: "snd_ok R q c s" and room: "Suc (length q) < length R"
    and b: "b_pNext b = b_pNext (sb_blocks s ! (R ! length q))" "int (length (b_pcData b)) = sb_iBlockLen s"
      "0 \<le> b_iLength b" "b_iLength b \<le> sb_iBlockLen s"
  shows "snd_ok R (q @ [abs_block b]) c (s\<lparr>sb_blocks := (sb_blocks s)[R ! length q := b], sb_pLastBlock := R ! Suc (length q),
     sb_iCount := sb_iCount s + 1, sb_iBytesCount := sb_iBytesCount s + b_iLength b\<rparr>)"
proof -
  note l = snd_ok_lens [OF ok] and r = snd_ok_ring [OF ok]
  let ?bs = "(sb_blocks s)[R ! length q := b]"
  have a: "R ! length q < length (sb_blocks s)" using snd_ok_at(3) [OF ok l(3)] .
  have ring: "ring R ?bs" using ring_update [OF r a b(1)] .
  have bs: "?bs ! (R ! i) = (if i = length q then b else sb_blocks s ! (R ! i))" if "i \<le> length q" for i
    using that a snd_ok_same_ptr [OF ok that, of "length q"] by auto
  have mem: "\<forall>x \<in> set ?bs. int (length (b_pcData x)) = sb_iBlockLen s"
    using set_update_subset_insert [of "sb_blocks s" "R ! length q" b] b(2) ok by (auto simp: snd_ok_def)
  have held: "\<forall>i < length (q @ [abs_block b]). abs_block (?bs ! (R ! i)) = (q @ [abs_block b]) ! i \<and>
      0 \<le> b_iLength (?bs ! (R ! i)) \<and> b_iLength (?bs ! (R ! i)) \<le> sb_iBlockLen s"
    using bs snd_ok_block [OF ok] b(3,4) by (auto simp: nth_append less_Suc_eq)
  have "int (length (p_data (abs_block b))) = b_iLength b" using b by (simp add: abs_block_def)
  then show ?thesis
    unfolding snd_ok_def using ring mem held room l ok [unfolded snd_ok_def] by simp
qed

lemma add_blocks_ok:
  assumes pl: "0 < pl" "pl \<le> sb_iBlockLen s" and len: "0 \<le> len" "len \<le> int (length data)"
    and n: "n = num_packets pl (take (nat len) data)" and k: "k \<le> n"
    and m: "mc_msgno m = sb_iNextMsgNo s" "mc_srctime m = sb_tsLastOriginTime s"
    and ok: "snd_ok R q c (s\<lparr>sb_pLastBlock := a, sb_iCount := cnt, sb_iBytesCount := y\<rparr>)" and room: "length q + k < length R"
  shows "\<exists>bs. add_blocks k data len pl (int n) (if mc_inorder m then BitsetMask 29 29 else 0) (mc_msgttl m) a
       ((incseq ^^ (n - k)) (mc_pktseq m)) s = Some (R ! (length q + k), (incseq ^^ n) (mc_pktseq m), s\<lparr>sb_blocks := bs\<rparr>) \<and>
     snd_ok R (q @ map (msg_pkt pl n m (take (nat len) data)) [n - k..<n]) c
       (s\<lparr>sb_blocks := bs, sb_pLastBlock := R ! (length q + k), sb_iCount := cnt + int k,
          sb_iBytesCount := y + (\<Sum>p \<leftarrow> map (msg_pkt pl n m (take (nat len) data)) [n - k..<n]. int (length (p_data p)))\<rparr>)"
  using k pl(2) m ok room
proof (induction k arbitrary: q a s cnt y)
  case 0
  then have "a = R ! length q" "s\<lparr>sb_blocks := sb_blocks s\<rparr> = s" by (auto simp: snd_ok_def)
  then show ?case using 0 by (intro exI [of _ "sb_blocks s"]) simp
next
  case (Suc k)
  note ok = Suc.prems(5) and l = snd_ok_lens [OF Suc.prems(5)]
  let ?i = "n - Suc k" and ?msg = "take (nat len) data" and ?b = "sb_blocks s ! (R ! length q)"
  have i: "int n - int (Suc k) = int ?i" "Suc ?i = n - k" "?i < n" "[?i..<n] = ?i # [n - k..<n]"
    using Suc.prems(1) by (auto simp: upt_conv_Cons Suc_diff_Suc)
  have ib: "?i * nat pl < nat len"
  proof -
    have "(n - 1) * nat pl < nat len"
    proof -
      have "n * nat pl \<le> nat len + nat pl - 1" using n len by (simp add: num_packets_def times_div_less_eq_dividend mult.commute)
      moreover have "0 < n" using i by simp
      ultimately show ?thesis using pl(1) by (cases n) auto
    qed
    then show ?thesis using i(3) mult_le_mono1 [of ?i "n - 1" "nat pl"] by linarith
  qed
  define p where "p = min (len - int ?i * pl) pl"
  have ipl: "int ?i * pl = int (?i * nat pl)" using pl by simp
  have p: "0 \<le> p" "p \<le> pl" "int ?i * pl + p \<le> int (length data)" "0 \<le> int ?i * pl" "nat (int ?i * pl) = ?i * nat pl"
    using ib len pl unfolding p_def ipl by (auto simp del: of_nat_mult)
  define bytes where "bytes = take (nat p) (drop (?i * nat pl) data)"
  have bytes: "bytes = take (nat pl) (drop (?i * nat pl) ?msg)" "int (length bytes) = p"
  proof -
    have "nat p = min (nat len - ?i * nat pl) (nat pl)" using ib pl len unfolding p_def ipl by (simp add: min_def del: of_nat_mult) linarith
    then show "bytes = take (nat pl) (drop (?i * nat pl) ?msg)" by (simp add: bytes_def drop_take min.commute)
    show "int (length bytes) = p" using p unfolding bytes_def ipl by (simp del: of_nat_mult)
  qed
  have ql: "length q < length R" using Suc.prems(6) by simp
  have a: "a = R ! length q" using ok by (simp add: snd_ok_def)
  have at: "block_at s (R ! length q) = Some ?b" "int (length (b_pcData ?b)) = sb_iBlockLen s"
    using snd_ok_at [OF ok ql] by (simp_all add: block_at_def)
  define b where "b = ?b\<lparr>b_pcData := bytes @ drop (length bytes) (b_pcData ?b), b_iLength := p, b_iSeqNo := (incseq ^^ ?i) (mc_pktseq m),
      b_iMsgNoBitset := msg_bits (sb_iNextMsgNo s) (if mc_inorder m then BitsetMask 29 29 else 0) (int ?i) (int n),
      b_iTTL := mc_msgttl m, b_tsRexmitTime := 0, b_tsOriginTime := sb_tsLastOriginTime s\<rparr>"
  have w: "length bytes \<le> length (b_pcData ?b)" using at bytes p Suc.prems(2) by simp
  have b: "b_pNext b = b_pNext ?b" "int (length (b_pcData b)) = sb_iBlockLen s" "b_iLength b = p"
    using at w by (simp_all add: b_def)
  have "take (nat p) (bytes @ drop (length bytes) (b_pcData ?b)) = bytes" by (simp add: bytes(2) [symmetric])
  then have abs: "abs_block b = msg_pkt pl n m ?msg ?i"
    using Suc.prems(3,4) bytes(1) by (simp add: abs_block_def b_def msg_pkt_def)
  have nx: "b_pNext ?b = R ! Suc (length q)"
    using ring_next [OF snd_ok_ring [OF ok]] Suc.prems(6) by simp
  have step: "add_blocks (Suc k) data len pl (int n) (if mc_inorder m then BitsetMask 29 29 else 0) (mc_msgttl m) a
       ((incseq ^^ ?i) (mc_pktseq m)) s = add_blocks k data len pl (int n) (if mc_inorder m then BitsetMask 29 29 else 0) (mc_msgttl m)
       (R ! Suc (length q)) ((incseq ^^ (n - k)) (mc_pktseq m)) (s\<lparr>sb_blocks := (sb_blocks s)[R ! length q := b]\<rparr>)"
    unfolding add_blocks.simps Let_def i(1) p_def [symmetric] p(5) bytes_def [symmetric] a at(1) i(2) [symmetric]
    using p(1-3) not_less [THEN iffD2, OF p(4)] w nx by (simp add: block_write_def set_block_def b_def del: of_nat_diff)
  have "snd_ok R (q @ [abs_block b]) c ((s\<lparr>sb_pLastBlock := a, sb_iCount := cnt, sb_iBytesCount := y\<rparr>)\<lparr>sb_blocks := (sb_blocks s)[R ! length q := b],
      sb_pLastBlock := R ! Suc (length q), sb_iCount := cnt + 1, sb_iBytesCount := y + p\<rparr>)"
    using fill_block [OF ok, of b] b p Suc.prems(2,6) by simp
  then have ok': "snd_ok R (q @ [msg_pkt pl n m ?msg ?i]) c ((s\<lparr>sb_blocks := (sb_blocks s)[R ! length q := b]\<rparr>)\<lparr>
      sb_pLastBlock := R ! Suc (length q), sb_iCount := cnt + 1, sb_iBytesCount := y + p\<rparr>)" by (simp add: abs)
  have pd: "int (length (p_data (msg_pkt pl n m ?msg ?i))) = p" using bytes(2) by (simp only: msg_pkt_def spkt.simps bytes(1))
  let ?s = "s\<lparr>sb_blocks := (sb_blocks s)[R ! length q := b]\<rparr>"
  have pre: "k \<le> n" "pl \<le> sb_iBlockLen ?s" "mc_msgno m = sb_iNextMsgNo ?s" "mc_srctime m = sb_tsLastOriginTime ?s"
    "length (q @ [msg_pkt pl n m ?msg ?i]) + k < length R" using Suc.prems(1-4,6) by simp_all
  obtain bs where bs: "add_blocks k data len pl (int n) (if mc_inorder m then BitsetMask 29 29 else 0) (mc_msgttl m)
       (R ! Suc (length q)) ((incseq ^^ (n - k)) (mc_pktseq m)) ?s =
       Some (R ! (length (q @ [msg_pkt pl n m ?msg ?i]) + k), (incseq ^^ n) (mc_pktseq m), ?s\<lparr>sb_blocks := bs\<rparr>)"
    "snd_ok R ((q @ [msg_pkt pl n m ?msg ?i]) @ map (msg_pkt pl n m ?msg) [n - k..<n]) c
       (?s\<lparr>sb_blocks := bs, sb_pLastBlock := R ! (length (q @ [msg_pkt pl n m ?msg ?i]) + k), sb_iCount := cnt + 1 + int k,
          sb_iBytesCount := y + p + (\<Sum>p \<leftarrow> map (msg_pkt pl n m ?msg) [n - k..<n]. int (length (p_data p)))\<rparr>)"
    using Suc.IH [OF pre(1-4) ok' pre(5)] by blast
  show ?case unfolding step i(4)
    using bs pd by (intro exI [of _ bs]) (simp add: add.assoc)
qed

lemma addBuffer_ok:
  assumes ok: "snd_ok R q c s" and pl: "pl = getMaxPacketLen s" "0 < pl" "pl \<le> sb_iBlockLen s"
    and len: "0 \<le> len" "len \<le> int (length data)"
  shows "\<exists>r R' s'. addBuffer g mem tnow data len m s = Some (r, s') \<and> sb_iBlockLen s' = sb_iBlockLen s \<and>
    sb_iAuthTagSize s' = sb_iAuthTagSize s \<and>
    (case r of
       Inl e \<Rightarrow> snd_ok R' q c s' \<and> snd_frame s s' \<and> (\<exists>i. mem i \<noteq> ALLOC_OK)
     | Inr m' \<Rightarrow> snd_ok R' (q @ message_packets pl (resolved tnow s m) (take (nat len) data)) c s' \<and>
         m' = (resolved tnow s m)\<lparr>mc_pktseq := (incseq ^^ num_packets pl (take (nat len) data)) (mc_pktseq m)\<rparr> \<and>
         sb_iNextMsgNo s' = next_msgno (mc_msgno m') \<and> sb_tsLastOriginTime s' = mc_srctime m')"
proof -
  let ?msg = "take (nat len) data"
  let ?n = "num_packets pl ?msg"
  let ?m = "resolved tnow s m"
  obtain r R1 s1 where s1: "grow g mem (int ?n) s = Some (r, s1)" "snd_ok R1 q c s1" "snd_frame s s1"
      "case r of Inl e \<Rightarrow> \<exists>i. mem i \<noteq> ALLOC_OK | Inr u \<Rightarrow> int ?n + int (length q) < sb_iSize s1"
    using grow_ok [OF ok, of g mem "int ?n"] by metis
  note fr = s1(3) [unfolded snd_frame_def] and cnt = countNumPacketsRequired_eq [OF pl(2) len]
  show ?thesis
  proof (cases r)
    case (Inl e)
    then have "addBuffer g mem tnow data len m s = Some (Inl e, s1)" using s1(1) cnt pl by (simp add: addBuffer_def)
    then show ?thesis using s1 fr Inl by - (rule exI [of _ "Inl e"], rule exI [of _ R1], rule exI [of _ s1], simp)
  next
    case (Inr u)
    let ?s = "s1\<lparr>sb_tsLastOriginTime := mc_srctime ?m, sb_iNextMsgNo := mc_msgno ?m\<rparr>"
    have eq: "(mc_pktseq ?m) = mc_pktseq m" "mc_inorder ?m = mc_inorder m" "mc_msgttl ?m = mc_msgttl m"
      by (simp_all add: resolved_def)
    have room: "length q + ?n < length R1" using s1(4) Inr snd_ok_lens [OF s1(2)] by simp
    have ok': "snd_ok R1 q c (?s\<lparr>sb_pLastBlock := sb_pLastBlock ?s, sb_iCount := sb_iCount ?s, sb_iBytesCount := sb_iBytesCount ?s\<rparr>)"
      using s1(2) by (simp add: snd_ok_def)
    have pre: "pl \<le> sb_iBlockLen ?s" "mc_msgno ?m = sb_iNextMsgNo ?s" "mc_srctime ?m = sb_tsLastOriginTime ?s"
      using pl fr by simp_all
    from add_blocks_ok [OF pl(2) pre(1) len refl order_refl pre(2,3) ok' room] obtain bs where bs:
      "add_blocks ?n data len pl (int ?n) (if mc_inorder m then BitsetMask 29 29 else 0) (mc_msgttl m) (sb_pLastBlock ?s)
         (mc_pktseq m) ?s = Some (R1 ! (length q + ?n), (incseq ^^ ?n) (mc_pktseq m), ?s\<lparr>sb_blocks := bs\<rparr>)"
      "snd_ok R1 (q @ message_packets pl ?m ?msg) c (?s\<lparr>sb_blocks := bs, sb_pLastBlock := R1 ! (length q + ?n),
         sb_iCount := sb_iCount ?s + int ?n, sb_iBytesCount := sb_iBytesCount ?s + int (length ?msg)\<rparr>)"
      unfolding message_packets_def [symmetric] sum_lengths diff_self_eq_0 message_concat [OF pl(2)] eq by auto
    have lm: "int (length ?msg) = len" using len by simp
    let ?s' = "?s\<lparr>sb_blocks := bs, sb_pLastBlock := R1 ! (length q + ?n), sb_iCount := sb_iCount ?s + int ?n,
         sb_iBytesCount := sb_iBytesCount ?s + len, sb_iNextMsgNo := next_msgno (mc_msgno ?m)\<rparr>"
    let ?m' = "?m\<lparr>mc_pktseq := (incseq ^^ ?n) (mc_pktseq m)\<rparr>"
    have "add_message data len pl (int ?n) tnow m s1 = Some (?m', ?s')"
    proof (cases "mc_msgno m = SRT_MSGNO_NONE")
      case True
      have "s1\<lparr>sb_tsLastOriginTime := mc_srctime ?m\<rparr> = ?s" using True fr by (simp add: resolved_def)
      then show ?thesis using bs(1) True fr
        by (simp add: add_message_def Let_def) (simp add: resolved_def split: if_splits)
    next
      case False
      then show ?thesis using bs(1) fr
        by (simp add: add_message_def Let_def) (simp add: resolved_def split: if_splits)
    qed
    then have "addBuffer g mem tnow data len m s = Some (Inr ?m', ?s')" using s1(1) cnt pl Inr by (simp add: addBuffer_def Let_def)
    moreover have "snd_ok R1 (q @ message_packets pl ?m ?msg) c ?s'"
      using bs(2) unfolding lm by (simp add: snd_ok_def)
    ultimately show ?thesis using fr by - (rule exI [of _ "Inr ?m'"], rule exI [of _ R1], rule exI [of _ ?s'], simp)
  qed
qed

section \<open>Acknowledging and dropping\<close>

definition p_msgno :: "spkt \<Rightarrow> int" where
  "p_msgno p = sint (p_bits p AND BitsetMask 25 0)"

definition bytes_of :: "spkt list \<Rightarrow> int" where
  "bytes_of q = (\<Sum>p \<leftarrow> q. int (length (p_data p)))"

lemma bytes_of_simps [simp]: "bytes_of [] = 0" "bytes_of (p # q) = int (length (p_data p)) + bytes_of q"
  "bytes_of (q @ q') = bytes_of q + bytes_of q'"
  by (simp_all add: bytes_of_def)

lemma snd_ok_bytes: "snd_ok R q c s \<Longrightarrow> sb_iBytesCount s = bytes_of q"
  by (simp add: snd_ok_def bytes_of_def)

lemma bytes_take_Suc: "k < length q \<Longrightarrow> bytes_of (take (Suc k) q) = bytes_of (take k q) + int (length (p_data (q ! k)))"
  by (simp add: take_Suc_conv_app_nth)

lemma snd_ok_msgseq: "snd_ok R q c s \<Longrightarrow> i < length q \<Longrightarrow> b_getMsgSeq (sb_blocks s ! (R ! i)) = p_msgno (q ! i)"
  using snd_ok_fields [of R q c s i] by (simp add: b_getMsgSeq_def p_msgno_def)

lemma snd_ok_drop:
  assumes ok: "snd_ok R q c s" and k: "k \<le> length q"
  shows "snd_ok (rotate k R) (drop k q) (c - k) (s\<lparr>sb_pFirstBlock := R ! k, sb_pCurrBlock := R ! max c k,
     sb_iCount := sb_iCount s - int k, sb_iBytesCount := sb_iBytesCount s - bytes_of (take k q)\<rparr>)"
proof -
  note l = snd_ok_lens [OF ok]
  have r: "ring (rotate k R) (sb_blocks s)"
    by (induction k) (simp_all add: snd_ok_ring [OF ok] ring_rotate1)
  have n: "rotate k R ! i = R ! (k + i)" if "k + i \<le> length q" for i
    using that l by (simp add: nth_rotate)
  have b: "bytes_of q = bytes_of (take k q) + bytes_of (drop k q)"
    by (metis append_take_drop_id bytes_of_simps(3))
  have "k + (c - k) = max c k" by simp
  then have c: "rotate k R ! (c - k) = R ! max c k" using n [of "c - k"] l k by simp
  have held: "\<forall>i < length (drop k q). abs_block (sb_blocks s ! (rotate k R ! i)) = drop k q ! i \<and>
      0 \<le> b_iLength (sb_blocks s ! (rotate k R ! i)) \<and> b_iLength (sb_blocks s ! (rotate k R ! i)) \<le> sb_iBlockLen s"
    using snd_ok_block [OF ok] k by (simp add: n)
  show ?thesis
    unfolding snd_ok_def
    using r held b c l k n [of 0] n [of "length q - k"] ok [unfolded snd_ok_def bytes_of_def [symmetric]]
    by (auto simp: bytes_of_def [symmetric])
qed

lemma ack_blocks_ok:
  assumes ok: "snd_ok R q c s" and "i + n \<le> length q"
  shows "ack_blocks n move (s\<lparr>sb_iBytesCount := sb_iBytesCount s - bytes_of (take i q), sb_pFirstBlock := R ! i\<rparr>) =
    Some (move \<or> i \<le> c \<and> c < i + n, s\<lparr>sb_iBytesCount := sb_iBytesCount s - bytes_of (take (i + n) q), sb_pFirstBlock := R ! (i + n)\<rparr>)"
  using assms(2)
proof (induction n arbitrary: i move)
  case (Suc n)
  then have i: "i < length q" by simp
  note l = snd_ok_lens [OF ok]
  have "block_at (s\<lparr>sb_iBytesCount := y, sb_pFirstBlock := R ! i\<rparr>) (R ! i) = Some (sb_blocks s ! (R ! i))" for y
    using snd_ok_at [OF ok, of i] i l by (simp add: block_at_def)
  moreover have "R ! i = sb_pCurrBlock s \<longleftrightarrow> i = c"
    using snd_ok_same_ptr [OF ok, of i c] snd_ok_ptrs [OF ok] i l by simp
  moreover have "((move \<or> i = c) \<or> Suc i \<le> c \<and> c < Suc i + n) = (move \<or> i \<le> c \<and> c < i + Suc n)" by auto
  ultimately show ?case
    using Suc.IH [of "Suc i" "move \<or> i = c"] Suc.prems snd_ok_fields(4) [OF ok i] snd_ok_next [OF ok i] bytes_take_Suc [OF i]
    by (simp add: algebra_simps)
qed auto

lemma ackData_ok:
  assumes ok: "snd_ok R q c s" and k: "k = min (nat offset) (length q)" and "0 \<le> offset"
  shows "\<exists>s'. ackData offset s = Some s' \<and> snd_ok (rotate k R) (drop k q) (c - k) s' \<and> snd_frame s s'"
proof -
  note l = snd_ok_lens [OF ok] and p = snd_ok_ptrs [OF ok]
  define o' where "o' = (if offset > sb_iCount s then sb_iCount s else offset)"
  have o': "nat o' = k" "o' = int k" using assms l by (auto simp: o'_def)
  have "s\<lparr>sb_iBytesCount := sb_iBytesCount s - bytes_of (take 0 q), sb_pFirstBlock := R ! 0\<rparr> = s" using p(1) by simp
  with ack_blocks_ok [OF ok, of 0 k False] k have a: "ack_blocks k False s = Some (c < k,
      s\<lparr>sb_iBytesCount := sb_iBytesCount s - bytes_of (take k q), sb_pFirstBlock := R ! k\<rparr>)" by simp
  have "ackData offset s = Some (s\<lparr>sb_pFirstBlock := R ! k, sb_pCurrBlock := R ! max c k,
     sb_iCount := sb_iCount s - int k, sb_iBytesCount := sb_iBytesCount s - bytes_of (take k q)\<rparr>)"
    using p(2) unfolding ackData_def Let_def o'_def [symmetric] by (simp add: o' a max_def)
  then show ?thesis using snd_ok_drop [OF ok, of k] k by (simp add: snd_frame_def)
qed

lemma late_blocks_ok:
  assumes ok: "snd_ok R q c s" and "i + n = length q" and "\<forall>j < i. p_origin (q ! j) < t"
    and d: "d = i + length (takeWhile (\<lambda>p. p_origin p < t) (drop i q))"
  shows "late_blocks n t (int i) (bytes_of (take i q)) move (if i = 0 then 0 else p_msgno (q ! (i - 1))) (s\<lparr>sb_pFirstBlock := R ! i\<rparr>) =
    Some (int d, bytes_of (take d q), move \<or> i \<le> c \<and> c < d, (if d = 0 then 0 else p_msgno (q ! (d - 1))),
      s\<lparr>sb_pFirstBlock := R ! d\<rparr>)"
  using assms(2-)
proof (induction n arbitrary: i move)
  case (Suc n)
  then have i: "i < length q" by simp
  note l = snd_ok_lens [OF ok]
  have at: "block_at (s\<lparr>sb_pFirstBlock := R ! i\<rparr>) (R ! i) = Some (sb_blocks s ! (R ! i))"
    using snd_ok_at [OF ok, of i] i l by (simp add: block_at_def)
  have dr: "drop i q = q ! i # drop (Suc i) q" using i by (simp add: Cons_nth_drop_Suc)
  show ?case
  proof (cases "p_origin (q ! i) < t")
    case False
    then show ?thesis using Suc.prems at snd_ok_fields(5) [OF ok i] by (auto simp: dr)
  next
    case True
    have "R ! i = sb_pCurrBlock s \<longleftrightarrow> i = c"
      using snd_ok_same_ptr [OF ok, of i c] snd_ok_ptrs [OF ok] i l by simp
    moreover have "d = Suc i + length (takeWhile (\<lambda>p. p_origin p < t) (drop (Suc i) q))" using Suc.prems True by (simp add: dr)
    moreover have "\<forall>j < Suc i. p_origin (q ! j) < t" using Suc.prems True by (auto simp: less_Suc_eq)
    ultimately show ?thesis
      using Suc.IH [of "Suc i" "move \<or> i = c"] Suc.prems True at snd_ok_fields(4,5) [OF ok i] snd_ok_next [OF ok i]
        snd_ok_msgseq [OF ok i] bytes_take_Suc [OF i]
      by (auto simp: algebra_simps)
  qed
qed auto

lemma dropLateData_ok:
  assumes ok: "snd_ok R q c s" and d: "d = length (takeWhile (\<lambda>p. p_origin p < t) q)"
  shows "\<exists>s'. dropLateData t s = Some ((int d, bytes_of (take d q), next_msgno (if d = 0 then 0 else p_msgno (q ! (d - 1)))), s') \<and>
    snd_ok (rotate d R) (drop d q) (c - d) s' \<and> snd_frame s s'"
proof -
  note l = snd_ok_lens [OF ok] and p = snd_ok_ptrs [OF ok]
  have dl: "d \<le> length q" using d by (simp add: length_takeWhile_le)
  have "s\<lparr>sb_pFirstBlock := R ! 0\<rparr> = s" using p(1) by simp
  with late_blocks_ok [OF ok, of 0 "length q" t d False] d l have a: "late_blocks (nat (sb_iCount s)) t 0 0 False 0 s =
      Some (int d, bytes_of (take d q), c < d, (if d = 0 then 0 else p_msgno (q ! (d - 1))), s\<lparr>sb_pFirstBlock := R ! d\<rparr>)" by simp
  have "dropLateData t s = Some ((int d, bytes_of (take d q), next_msgno (if d = 0 then 0 else p_msgno (q ! (d - 1)))),
     s\<lparr>sb_pFirstBlock := R ! d, sb_pCurrBlock := R ! max c d, sb_iCount := sb_iCount s - int d, sb_iBytesCount := sb_iBytesCount s - bytes_of (take d q)\<rparr>)"
    unfolding dropLateData_def Let_def a using p(2) by (auto simp: max_def)
  then show ?thesis using snd_ok_drop [OF ok dl] by (simp add: snd_frame_def)
qed

section \<open>Reading\<close>

text \<open>Packet \<open>p\<close> on the wire, but for the fields the caller fills in.\<close>

definition sends :: "spkt \<Rightarrow> CPacket \<Rightarrow> bool" where
  "sends p pkt \<longleftrightarrow> m_nHeader pkt SRT_PH_SEQNO = word_of_int (p_seq p) \<and> m_nHeader pkt SRT_PH_MSGNO = p_bits p \<and>
     m_Length pkt = length (p_data p) \<and> m_Length pkt \<le> length (m_pcData pkt) \<and> take (m_Length pkt) (m_pcData pkt) = p_data p"

definition p_expired :: "int \<Rightarrow> spkt \<Rightarrow> bool" where
  "p_expired now p \<longleftrightarrow> p_ttl p \<ge> 0 \<and> count_milliseconds (now - p_origin p) > p_ttl p"

definition with_key :: "int \<Rightarrow> spkt \<Rightarrow> spkt" where
  "with_key kflgs p = (if kflgs = - 1 then p else p\<lparr>p_bits := p_bits p OR bits_wrap 28 27 (word_of_int kflgs)\<rparr>)"

text \<open>Reading from the packets not sent yet: how many were skipped as expired, the packet found, those passed
  with the key recorded, and the rest.\<close>

fun spec_read :: "int \<Rightarrow> (nat \<Rightarrow> int) \<Rightarrow> spkt list \<Rightarrow> nat \<times> spkt option \<times> spkt list \<times> spkt list" where
  "spec_read kflgs now [] = (0, None, [], [])"
| "spec_read kflgs now (p # ps) = (if p_expired (now 0) p
     then (let (n, r, done, rest) = spec_read kflgs (\<lambda>i. now (Suc i)) ps in (Suc n, r, with_key kflgs p # done, rest))
     else (0, Some (with_key kflgs p), [with_key kflgs p], ps))"

lemma set_flags_ok:
  assumes ok: "snd_ok R q c s" and i: "i < length q" and b: "b_pNext b = b_pNext (sb_blocks s ! (R ! i))"
    "b_pcData b = b_pcData (sb_blocks s ! (R ! i))" "b_iLength b = b_iLength (sb_blocks s ! (R ! i))"
  shows "snd_ok R (q[i := abs_block b]) c (set_block (R ! i) b s)"
proof -
  note l = snd_ok_lens [OF ok] and at = snd_ok_at [OF ok, of i]
  let ?bs = "(sb_blocks s)[R ! i := b]"
  have a: "R ! i < length (sb_blocks s)" using at i l by simp
  have bs: "?bs ! (R ! j) = (if j = i then b else sb_blocks s ! (R ! j))" if "j < length q" for j
    using that a snd_ok_same_ptr [OF ok, of i j] i by (auto simp: nth_list_update)
  have pd: "p_data (abs_block b) = p_data (q ! i)" using snd_ok_fields(3) [OF ok i] b by (simp add: abs_block_def)
  have "map (\<lambda>p. int (length (p_data p))) (q[i := abs_block b]) = map (\<lambda>p. int (length (p_data p))) q"
    using i by (intro nth_equalityI) (auto simp: nth_list_update pd)
  moreover have "\<forall>x \<in> set ?bs. int (length (b_pcData x)) = sb_iBlockLen s"
    using set_update_subset_insert [of "sb_blocks s" "R ! i" b] at i l b ok by (auto simp: snd_ok_def)
  moreover have "\<forall>j < length q. abs_block (?bs ! (R ! j)) = q[i := abs_block b] ! j \<and> 0 \<le> b_iLength (?bs ! (R ! j)) \<and>
      b_iLength (?bs ! (R ! j)) \<le> sb_iBlockLen s"
    using bs snd_ok_block [OF ok] snd_ok_block(2,3) [OF ok i] b i by (auto simp: nth_list_update)
  ultimately show ?thesis
    unfolding snd_ok_def set_block_def using ring_update [OF snd_ok_ring [OF ok] a b(1)] ok [unfolded snd_ok_def] by simp
qed

lemma setLength_ok:
  assumes "snd_ok R q c s" and "i < length q"
  shows "setLength (int (length (p_data (q ! i)))) (sb_iBlockLen s) p = Some (p\<lparr>m_Length := length (p_data (q ! i))\<rparr>)"
  using snd_ok_block(2,3) [OF assms] snd_ok_fields(4) [OF assms] by (simp add: setLength_def)

lemma read_unique_ok:
  assumes "snd_ok R q c s" and "spec_read kflgs now (drop c q) = (n, x, dn, rest)"
  shows "\<exists>r' s'. read_unique kflgs now r s = Some (r', s') \<and> snd_ok R (take c q @ dn @ rest) (c + length dn) s' \<and> snd_frame s s' \<and>
    rr_seqnoinc r' = rr_seqnoinc r + int n \<and>
    (case x of None \<Rightarrow> rr_readlen r' = (if n = 0 then rr_readlen r else 0)
     | Some p \<Rightarrow> rr_readlen r' = (if kflgs = - 1 then 0 else int (length (p_data p))) \<and> rr_srctime r' = p_origin p \<and>
         sends p (rr_packet r'))"
  using assms
proof (induction "length q - c" arbitrary: q c s now n x dn rest r)
  case 0
  then have "c = length q" using snd_ok_lens [of R q c s] by simp
  then show ?case using 0 snd_ok_ptrs [OF 0(2)] by (subst read_unique.simps) simp
next
  case (Suc k)
  note ok = Suc.prems(1) and l = snd_ok_lens [OF Suc.prems(1)] and p = snd_ok_ptrs [OF Suc.prems(1)]
  have c: "c < length q" "Suc c \<le> length q" using Suc.hyps(2) by simp_all
  note f = snd_ok_fields [OF ok c(1)]
  have dr: "drop c q = q ! c # drop (Suc c) q" using c by (simp add: Cons_nth_drop_Suc)
  let ?b = "sb_blocks s ! (R ! c)" and ?p = "with_key kflgs (q ! c)"
  define b where "b = (if kflgs = - 1 then ?b else ?b\<lparr>b_iMsgNoBitset := b_iMsgNoBitset ?b OR bits_wrap 28 27 (word_of_int kflgs)\<rparr>)"
  have b: "b_pNext b = R ! Suc c" "b_pcData b = b_pcData ?b" "b_iLength b = b_iLength ?b" "b_tsOriginTime b = p_origin (q ! c)"
    "b_iTTL b = p_ttl (q ! c)" "abs_block b = ?p" "b_iMsgNoBitset b = p_bits ?p"
    "b_iSeqNo b = p_seq (q ! c)" using snd_ok_next [OF ok c(1)] f snd_ok_block(1) [OF ok c(1)]
    by (simp_all add: b_def with_key_def abs_block_def)
  define s1 where "s1 = (set_block (R ! c) b s)\<lparr>sb_pCurrBlock := R ! Suc c\<rparr>"
  define q1 where "q1 = q[c := ?p]"
  have "snd_ok R (q[c := abs_block b]) c (set_block (R ! c) b s)"
    using set_flags_ok [OF ok c(1), of b] b(1-3) snd_ok_next [OF ok c(1)] by simp
  then have ok1: "snd_ok R q1 (Suc c) s1" using c b(6) by (simp add: snd_ok_def s1_def q1_def set_block_def)
  have fr: "snd_frame s s1" by (simp add: snd_frame_def s1_def set_block_def)
  have q1: "take (Suc c) q1 = take c q @ [?p]" "drop (Suc c) q1 = drop (Suc c) q" "length q1 = length q"
    using c by (simp_all add: q1_def take_Suc_conv_app_nth)
  define pkt where "pkt = set_msgflags (p_bits ?p) (set_seqno (p_seq (q ! c)) ((rr_packet r)\<lparr>m_pcData := b_pcData ?b, m_Length := length (p_data (q ! c))\<rparr>))"
  let ?r = "r\<lparr>rr_packet := pkt, rr_srctime := p_origin (q ! c)\<rparr>"
  have ex: "expired t b = p_expired t (q ! c)" for t by (simp add: expired_def p_expired_def b)
  have ne: "R ! c \<noteq> R ! length q" using snd_ok_same_ptr [OF ok, of c "length q"] c by simp
  have at: "block_at s (R ! c) = Some ?b" using snd_ok_at [OF ok] c l by simp
  have step: "read_unique kflgs now r s = (if p_expired (now 0) (q ! c)
      then read_unique kflgs (\<lambda>i. now (Suc i)) (?r\<lparr>rr_readlen := 0, rr_seqnoinc := rr_seqnoinc r + 1\<rparr>) s1
      else Some (?r\<lparr>rr_readlen := if kflgs = - 1 then 0 else int (length (p_data (q ! c)))\<rparr>, s1))"
    using ne by (subst read_unique.simps)
      (simp add: p at setLength_ok [OF ok c(1)] b_def [symmetric] b(1,4,7,8) ex s1_def f(1,4) pkt_def Let_def)
  have d: "p_data ?p = p_data (q ! c)" "p_seq ?p = p_seq (q ! c)" "p_origin ?p = p_origin (q ! c)" by (simp_all add: with_key_def)
  have snds: "sends ?p pkt"
    using f(3,4) snd_ok_block(2) [OF ok c(1)] snd_ok_at(2) [OF ok, of c] c l snd_ok_block(3) [OF ok c(1)]
    by (simp add: sends_def pkt_def set_msgflags_def set_seqno_def d)
  show ?case
  proof (cases "p_expired (now 0) (q ! c)")
    case False
    then have "n = 0" "x = Some ?p" "dn = [?p]" "rest = drop (Suc c) q" using Suc.prems(2) by (simp_all add: dr)
    moreover have "q1 = take c q @ ?p # drop (Suc c) q" using append_take_drop_id [of "Suc c" q1] q1 by simp
    ultimately show ?thesis using False step ok1 fr snds by (simp add: d)
  next
    case True
    obtain n' dn' where r: "spec_read kflgs (\<lambda>i. now (Suc i)) (drop (Suc c) q1) = (n', x, dn', rest)" "n = Suc n'" "dn = ?p # dn'"
      using Suc.prems(2) True by (auto simp: dr q1 split: prod.splits)
    have k: "k = length q1 - Suc c" using Suc.hyps(2) q1 by simp
    from Suc.hyps(1) [OF k ok1 r(1), of "?r\<lparr>rr_readlen := 0, rr_seqnoinc := rr_seqnoinc r + 1\<rparr>"] obtain r' s' where
      rs: "read_unique kflgs (\<lambda>i. now (Suc i)) (?r\<lparr>rr_readlen := 0, rr_seqnoinc := rr_seqnoinc r + 1\<rparr>) s1 = Some (r', s')"
      "snd_ok R (take (Suc c) q1 @ dn' @ rest) (Suc c + length dn') s'" "snd_frame s1 s'" "rr_seqnoinc r' = rr_seqnoinc r + 1 + int n'"
      "case x of None \<Rightarrow> rr_readlen r' = 0
     | Some p \<Rightarrow> rr_readlen r' = (if kflgs = - 1 then 0 else int (length (p_data p))) \<and> rr_srctime r' = p_origin p \<and>
         sends p (rr_packet r')" by (auto split: option.splits)
    have "snd_ok R (take c q @ dn @ rest) (c + length dn) s'" using rs(2) q1 r by simp
    then show ?thesis using step True rs(1,4,5) r snd_frame_trans [OF fr rs(3)]
      by - (rule exI [of _ r'], rule exI [of _ s'], auto split: option.splits)
  qed
qed

lemma readData_ok:
  assumes "snd_ok R q c s" and "spec_read kflgs now (drop c q) = (n, x, dn, rest)"
  shows "\<exists>r s'. readData kflgs now pkt t s = Some (r, s') \<and> snd_ok R (take c q @ dn @ rest) (c + length dn) s' \<and> snd_frame s s' \<and>
    rr_seqnoinc r = int n \<and>
    (case x of None \<Rightarrow> rr_readlen r = 0
     | Some p \<Rightarrow> rr_readlen r = (if kflgs = - 1 then 0 else int (length (p_data p))) \<and> rr_srctime r = p_origin p \<and>
         sends p (rr_packet r))"
  using read_unique_ok [OF assms, of "\<lparr>rr_readlen = 0, rr_packet = pkt, rr_srctime = t, rr_seqnoinc = 0\<rparr>"]
  unfolding readData_def by (simp only: read_result.simps if_cancel add_0)

lemma advance_ok:
  assumes ok: "snd_ok R q c s" and "i + n \<le> length q"
  shows "advance n (R ! i) s = Some (R ! (i + n))"
  using assms(2)
proof (induction n arbitrary: i)
  case (Suc n)
  then show ?case using snd_ok_at [OF ok, of i] snd_ok_next [OF ok, of i] snd_ok_lens [OF ok] Suc.IH [of "Suc i"] by simp
qed simp

lemma getMsgNoAt_ok:
  assumes ok: "snd_ok R q c s" and "0 \<le> offset"
  shows "getMsgNoAt offset s = Some (if nat offset < length q then p_msgno (q ! nat offset) else SRT_MSGNO_CONTROL)"
proof (cases "nat offset < length q")
  case True
  then show ?thesis using snd_ok_lens [OF ok] snd_ok_ptrs [OF ok] advance_ok [OF ok, of 0 "nat offset"]
      snd_ok_at [OF ok, of "nat offset"] snd_ok_msgseq [OF ok True]
    by (simp add: getMsgNoAt_def) arith
next
  case False
  then have "int (length q) \<le> offset" using assms(2) by linarith
  then show ?thesis using snd_ok_lens [OF ok] False by (simp add: getMsgNoAt_def)
qed

lemma getPacketRexmitTime_ok:
  assumes ok: "snd_ok R q c s" and "nat offset < length q"
  shows "getPacketRexmitTime offset s = Some (p_rexmit (q ! nat offset))"
  using assms snd_ok_lens [OF ok] snd_ok_ptrs [OF ok] advance_ok [OF ok, of 0 "nat offset"]
      snd_ok_at [OF ok, of "nat offset"] snd_ok_fields [OF ok, of "nat offset"]
  by (simp add: getPacketRexmitTime_def)

section \<open>Retransmission\<close>

lemma advance_before_last_ok:
  assumes ok: "snd_ok R q c s" and "i \<le> length q"
  shows "advance_before_last n (R ! i) s = Some (R ! min (i + n) (length q))"
  using assms(2)
proof (induction n arbitrary: i)
  case (Suc n)
  show ?case
  proof (cases "i = length q")
    case True
    then show ?thesis using snd_ok_ptrs [OF ok] by simp
  next
    case False
    then have i: "i < length q" using Suc.prems by simp
    then show ?thesis
      using snd_ok_at [OF ok, of i] snd_ok_next [OF ok i] snd_ok_lens [OF ok] snd_ok_ptrs [OF ok]
        snd_ok_same_ptr [OF ok, of i "length q"] Suc.IH [of "Suc i"] by simp
  qed
qed simp

text \<open>The end of the message that the packet before position \<open>i\<close> belongs to.\<close>

definition msg_end :: "spkt list \<Rightarrow> int \<Rightarrow> nat \<Rightarrow> nat" where
  "msg_end q m i = i + length (takeWhile (\<lambda>p. p_msgno p = m) (drop i q))"

lemma msg_end_le: "i \<le> length q \<Longrightarrow> msg_end q m i \<le> length q"
  using length_takeWhile_le [of "\<lambda>p. p_msgno p = m" "drop i q"] by (simp add: msg_end_def)

lemma msg_end_step: "i < length q \<Longrightarrow> msg_end q m i = (if p_msgno (q ! i) = m then msg_end q m (Suc i) else i)"
  by (simp add: msg_end_def Cons_nth_drop_Suc [symmetric])

lemma snd_ok_curr: "snd_ok R q c s \<Longrightarrow> d \<le> length q \<Longrightarrow> snd_ok R q d (s\<lparr>sb_pCurrBlock := R ! d\<rparr>)"
  by (simp add: snd_ok_def)

lemma drop_expired_ok:
  assumes "snd_ok R q c s" and "i \<le> length q" and "move \<longrightarrow> c = i"
  shows "drop_expired m (R ! i) move len s =
    (let j = msg_end q m i; d = (if move \<or> i \<le> c \<and> c < j then j else c) in
     Some (R ! j, len + int (j - i), s\<lparr>sb_pCurrBlock := R ! d\<rparr>))"
  using assms
proof (induction "length q - i" arbitrary: i c move len s)
  case 0
  then have "i = length q" by simp
  then show ?case using 0 snd_ok_ptrs [OF 0(2)] by (subst drop_expired.simps) (auto simp: msg_end_def Let_def)
next
  case (Suc k)
  note ok = Suc.prems(1) and l = snd_ok_lens [OF Suc.prems(1)] and p = snd_ok_ptrs [OF Suc.prems(1)]
  have i: "i < length q" using Suc.hyps(2) by simp
  have same: "R ! i = R ! c \<longleftrightarrow> i = c" "R ! i \<noteq> R ! length q"
    using snd_ok_same_ptr [OF ok, of i c] snd_ok_same_ptr [OF ok, of i "length q"] i l by simp_all
  define mv where "mv \<longleftrightarrow> move \<or> i = c"
  have step: "drop_expired m (R ! i) move len s = (if p_msgno (q ! i) = m
      then drop_expired m (R ! Suc i) mv (len + 1) (if mv then s\<lparr>sb_pCurrBlock := R ! Suc i\<rparr> else s) else Some (R ! i, len, s))"
    using same snd_ok_at [OF ok, of i] i l p snd_ok_msgseq [OF ok i] snd_ok_next [OF ok i]
    by (subst drop_expired.simps) (auto simp: Let_def mv_def)
  show ?case
  proof (cases "p_msgno (q ! i) = m")
    case False
    then show ?thesis using step p Suc.prems(3) by (auto simp: msg_end_step [OF i] Let_def)
  next
    case True
    define c' where "c' = (if mv then Suc i else c)"
    have ok': "snd_ok R q c' (if mv then s\<lparr>sb_pCurrBlock := R ! Suc i\<rparr> else s)"
      using snd_ok_curr [OF ok, of "Suc i"] i ok by (simp add: c'_def)
    have j: "Suc i \<le> msg_end q m (Suc i)" by (simp add: msg_end_def)
    have k: "k = length q - Suc i" "Suc i \<le> length q" "mv \<longrightarrow> c' = Suc i" using Suc.hyps(2) i by (simp_all add: c'_def)
    show ?thesis unfolding step using Suc.hyps(1) [OF k(1) ok' k(2,3), of "len + 1"] True j Suc.prems(3)
      by (auto simp: msg_end_step [OF i] Let_def mv_def c'_def)
  qed
qed

text \<open>The three outcomes of a retransmission request.\<close>

lemma rexmit_none:
  assumes ok: "snd_ok R q c s" and "length q \<le> nat offset"
  shows "readData_rexmit offset now now' pkt t drp s =
    Some (\<lparr>rx_return = READ_NONE, rx_packet = pkt, rx_srctime = t, rx_drop = drp\<rparr>, s)"
  using assms advance_before_last_ok [OF ok, of 0 "nat offset"] snd_ok_ptrs [OF ok]
  by (simp add: readData_rexmit_def min_def)

lemma rexmit_at:
  assumes ok: "snd_ok R q c s" and i: "nat offset < length q"
  shows "advance_before_last (nat offset) (sb_pFirstBlock s) s = Some (R ! nat offset)" "R ! nat offset \<noteq> sb_pLastBlock s"
    "block_at s (R ! nat offset) = Some (sb_blocks s ! (R ! nat offset))"
    "expired now (sb_blocks s ! (R ! nat offset)) = p_expired now (q ! nat offset)"
proof -
  note l = snd_ok_lens [OF ok]
  show "advance_before_last (nat offset) (sb_pFirstBlock s) s = Some (R ! nat offset)"
    using advance_before_last_ok [OF ok, of 0 "nat offset"] snd_ok_ptrs(1) [OF ok] i by (simp add: min_def)
  show "R ! nat offset \<noteq> sb_pLastBlock s"
    using snd_ok_ptrs(3) [OF ok] snd_ok_same_ptr [OF ok, of "nat offset" "length q"] i by simp
  show "block_at s (R ! nat offset) = Some (sb_blocks s ! (R ! nat offset))" using snd_ok_at(1) [OF ok, of "nat offset"] i l by simp
  show "expired now (sb_blocks s ! (R ! nat offset)) = p_expired now (q ! nat offset)"
    using snd_ok_fields(5,6) [OF ok i] by (simp add: expired_def p_expired_def)
qed

lemma rexmit_ok:
  assumes ok: "snd_ok R q c s" and i: "nat offset < length q" and seq: "getSeqNo pkt = p_seq (q ! nat offset)"
    and hdr: "m_nHeader pkt SRT_PH_SEQNO = word_of_int (p_seq (q ! nat offset))" and live: "\<not> p_expired now (q ! nat offset)"
  shows "\<exists>r s'. readData_rexmit offset now now' pkt t drp s = Some (r, s') \<and>
    snd_ok R (q[nat offset := (q ! nat offset)\<lparr>p_rexmit := now'\<rparr>]) c s' \<and> snd_frame s s' \<and>
    rx_return r = int (length (p_data (q ! nat offset))) \<and> rx_srctime r = p_origin (q ! nat offset) \<and>
    sends (q ! nat offset) (rx_packet r)"
proof -
  let ?i = "nat offset"
  let ?b = "sb_blocks s ! (R ! ?i)"
  note f = snd_ok_fields [OF ok i] and at = rexmit_at [OF ok i] and l = snd_ok_lens [OF ok]
  have "abs_block (?b\<lparr>b_tsRexmitTime := now'\<rparr>) = (q ! ?i)\<lparr>p_rexmit := now'\<rparr>"
    unfolding snd_ok_block(1) [OF ok i, symmetric] by (simp add: abs_block_def)
  then have "snd_ok R (q[?i := (q ! ?i)\<lparr>p_rexmit := now'\<rparr>]) c (set_block (R ! ?i) (?b\<lparr>b_tsRexmitTime := now'\<rparr>) s)"
    using set_flags_ok [OF ok i, of "?b\<lparr>b_tsRexmitTime := now'\<rparr>"] by simp
  moreover have "sends (q ! ?i) (set_msgflags (p_bits (q ! ?i)) (pkt\<lparr>m_pcData := b_pcData ?b, m_Length := length (p_data (q ! ?i))\<rparr>))"
    using f(3,4) snd_ok_block(2,3) [OF ok i] snd_ok_at(2) [OF ok, of ?i] i l hdr
    by (simp add: sends_def set_msgflags_def)
  moreover have "readData_rexmit offset now now' pkt t drp s =
      Some (\<lparr>rx_return = int (length (p_data (q ! ?i))), rx_packet = set_msgflags (p_bits (q ! ?i)) (pkt\<lparr>m_pcData := b_pcData ?b, m_Length := length (p_data (q ! ?i))\<rparr>),
        rx_srctime = p_origin (q ! ?i), rx_drop = drp\<rparr>, set_block (R ! ?i) (?b\<lparr>b_tsRexmitTime := now'\<rparr>) s)"
    unfolding readData_rexmit_def Let_def by (simp add: at live seq f(1,2,4,5) setLength_ok [OF ok i])
  moreover have "snd_frame s (set_block (R ! ?i) (?b\<lparr>b_tsRexmitTime := now'\<rparr>) s)" by (simp add: snd_frame_def set_block_def)
  ultimately show ?thesis
    by - (rule exI, rule exI, rule conjI, assumption, simp)
qed

text \<open>An expired message is given up as a whole; the assertion at the end compares with the number in the block
  after it, which is that of a packet only when the message is not the last one.\<close>

lemma rexmit_drop:
  assumes ok: "snd_ok R q c s" and i: "nat offset < length q" and seq: "getSeqNo pkt = p_seq (q ! nat offset)"
    and dead: "p_expired now (q ! nat offset)" and j: "j = msg_end q (p_msgno (q ! nat offset)) (Suc (nat offset))"
    and e: "e = incseq_by (p_seq (q ! nat offset)) (int (j - nat offset) - 1)"
  shows "readData_rexmit offset now now' pkt t drp s = (if e = decseq (b_iSeqNo (sb_blocks s ! (R ! j)))
    then Some (\<lparr>rx_return = READ_DROP, rx_packet = pkt, rx_srctime = t,
           rx_drop = \<lparr>dr_begin = p_seq (q ! nat offset), dr_end = e, dr_msgno = p_msgno (q ! nat offset)\<rparr>\<rparr>,
         s\<lparr>sb_pCurrBlock := R ! (if nat offset < c \<and> c < j then j else c)\<rparr>) else None)"
proof -
  let ?i = "nat offset"
  note at = rexmit_at [OF ok i] and l = snd_ok_lens [OF ok]
  have j': "Suc ?i \<le> j" "j \<le> length q" using msg_end_le [of "Suc ?i" q] i by (auto simp: j msg_end_def)
  have d: "drop_expired (p_msgno (q ! ?i)) (R ! Suc ?i) False 1 s =
      Some (R ! j, int (j - ?i), s\<lparr>sb_pCurrBlock := R ! (if ?i < c \<and> c < j then j else c)\<rparr>)"
    using drop_expired_ok [OF ok, of "Suc ?i" False] i j' by (simp add: j [symmetric] Let_def Suc_le_eq of_nat_diff)
  have b: "block_at (s\<lparr>sb_pCurrBlock := x\<rparr>) (R ! j) = Some (sb_blocks s ! (R ! j))" for x
    using snd_ok_at [OF ok, of j] j' l by (simp add: block_at_def)
  show ?thesis
    unfolding readData_rexmit_def Let_def
    by (simp add: at dead seq snd_ok_fields(1) [OF ok i] d b snd_ok_msgseq [OF ok i] snd_ok_next [OF ok i] e)
qed

section \<open>State queries and destruction\<close>

lemma getBufferingDelay_ok:
  assumes ok: "snd_ok R q c s"
  shows "getBufferingDelay t s = Some (if q = [] then 0 else t - p_origin (hd q))"
  using snd_ok_lens [OF ok] snd_ok_ptrs [OF ok] snd_ok_at [OF ok, of 0] snd_ok_fields [OF ok, of 0]
  by (cases q) (simp_all add: getBufferingDelay_def)

lemma peekNextOriginal_ok:
  assumes ok: "snd_ok R q c s"
  shows "peekNextOriginal s = Some (if c = length q then 0 else p_origin (q ! c))"
proof (cases "c = length q")
  case True
  then show ?thesis using snd_ok_ptrs [OF ok] by (simp add: peekNextOriginal_def)
next
  case False
  then have "c < length q" using snd_ok_lens [OF ok] by simp
  then show ?thesis
    using False snd_ok_lens [OF ok] snd_ok_ptrs [OF ok] snd_ok_at [OF ok, of c] snd_ok_fields [OF ok, of c]
      snd_ok_same_ptr [OF ok, of c "length q"] by (simp add: peekNextOriginal_def)
qed

lemma ring_rotate: "ring R bs \<Longrightarrow> ring (rotate k R) bs"
  by (induction k) (simp_all add: ring_rotate1)

lemma free_blocks_ok:
  assumes r: "ring R (sb_blocks s)" and h: "sb_pBlock s = R ! 0" and "0 < i" "i \<le> length R"
  shows "free_blocks (R ! (i mod length R)) (take (i - 1) (tl R)) s = Some (tl R @ [hd R])"
  using assms(3,4)
proof (induction "length R - i" arbitrary: i)
  case 0
  have "R \<noteq> []" "distinct R" using r by (auto simp: ring_def)
  then have "R ! 0 = hd R" "hd R \<notin> set (tl R)" by (cases R; simp)+
  then show ?case using 0 h by (subst free_blocks.simps) simp
next
  case (Suc k)
  have i: "i < length R" "Suc i \<le> length R" using Suc by simp_all
  have d: "distinct R" "R \<noteq> []" using r by (auto simp: ring_def)
  have tl: "R ! i = tl R ! (i - 1)" "i - 1 < length (tl R)" using Suc.prems i by (simp_all add: nth_tl)
  then have app: "take (i - 1) (tl R) @ [R ! i] = take (Suc i - 1) (tl R)"
    using Suc.prems take_Suc_conv_app_nth [of "i - 1" "tl R"] by simp
  have "distinct (take (i - 1) (tl R) @ [R ! i])" unfolding app using d by (simp add: distinct_tl)
  then have new: "R ! i \<notin> set (take (i - 1) (tl R))" by (simp only: distinct_append) simp
  have "R ! i \<noteq> R ! 0" using ring_inj [OF r i(1), of 0] Suc.prems d by simp
  moreover have "b_pNext (sb_blocks s ! (R ! i)) = R ! (Suc i mod length R)" using r i by (simp add: ring_def)
  moreover have "block_at s (R ! i) = Some (sb_blocks s ! (R ! i))" using ring_addr [OF r i(1)] by (simp add: block_at_def)
  ultimately show ?case
    using Suc.hyps(1) [of "Suc i"] Suc.hyps(2) Suc.prems(1) i new h app
    by (subst free_blocks.simps) (simp del: take_tl)
qed

lemma delete_ok:
  assumes ok: "snd_ok R q c s"
  shows "\<exists>l. CSndBuffer_delete s = Some l \<and> distinct l \<and> set l = {0..<length (sb_blocks s)}"
proof -
  have "sb_pBlock s \<in> set R" using ok by (simp add: snd_ok_def ring_def)
  then obtain k where k: "k < length R" "R ! k = sb_pBlock s" by (auto simp: in_set_conv_nth)
  define P where "P = rotate k R"
  have P: "ring P (sb_blocks s)" "P ! 0 = sb_pBlock s" "0 < length P"
    using ring_rotate [OF snd_ok_ring [OF ok]] k nth_rotate [of 0 R k] snd_ok_lens(5) [OF ok] by (simp_all add: P_def)
  have n: "b_pNext (sb_blocks s ! (P ! 0)) = P ! (1 mod length P)" using P(1,3) unfolding ring_def by (metis One_nat_def)
  have "block_at s (P ! 0) = Some (sb_blocks s ! (P ! 0))" using ring_addr [OF P(1,3)] by (simp add: block_at_def)
  then have "CSndBuffer_delete s = Some (tl P @ [hd P])"
    using free_blocks_ok [OF P(1), of 1] P n by (simp add: CSndBuffer_delete_def)
  moreover have "distinct (tl P @ [hd P])" "set (tl P @ [hd P]) = set P" using P by (cases P; auto simp: ring_def)+
  ultimately show ?thesis using P by (auto simp: ring_def)
qed

end
