(* ===== verification/SndBufProps.thy ===== *)
theory SndBufProps
  imports Simul SndOps
begin

text \<open>
  What the sender buffer promises: a queue of packets with a mark before the first one not sent yet.  Under
  every sequence of calls it returns what the queue gives, its growth loop ends, and its destructor frees
  every block once.
\<close>

unbundle bit_operations_syntax

section \<open>The queue\<close>

text \<open>The calls of the connection on the buffer, with the readings of the clock and the results of the allocations.\<close>

datatype sb_op =
    AddBuffer Block "nat \<Rightarrow> alloc_result" int "byte list" int SRT_MSGCTRL
  | AckData int
  | DropLateData int
  | ReadData int "nat \<Rightarrow> int" CPacket
  | ReadRexmit int int int CPacket

datatype sb_result =
    RAdd "snd_error + SRT_MSGCTRL"
  | RAck
  | RLate "int \<times> int \<times> int"
  | RRead read_result
  | RRexmit rexmit_result

definition sb_do :: "sb_op \<Rightarrow> CSndBuffer \<Rightarrow> (sb_result \<times> CSndBuffer) option" where
  "sb_do e s = (case e of
     AddBuffer g mem tnow data len m \<Rightarrow> map_option (map_prod RAdd id) (addBuffer g mem tnow data len m s)
   | AckData offset \<Rightarrow> map_option (Pair RAck) (ackData offset s)
   | DropLateData t \<Rightarrow> map_option (map_prod RLate id) (dropLateData t s)
   | ReadData kflgs now pkt \<Rightarrow> map_option (map_prod RRead id) (readData kflgs now pkt 0 s)
   | ReadRexmit offset now now' pkt \<Rightarrow> map_option (map_prod RRexmit id)
       (readData_rexmit offset now now' pkt 0 \<lparr>dr_begin = 0, dr_end = 0, dr_msgno = 0\<rparr> s))"

text \<open>What the connection keeps to: the data is as long as it says, a count is not negative, and a packet is
  resent under its own number and while it is alive.\<close>

fun sb_ok :: "sb_op \<Rightarrow> spkt list \<times> nat \<Rightarrow> CSndBuffer \<Rightarrow> bool" where
  "sb_ok (AddBuffer g mem tnow data len m) (q, c) s \<longleftrightarrow> 0 \<le> len \<and> len \<le> int (length data)"
| "sb_ok (AckData offset) (q, c) s \<longleftrightarrow> 0 \<le> offset"
| "sb_ok (DropLateData t) (q, c) s \<longleftrightarrow> True"
| "sb_ok (ReadData kflgs now pkt) (q, c) s \<longleftrightarrow> True"
| "sb_ok (ReadRexmit offset now now' pkt) (q, c) s \<longleftrightarrow> (nat offset < length q \<longrightarrow>
     getSeqNo pkt = p_seq (q ! nat offset) \<and> m_nHeader pkt SRT_PH_SEQNO = word_of_int (p_seq (q ! nat offset)) \<and>
     \<not> p_expired now (q ! nat offset))"

definition late_count :: "int \<Rightarrow> spkt list \<Rightarrow> nat" where
  "late_count t q = length (takeWhile (\<lambda>p. p_origin p < t) q)"

text \<open>The queue after a call, for packets of at most \<open>pl\<close> bytes.\<close>

fun sb_next :: "int \<Rightarrow> sb_op \<Rightarrow> sb_result \<Rightarrow> spkt list \<times> nat \<Rightarrow> spkt list \<times> nat" where
  "sb_next pl (AddBuffer g mem tnow data len m) (RAdd (Inr m')) (q, c) =
     (q @ message_packets pl (m'\<lparr>mc_pktseq := mc_pktseq m\<rparr>) (take (nat len) data), c)"
| "sb_next pl (AckData offset) r (q, c) = (drop (nat offset) q, c - min (nat offset) (length q))"
| "sb_next pl (DropLateData t) r (q, c) = (drop (late_count t q) q, c - late_count t q)"
| "sb_next pl (ReadData kflgs now pkt) r (q, c) =
     (let (n, x, passed, rest) = spec_read kflgs now (drop c q) in (take c q @ passed @ rest, c + length passed))"
| "sb_next pl (ReadRexmit offset now now' pkt) r (q, c) = (q[nat offset := (q ! nat offset)\<lparr>p_rexmit := now'\<rparr>], c)"
| "sb_next pl e r a = a"

text \<open>The results the queue allows: a message is added unless the memory is exhausted; the late packets are counted; a
  packet not sent yet is read, after those that have expired; a sent one is read again by its offset.\<close>

fun sb_allowed :: "int \<Rightarrow> sb_op \<Rightarrow> spkt list \<times> nat \<Rightarrow> sb_result \<Rightarrow> bool" where
  "sb_allowed pl (AddBuffer g mem tnow data len m) (q, c) (RAdd r) \<longleftrightarrow> (case r of
     Inl e \<Rightarrow> \<exists>i. mem i \<noteq> ALLOC_OK
   | Inr m' \<Rightarrow> mc_pktseq m' = (incseq ^^ num_packets pl (take (nat len) data)) (mc_pktseq m) \<and>
       mc_srctime m' = (if mc_srctime m \<noteq> 0 then mc_srctime m else tnow) \<and> (mc_msgno m \<noteq> SRT_MSGNO_NONE \<longrightarrow> mc_msgno m' = mc_msgno m))"
| "sb_allowed pl (AckData offset) (q, c) RAck \<longleftrightarrow> True"
| "sb_allowed pl (DropLateData t) (q, c) (RLate (n, bytes, no)) \<longleftrightarrow>
     n = int (late_count t q) \<and> bytes = bytes_of (take (late_count t q) q) \<and>
     (0 < late_count t q \<longrightarrow> no = next_msgno (p_msgno (q ! (late_count t q - 1))))"
| "sb_allowed pl (ReadData kflgs now pkt) (q, c) (RRead r) \<longleftrightarrow>
     (let (n, x, passed, rest) = spec_read kflgs now (drop c q) in rr_seqnoinc r = int n \<and>
      (case x of None \<Rightarrow> rr_readlen r = 0
       | Some p \<Rightarrow> rr_readlen r = (if kflgs = - 1 then 0 else int (length (p_data p))) \<and> rr_srctime r = p_origin p \<and>
           sends p (rr_packet r)))"
| "sb_allowed pl (ReadRexmit offset now now' pkt) (q, c) (RRexmit r) \<longleftrightarrow> (if nat offset < length q
     then rx_return r = int (length (p_data (q ! nat offset))) \<and> rx_srctime r = p_origin (q ! nat offset) \<and> sends (q ! nat offset) (rx_packet r)
     else rx_return r = READ_NONE)"
| "sb_allowed pl e a r \<longleftrightarrow> False"

definition sb_sim :: "int \<Rightarrow> spkt list \<times> nat \<Rightarrow> CSndBuffer \<Rightarrow> bool" where
  "sb_sim pl = (\<lambda>(q, c) s. (\<exists>R. snd_ok R q c s) \<and> getMaxPacketLen s = pl \<and> 0 < pl \<and> pl \<le> sb_iBlockLen s)"

lemma sb_simI:
  "snd_ok R q c s' \<Longrightarrow> snd_frame s s' \<Longrightarrow> sb_sim pl (q0, c0) s \<Longrightarrow> sb_sim pl (q, c) s'"
  by (auto simp: sb_sim_def snd_frame_def getMaxPacketLen_def)

lemma sb_do_ok:
  assumes sim: "sb_sim pl a s" and ok: "sb_ok e a s"
  shows "\<exists>r s'. sb_do e s = Some (r, s') \<and> sb_allowed pl e a r \<and> sb_sim pl (sb_next pl e r a) s'"
proof -
  obtain q c where a: "a = (q, c)" by (cases a)
  obtain R where q: "snd_ok R q c s" and pl: "pl = getMaxPacketLen s" "0 < pl" "pl \<le> sb_iBlockLen s"
    using sim by (auto simp: sb_sim_def a)
  note I = sb_simI [OF _ _ sim [unfolded a]]
  show ?thesis
  proof (cases e)
    case (AddBuffer g mem tnow data len m)
    have len: "0 \<le> len" "len \<le> int (length data)" using ok by (simp_all add: AddBuffer a)
    obtain r R' s' where r: "addBuffer g mem tnow data len m s = Some (r, s')" "sb_iBlockLen s' = sb_iBlockLen s" "sb_iAuthTagSize s' = sb_iAuthTagSize s"
      "case r of
       Inl e \<Rightarrow> snd_ok R' q c s' \<and> snd_frame s s' \<and> (\<exists>i. mem i \<noteq> ALLOC_OK)
     | Inr m' \<Rightarrow> snd_ok R' (q @ message_packets pl (resolved tnow s m) (take (nat len) data)) c s' \<and>
         m' = (resolved tnow s m)\<lparr>mc_pktseq := (incseq ^^ num_packets pl (take (nat len) data)) (mc_pktseq m)\<rparr> \<and>
         sb_iNextMsgNo s' = next_msgno (mc_msgno m') \<and> sb_tsLastOriginTime s' = mc_srctime m'"
      using addBuffer_ok [OF q pl len, of g mem tnow m] by blast
    have d: "sb_do e s = Some (RAdd r, s')" using r(1) by (simp add: sb_do_def AddBuffer)
    show ?thesis
    proof (cases r)
      case (Inl x)
      then show ?thesis using d r(4) I by (auto simp: AddBuffer a)
    next
      case (Inr m')
      have "(resolved tnow s m)\<lparr>mc_pktseq := x, mc_pktseq := mc_pktseq m\<rparr> = resolved tnow s m" for x
        by (cases m) (simp add: resolved_def)
      then have "sb_sim pl (sb_next pl e (RAdd r) a) s'"
        using r Inr pl by (auto simp: AddBuffer a sb_sim_def getMaxPacketLen_def)
      moreover have "sb_allowed pl e a (RAdd r)" using r(4) Inr by (simp add: AddBuffer a resolved_def)
      ultimately show ?thesis using d by blast
    qed
  next
    case (AckData offset)
    then have "0 \<le> offset" using ok by (simp add: a)
    from ackData_ok [OF q refl this] obtain s' where s': "ackData offset s = Some s'"
      "snd_ok (rotate (min (nat offset) (length q)) R) (drop (min (nat offset) (length q)) q) (c - min (nat offset) (length q)) s'" "snd_frame s s'" by blast
    moreover have "drop (min (nat offset) (length q)) q = drop (nat offset) q" by (simp add: min_def)
    ultimately show ?thesis using I [OF s'(2,3)] by (simp add: AckData a sb_do_def)
  next
    case (DropLateData t)
    from dropLateData_ok [OF q refl, of t] obtain s' where
      s': "dropLateData t s = Some ((int (late_count t q), bytes_of (take (late_count t q) q),
          next_msgno (if late_count t q = 0 then 0 else p_msgno (q ! (late_count t q - 1)))), s')"
        "snd_ok (rotate (late_count t q) R) (drop (late_count t q) q) (c - late_count t q) s'" "snd_frame s s'"
      unfolding late_count_def [symmetric] by blast
    show ?thesis using s'(1) I [OF s'(2,3)] by (simp add: DropLateData a sb_do_def)
  next
    case (ReadData kflgs now pkt)
    obtain n x dn rest where sp: "spec_read kflgs now (drop c q) = (n, x, dn, rest)" by (cases "spec_read kflgs now (drop c q)")
    from readData_ok [OF q sp, of pkt 0] obtain r s' where
      s': "readData kflgs now pkt 0 s = Some (r, s')" "snd_ok R (take c q @ dn @ rest) (c + length dn) s'" "snd_frame s s'"
        "rr_seqnoinc r = int n"
        "case x of None \<Rightarrow> rr_readlen r = 0
         | Some p \<Rightarrow> rr_readlen r = (if kflgs = - 1 then 0 else int (length (p_data p))) \<and> rr_srctime r = p_origin p \<and> sends p (rr_packet r)"
      by blast
    have "sb_do e s = Some (RRead r, s')" using s'(1) by (simp add: ReadData sb_do_def)
    moreover have "sb_allowed pl e a (RRead r)" unfolding ReadData a sb_allowed.simps sp using s'(4,5) by simp
    moreover have "sb_next pl e (RRead r) a = (take c q @ dn @ rest, c + length dn)" by (simp add: ReadData a sp)
    ultimately show ?thesis using I [OF s'(2,3)] by metis
  next
    case (ReadRexmit offset now now' pkt)
    show ?thesis
    proof (cases "nat offset < length q")
      case True
      then have p: "getSeqNo pkt = p_seq (q ! nat offset)" "m_nHeader pkt SRT_PH_SEQNO = word_of_int (p_seq (q ! nat offset))"
        "\<not> p_expired now (q ! nat offset)" using ok by (simp_all add: ReadRexmit a)
      let ?q = "q[nat offset := (q ! nat offset)\<lparr>p_rexmit := now'\<rparr>]"
      from rexmit_ok [OF q True p, of now' 0 "\<lparr>dr_begin = 0, dr_end = 0, dr_msgno = 0\<rparr>"] obtain r s' where
        s': "readData_rexmit offset now now' pkt 0 \<lparr>dr_begin = 0, dr_end = 0, dr_msgno = 0\<rparr> s = Some (r, s')"
          "snd_ok R ?q c s'" "snd_frame s s'" "rx_return r = int (length (p_data (q ! nat offset)))"
          "rx_srctime r = p_origin (q ! nat offset)" "sends (q ! nat offset) (rx_packet r)" by blast
      have "sb_do e s = Some (RRexmit r, s')" using s'(1) by (simp add: ReadRexmit sb_do_def)
      moreover have "sb_allowed pl e a (RRexmit r)" unfolding ReadRexmit a sb_allowed.simps using True s'(4-6) by (simp only: if_True)
      moreover have "sb_next pl e (RRexmit r) a = (?q, c)" by (simp add: ReadRexmit a)
      ultimately show ?thesis using I [OF s'(2,3)] by metis
    next
      case False
      then have "length q \<le> nat offset" by simp
      then show ?thesis using rexmit_none [OF q, of offset] sim by (auto simp: ReadRexmit a sb_do_def list_update_beyond)
    qed
  qed
qed

interpretation sndbuf: simulation "sb_sim pl" sb_ok sb_do "sb_allowed pl" "sb_next pl" for pl
  by unfold_locales (rule sb_do_ok)

lemma new_sim:
  assumes "CSndBuffer_new g n maxpld authtag = Some s" and "0 < n" and "0 \<le> authtag" and "authtag < maxpld"
  shows "sb_sim (maxpld - authtag) ([], 0) s"
  using assms new_ok [of n maxpld g authtag] by (auto simp: sb_sim_def getMaxPacketLen_def)

section \<open>Properties\<close>

text \<open>C5: The sender buffer is a queue.  From a new buffer, after any sequence of admissible calls, every further one returns what
  the queue of packets gives, and leaves the buffer in the state of that queue: \<^verbatim>\<open>addBuffer\<close> appends the packets of the message, or fails only
  with an allocation; \<^verbatim>\<open>ackData\<close> and \<^verbatim>\<open>dropLateData\<close> take a prefix; \<^verbatim>\<open>readData\<close> gives the first packet that is neither sent nor expired,
  and by an offset a packet sent before.  No pointer leaves the ring and no loop runs forever.\<close>

theorem sndbuf_refines_queue:
  assumes "CSndBuffer_new g n maxpld authtag = Some s0" and "0 < n" and "0 \<le> authtag" and "authtag < maxpld"
    and "reach sb_ok sb_do (sb_next (maxpld - authtag)) ([], 0) s0 (q, c) s" and "sb_ok e (q, c) s"
  shows "\<exists>r s'. sb_do e s = Some (r, s') \<and> sb_allowed (maxpld - authtag) e (q, c) r \<and>
    reach sb_ok sb_do (sb_next (maxpld - authtag)) ([], 0) s0 (sb_next (maxpld - authtag) e r (q, c)) s' \<and>
    sb_iCount s' = int (length (fst (sb_next (maxpld - authtag) e r (q, c)))) \<and>
    sb_iBytesCount s' = bytes_of (fst (sb_next (maxpld - authtag) e r (q, c)))"
proof -
  note n = new_sim [OF assms(1-4)]
  obtain r s' where r: "sb_do e s = Some (r, s')" "sb_allowed (maxpld - authtag) e (q, c) r"
      "reach sb_ok sb_do (sb_next (maxpld - authtag)) ([], 0) s0 (sb_next (maxpld - authtag) e r (q, c)) s'"
    using sndbuf.progress [OF assms(5) n assms(6)] by blast
  obtain R where "snd_ok R (fst (sb_next (maxpld - authtag) e r (q, c))) (snd (sb_next (maxpld - authtag) e r (q, c))) s'"
    using sndbuf.reach_sim [OF r(3) n] by (auto simp: sb_sim_def split: prod.splits)
  then show ?thesis using r by (auto simp: snd_ok_def bytes_of_def)
qed

definition demo_block :: Block where
  "demo_block = \<lparr>b_pcData = [], b_iLength = 0, b_iMsgNoBitset = 0, b_iSeqNo = 0, b_tsOriginTime = 0, b_tsRexmitTime = 0, b_iTTL = 0, b_pNext = 0\<rparr>"

definition demo_packet :: "u32 \<Rightarrow> CPacket" where
  "demo_packet seqno = \<lparr>m_nHeader = (\<lambda>f. seqno), m_pcData = [], m_Length = 0\<rparr>"

definition demo_ctrl :: SRT_MSGCTRL where
  "demo_ctrl = \<lparr>mc_msgttl = - 1, mc_inorder = True, mc_srctime = 0, mc_pktseq = 0x7FFFFFFF, mc_msgno = - 1\<rparr>"

text \<open>A message of three packets in a buffer of two blocks, two packets of which are sent and one acknowledged.\<close>

definition demo_calls :: "sb_op list" where
  "demo_calls = [AddBuffer demo_block (\<lambda>_. ALLOC_OK) 7 [1, 2, 3, 4, 5, 6] 6 demo_ctrl,
     ReadData 0 (\<lambda>_. 8) (demo_packet 0), ReadData 0 (\<lambda>_. 9) (demo_packet 0), AckData 1]"

definition demo_buffer :: "CSndBuffer" where
  "demo_buffer = the (CSndBuffer_new demo_block 2 3 1)"

definition demo_reached :: "((spkt list \<times> nat) \<times> CSndBuffer)" where
  "demo_reached = the (checked_run sb_ok sb_do (sb_next 2) demo_calls ([], 0) demo_buffer)"

lemma demo_buffer_new: "CSndBuffer_new demo_block 2 3 1 = Some demo_buffer"
  by code_simp

lemma demo_queue: "fst demo_reached = ([\<lparr>p_seq = 0, p_bits = 536870913, p_data = [3, 4], p_origin = 7, p_ttl = - 1, p_rexmit = 0\<rparr>,
    \<lparr>p_seq = 1, p_bits = 1610612737, p_data = [5, 6], p_origin = 7, p_ttl = - 1, p_rexmit = 0\<rparr>], 1)"
  by code_simp

lemma demo_calls_run: "checked_run sb_ok sb_do (sb_next 2) demo_calls ([], 0) demo_buffer = Some demo_reached"
  by code_simp

lemma demo_reach:
  "reach sb_ok sb_do (sb_next (3 - 1)) ([], 0) demo_buffer (fst (fst demo_reached), snd (fst demo_reached)) (snd demo_reached)"
  using checked_run_reach [OF reach.start, of sb_ok sb_do "sb_next 2" demo_calls "([], 0)" demo_buffer "fst demo_reached" "snd demo_reached"]
    demo_calls_run by simp

theorem sndbuf_refines_queue_witness:
  "\<exists>r s'. sb_do (ReadRexmit 0 20 21 (demo_packet 0)) (snd demo_reached) = Some (RRexmit r, s') \<and>
     take 2 (m_pcData (rx_packet r)) = [3, 4] \<and> m_Length (rx_packet r) = 2 \<and> sb_iCount s' = 2 \<and> sb_iBytesCount s' = 4"
proof -
  let ?e = "ReadRexmit 0 20 21 (demo_packet 0)" and ?q = "fst (fst demo_reached)" and ?c = "snd (fst demo_reached)"
  have e: "sb_ok ?e (?q, ?c) (snd demo_reached)" by code_simp
  from sndbuf_refines_queue [OF demo_buffer_new _ _ _ demo_reach e] obtain r s' where r: "sb_do ?e (snd demo_reached) = Some (r, s')"
      "sb_allowed 2 ?e (fst demo_reached) r" "sb_iCount s' = int (length (fst (sb_next 2 ?e r (fst demo_reached))))"
      "sb_iBytesCount s' = bytes_of (fst (sb_next 2 ?e r (fst demo_reached)))"
    unfolding prod.collapse by auto
  then show ?thesis by (cases r) (auto simp: demo_queue sends_def numeral_2_eq_2)
qed

text \<open>C34: The growth loop of \<^verbatim>\<open>addBuffer\<close> ends for every number of blocks that it is asked for.  Unless an allocation fails it ends with more
  free blocks than asked for; if one fails it reports that and ends.  In both cases the packets in the buffer, which ones have been sent, and the
  settings of the buffer are what they were.\<close>

theorem sndbuf_growth_terminates:
  assumes "sb_sim pl (q, c) s"
  shows "\<exists>r s'. grow g mem n s = Some (r, s') \<and> sb_sim pl (q, c) s' \<and> sb_iCount s' = sb_iCount s \<and> sb_iNextMsgNo s' = sb_iNextMsgNo s \<and>
    ((\<forall>i. mem i = ALLOC_OK) \<longrightarrow> r = Inr ()) \<and> (r = Inr () \<longrightarrow> n + sb_iCount s' < sb_iSize s')"
proof -
  obtain R where R: "snd_ok R q c s" using assms by (auto simp: sb_sim_def)
  from grow_ok [OF R, of g mem n] obtain r R' s' where r: "grow g mem n s = Some (r, s')" "snd_ok R' q c s'" "snd_frame s s'"
    "case r of Inl e \<Rightarrow> \<exists>i. mem i \<noteq> ALLOC_OK | Inr u \<Rightarrow> n + int (length q) < sb_iSize s'" by blast
  have "sb_iCount s' = sb_iCount s" using R r(2) by (simp add: snd_ok_def)
  then show ?thesis using r sb_simI [OF r(2,3) assms] snd_ok_lens(2) [OF r(2)]
    by (intro exI [of _ r] exI [of _ s']) (auto simp: snd_frame_def split: sum.splits)
qed

theorem sndbuf_growth_terminates_witness:
  "\<exists>r s'. grow demo_block (\<lambda>_. ALLOC_OK) 1000 demo_buffer = Some (r, s') \<and> r = Inr () \<and> 1000 < sb_iSize s'"
proof -
  have "sb_sim (3 - 1) ([], 0) demo_buffer" using new_sim [OF demo_buffer_new] by simp
  from sndbuf_growth_terminates [OF this, of demo_block "\<lambda>_. ALLOC_OK" 1000] obtain r s' where
    "grow demo_block (\<lambda>_. ALLOC_OK) 1000 demo_buffer = Some (r, s')" "r = Inr ()" "1000 + sb_iCount s' < sb_iSize s'" "sb_iCount s' = sb_iCount demo_buffer"
    by auto
  moreover have "sb_iCount demo_buffer = 0" by code_simp
  ultimately show ?thesis by auto
qed

text \<open>The destructor of the sender buffer walks the whole ring of blocks once: it frees every block that was ever allocated, the first
  and those of later growth, and none of them twice.\<close>

theorem sndbuf_delete_frees:
  assumes "CSndBuffer_new g n maxpld authtag = Some s0" and "0 < n" and "0 \<le> authtag" and "authtag < maxpld"
    and "reach sb_ok sb_do (sb_next (maxpld - authtag)) ([], 0) s0 (q, c) s"
  shows "\<exists>l. CSndBuffer_delete s = Some l \<and> distinct l \<and> set l = {0..<length (sb_blocks s)}"
proof -
  obtain R where "snd_ok R q c s" using sndbuf.reach_sim [OF assms(5) new_sim [OF assms(1-4)]] by (auto simp: sb_sim_def)
  then show ?thesis by (rule delete_ok)
qed

theorem sndbuf_delete_frees_witness:
  "\<exists>l. CSndBuffer_delete (snd demo_reached) = Some l \<and> distinct l \<and> set l = {0..<4}"
proof -
  from sndbuf_delete_frees [OF demo_buffer_new _ _ _ demo_reach] have "\<exists>l. CSndBuffer_delete (snd demo_reached) = Some l \<and> distinct l \<and>
    set l = {0..<length (sb_blocks (snd demo_reached))}" by simp
  moreover have "length (sb_blocks (snd demo_reached)) = 4" by code_simp
  ultimately show ?thesis by simp
qed

end
