(* ===== verification/SndCore.thy ===== *)
theory SndCore
  imports SndOps SndLossList
begin

text \<open>
  The sending side of a socket: the members of \<^verbatim>\<open>CUDT\<close> in \<^verbatim>\<open>srtcore/core.cpp\<close> that work on the
  sender buffer, the sender loss list and the sequence numbers that tie the two together.

  It is a socket in no group and without encryption (\<^verbatim>\<open>getSndCryptoFlags\<close> gives \<^verbatim>\<open>EK_NOENC\<close>),
  non-blocking, built without the \<^verbatim>\<open>ENABLE_MAXREXMITBW\<close> preview.  The settings that do not change
  once connected are the record \<open>snd_config\<close>.  Control messages sent to the peer are collected in
  \<open>u_ctrl\<close>.  Every reading of the clock is an argument.  Statistics, epoll events, the
  scheduling list and the congestion controller, which decides on the window and the interval between
  packets, are left out.
\<close>

unbundle bit_operations_syntax

section \<open>State\<close>

datatype RexmitMethod = SRM_LATEREXMIT | SRM_FASTREXMIT

record snd_config =
  cf_bMessageAPI :: bool
  cf_bTsbPd :: bool
  cf_bPeerTsbPd :: bool
  cf_bPeerTLPktDrop :: bool
  cf_bPeerNakReport :: bool
  cf_bPeerRexmitFlag :: bool
  cf_iRetransmitAlgo :: int
  cf_rexmitMethod :: RexmitMethod
  cf_iSndDropDelay :: int
  cf_iPeerTsbPdDelay_ms :: int
  cf_iSndBufSize :: int
  cf_iMaxDataPayloadSize :: int
  cf_PeerID :: u32
  cf_tsStartTime :: int

datatype ctrl_msg = CTRL_DROPREQ int int int | CTRL_ACKACK int

text \<open>What is estimated from the acknowledgements.\<close>

record snd_estimates =
  e_iSRTT :: int
  e_iRTTVar :: int
  e_bIsFirstRTTReceived :: bool
  e_iBandwidth :: int
  e_iDeliveryRate :: int
  e_iByteDeliveryRate :: int

record CUDT =
  u_pSndBuffer :: CSndBuffer
  u_pSndLossList :: CSndLossList
  u_iSndLastAck :: int
  u_iSndLastDataAck :: int
  u_iSndLastFullAck :: int
  u_iSndLastAck2 :: int
  u_SndLastAck2Time :: int
  u_iSndCurrSeqNo :: int
  u_iSndNextSeqNo :: int
  u_iFlowWindowSize :: int
  u_iCongestionWindow :: int
  u_est :: snd_estimates
  u_bBroken :: bool
  u_bOpened :: bool
  u_tsLastRspAckTime :: int
  u_iReXmitCount :: int
  u_tsNextSendTime :: int
  u_tdSendTimeDiff :: int
  u_tdSendInterval :: int
  u_tsLastSndTime :: int
  u_ctrl :: "ctrl_msg list"

definition COMM_SYN_INTERVAL_US :: int where "COMM_SYN_INTERVAL_US = 10000"
definition SRT_TLPKTDROP_MINTHRESHOLD_MS :: int where "SRT_TLPKTDROP_MINTHRESHOLD_MS = 1000"
definition INITIAL_RTT :: int where "INITIAL_RTT = 10 * COMM_SYN_INTERVAL_US"
definition INITIAL_RTTVAR :: int where "INITIAL_RTTVAR = c_div INITIAL_RTT 2"
definition MSGNO_SEQ_MAX :: int where "MSGNO_SEQ_MAX = sint (BitsetMask 25 0)"

definition sendCtrl :: "ctrl_msg \<Rightarrow> CUDT \<Rightarrow> CUDT" where
  "sendCtrl m u = u\<lparr>u_ctrl := u_ctrl u @ [m]\<rparr>"

definition sndBuffersLeft :: "snd_config \<Rightarrow> CUDT \<Rightarrow> int" where
  "sndBuffersLeft cf u = cf_iSndBufSize cf - getCurrBufSize (u_pSndBuffer u)"

definition getFlightSpan :: "CUDT \<Rightarrow> int" where
  "getFlightSpan u = seqlen (u_iSndLastAck u) (incseq (u_iSndCurrSeqNo u)) - 1"

definition setInitialSndSeq :: "int \<Rightarrow> CUDT \<Rightarrow> CUDT" where
  "setInitialSndSeq isn u = u\<lparr>u_iSndLastAck := isn, u_iSndLastDataAck := isn, u_iSndLastFullAck := isn,
     u_iSndCurrSeqNo := decseq isn, u_iSndNextSeqNo := isn, u_iSndLastAck2 := isn\<rparr>"

section \<open>Sending a message\<close>

datatype core_error = CONNLOST | INVAL | XSIZE | WRAVAIL | INVALMSGAPI | INVALBUFFERAPI | SYSTEMRES snd_error

definition sndDropTooLate :: "snd_config \<Rightarrow> int \<Rightarrow> CUDT \<Rightarrow> ((core_error + int) \<times> CUDT) option" where
  "sndDropTooLate cf tnow u = (if \<not> cf_bPeerTLPktDrop cf then Some (Inr 0, u)
     else if \<not> cf_bMessageAPI cf then Some (Inl INVALBUFFERAPI, u)
     else do {
       delay \<leftarrow> getBufferingDelay tnow (u_pSndBuffer u);
       let buffdelay_ms = count_milliseconds delay;
       let threshold_ms = (if cf_iSndDropDelay cf \<ge> 0
             then max (cf_iPeerTsbPdDelay_ms cf + cf_iSndDropDelay cf) SRT_TLPKTDROP_MINTHRESHOLD_MS +
                  c_div (2 * COMM_SYN_INTERVAL_US) 1000
             else 0);
       if threshold_ms = 0 \<or> buffdelay_ms \<le> threshold_ms then Some (Inr 0, u)
       else do {
         ((dpkts, dbytes, first_msgno), b) \<leftarrow> dropLateData (tnow - threshold_ms * 1000) (u_pSndBuffer u);
         let u = u\<lparr>u_pSndBuffer := b\<rparr>;
         if dpkts \<le> 0 then Some (Inr 0, u)
         else do {
           let fakeack = incseq_by (u_iSndLastDataAck u) dpkts;
           let minlastack = decseq fakeack;
           l \<leftarrow> removeUpTo minlastack (u_pSndLossList u);
           Some (Inr dpkts, u\<lparr>u_iFlowWindowSize := u_iFlowWindowSize u + dpkts, u_iSndLastAck := fakeack,
              u_iSndLastDataAck := fakeack, u_pSndLossList := l,
              u_iSndCurrSeqNo := (if seqcmp (u_iSndCurrSeqNo u) minlastack < 0 then minlastack else u_iSndCurrSeqNo u)\<rparr>) } } })"

text \<open>The part of \<^verbatim>\<open>sendmsg2\<close> under \<^verbatim>\<open>m_RecvAckLock\<close>: the message gets the next sequence number
  and goes into the sender buffer.  \<open>g\<close>, \<open>mem\<close> and \<open>tnow\<close> are the arguments of \<^const>\<open>addBuffer\<close>.\<close>

definition schedule_message :: "snd_config \<Rightarrow> Block \<Rightarrow> (nat \<Rightarrow> alloc_result) \<Rightarrow> int \<Rightarrow> byte list \<Rightarrow> int \<Rightarrow> SRT_MSGCTRL \<Rightarrow>
    CUDT \<Rightarrow> ((core_error + SRT_MSGCTRL) \<times> CUDT) option" where
  "schedule_message cf g mem tnow data sz mctrl u = (
     let seqno = u_iSndNextSeqNo u;
         mctrl = mctrl\<lparr>mc_pktseq := seqno\<rparr> in
     if mc_srctime mctrl \<noteq> 0 \<and> mc_srctime mctrl < cf_tsStartTime cf then Some (Inl INVALMSGAPI, u)
     else do {
       let mctrl = (if mc_srctime mctrl \<noteq> 0 \<and> (\<not> cf_bMessageAPI cf \<or> \<not> cf_bTsbPd cf)
             then mctrl\<lparr>mc_srctime := 0\<rparr> else mctrl);
       (r, b) \<leftarrow> addBuffer g mem tnow data sz mctrl (u_pSndBuffer u);
       let u = u\<lparr>u_pSndBuffer := b\<rparr>;
       case r of
         Inl e \<Rightarrow> Some (Inl (SYSTEMRES e), u)
       | Inr mctrl \<Rightarrow> Some (Inr (mctrl\<lparr>mc_pktseq := seqno\<rparr>), u\<lparr>u_iSndNextSeqNo := mc_pktseq mctrl\<rparr>) })"

text \<open>The three readings of the clock by \<^verbatim>\<open>sendmsg2\<close>: for the timer of an empty buffer, for the late packets and for the new one.\<close>

record send_clock =
  sk_reset :: int
  sk_drop :: int
  sk_add :: int

text \<open>\<open>trans_ok\<close> is the verdict of the congestion controller on the arguments.  A length that is not
  positive sends nothing and gives 0.\<close>

definition sendmsg2 :: "snd_config \<Rightarrow> bool \<Rightarrow> Block \<Rightarrow> (nat \<Rightarrow> alloc_result) \<Rightarrow> send_clock \<Rightarrow> byte list \<Rightarrow> int \<Rightarrow> SRT_MSGCTRL \<Rightarrow>
    CUDT \<Rightarrow> ((core_error + int \<times> SRT_MSGCTRL) \<times> CUDT) option" where
  "sendmsg2 cf trans_ok g mem sk data len mctrl u = (
     if u_bBroken u then Some (Inl CONNLOST, u)
     else if len \<le> 0 then Some (Inr (0, mctrl), u)
     else if mc_msgno mctrl \<noteq> - 1 \<and> (mc_msgno mctrl < 1 \<or> mc_msgno mctrl > MSGNO_SEQ_MAX) then Some (Inl INVAL, u)
     else if \<not> trans_ok then Some (Inl (if cf_bMessageAPI cf then INVALMSGAPI else INVALBUFFERAPI), u)
     else if cf_bMessageAPI cf \<and> len > cf_iSndBufSize cf * cf_iMaxDataPayloadSize cf then Some (Inl XSIZE, u)
     else do {
       let u = (if getCurrBufSize (u_pSndBuffer u) = 0
             then u\<lparr>u_tsLastRspAckTime := sk_reset sk, u_iReXmitCount := 1\<rparr> else u);
       (d, u) \<leftarrow> sndDropTooLate cf (sk_drop sk) u;
       case d of Inl e \<Rightarrow> Some (Inl e, u) | Inr _ \<Rightarrow> do {
         iNumPktsRequired \<leftarrow> (if cf_bMessageAPI cf
             then countNumPacketsRequired len (getMaxPacketLen (u_pSndBuffer u)) else Some 1);
         if cf_bTsbPd cf \<and> iNumPktsRequired > 1 then Some (Inl XSIZE, u)
         else if sndBuffersLeft cf u < iNumPktsRequired then Some (Inl WRAVAIL, u)
         else do {
           let sz = (if cf_bMessageAPI cf then len
                else min len (sndBuffersLeft cf u * cf_iMaxDataPayloadSize cf));
           (r, u) \<leftarrow> schedule_message cf g mem (sk_add sk) data sz mctrl u;
           case r of Inl e \<Rightarrow> Some (Inl e, u) | Inr mctrl \<Rightarrow> Some (Inr (sz, mctrl), u) } } })"

section \<open>Acknowledgements\<close>

definition updateSndLossListOnACK :: "int \<Rightarrow> CUDT \<Rightarrow> CUDT option" where
  "updateSndLossListOnACK ackdata_seqno u = (
     let offset = seqoff (u_iSndLastDataAck u) ackdata_seqno in
     if offset \<le> 0 then Some u
     else do {
       let u = u\<lparr>u_iSndLastDataAck := ackdata_seqno\<rparr>;
       l \<leftarrow> removeUpTo (decseq (u_iSndLastDataAck u)) (u_pSndLossList u);
       b \<leftarrow> ackData offset (u_pSndBuffer u);
       Some (u\<lparr>u_pSndLossList := l, u_pSndBuffer := b\<rparr>) })"

definition payload_word :: "CPacket \<Rightarrow> nat \<Rightarrow> int option" where
  "payload_word p i = (if 4 * i + 4 \<le> length (m_pcData p)
     then Some (sint (load32 (take 4 (drop (4 * i) (m_pcData p))))) else None)"

definition avg_iir_int :: "int \<Rightarrow> int \<Rightarrow> int \<Rightarrow> int" where
  "avg_iir_int DEPRLEN old_value new_value = c_div (old_value * (DEPRLEN - 1) + new_value) DEPRLEN"

definition update_rtt :: "bool \<Rightarrow> int \<Rightarrow> int \<Rightarrow> snd_estimates \<Rightarrow> snd_estimates" where
  "update_rtt bPktsReceived rtt rttvar e = (
     if e_bIsFirstRTTReceived e then
       (if bPktsReceived then
          (if rtt \<noteq> INITIAL_RTT \<or> rttvar \<noteq> INITIAL_RTTVAR
           then e\<lparr>e_iRTTVar := avg_iir_int 4 (e_iRTTVar e) \<bar>rtt - e_iSRTT e\<bar>, e_iSRTT := avg_iir_int 8 (e_iSRTT e) rtt\<rparr>
           else e)
        else e\<lparr>e_iSRTT := rtt, e_iRTTVar := rttvar\<rparr>)
     else if rtt \<noteq> INITIAL_RTT \<and> rttvar \<noteq> INITIAL_RTTVAR
       then e\<lparr>e_iSRTT := rtt, e_iRTTVar := rttvar, e_bIsFirstRTTReceived := True\<rparr>
     else e)"

definition update_rates :: "snd_config \<Rightarrow> CPacket \<Rightarrow> snd_estimates \<Rightarrow> snd_estimates option" where
  "update_rates cf p e = (let acksize = m_Length p div 4 in
     if acksize > 4 then do {
       pktps \<leftarrow> payload_word p 4;
       bandwidth \<leftarrow> payload_word p 5;
       bytesps \<leftarrow> (if acksize > 6 then payload_word p 6 else Some (pktps * cf_iMaxDataPayloadSize cf));
       Some (e\<lparr>e_iBandwidth := avg_iir_int 8 (e_iBandwidth e) bandwidth,
               e_iDeliveryRate := avg_iir_int 8 (e_iDeliveryRate e) pktps,
               e_iByteDeliveryRate := avg_iir_int 8 (e_iByteDeliveryRate e) bytesps\<rparr>) }
     else Some e)"

text \<open>The rest of \<^verbatim>\<open>processCtrlAck\<close> for an acknowledgement that is not a light one.\<close>

definition full_ack :: "snd_config \<Rightarrow> CPacket \<Rightarrow> int \<Rightarrow> bool \<Rightarrow> int \<Rightarrow> CUDT \<Rightarrow> (bool \<times> CUDT) option" where
  "full_ack cf p currtime bPktsReceived ackdata_seqno u0 = (
     let ack_seqno = sint (m_nHeader p SRT_PH_MSGNO);
         u = (if currtime - u_SndLastAck2Time u0 > COMM_SYN_INTERVAL_US \<or> ack_seqno = u_iSndLastAck2 u0
           then (sendCtrl (CTRL_ACKACK ack_seqno) u0)\<lparr>u_iSndLastAck2 := ack_seqno, u_SndLastAck2Time := currtime\<rparr>
           else u0) in
     if seqcmp ackdata_seqno (incseq (u_iSndCurrSeqNo u)) > 0 then Some (False, u\<lparr>u_bBroken := True\<rparr>)
     else do {
       bufferleft \<leftarrow> payload_word p 3;
       let u = (if seqcmp ackdata_seqno (u_iSndLastAck u) \<ge> 0
             then u\<lparr>u_iFlowWindowSize := bufferleft, u_iSndLastAck := ackdata_seqno,
                    u_tsLastRspAckTime := currtime, u_iReXmitCount := 1\<rparr> else u);
       if seqoff (u_iSndLastFullAck u) ackdata_seqno \<le> 0 then Some (True, u)
       else do {
         let u = u\<lparr>u_iSndLastFullAck := ackdata_seqno\<rparr>;
         rtt \<leftarrow> payload_word p 1;
         rttvar \<leftarrow> payload_word p 2;
         e \<leftarrow> update_rates cf p (update_rtt bPktsReceived rtt rttvar (u_est u));
         Some (True, u\<lparr>u_est := e\<rparr>) } })"

definition processCtrlAck :: "snd_config \<Rightarrow> CPacket \<Rightarrow> int \<Rightarrow> bool \<Rightarrow> CUDT \<Rightarrow> (bool \<times> CUDT) option" where
  "processCtrlAck cf p currtime bPktsReceived u = (
     let pktlen = m_Length p; isLiteAck = (pktlen = 4) in
     if \<not> isLiteAck \<and> pktlen < 4 * 4 then Some (False, u)
     else do {
       ackdata_seqno \<leftarrow> payload_word p 0;
       if ackdata_seqno < 0 then Some (False, u)
       else do {
         u \<leftarrow> updateSndLossListOnACK ackdata_seqno u;
         if isLiteAck then
           Some (True, if seqcmp ackdata_seqno (u_iSndLastAck u) \<ge> 0
             then u\<lparr>u_iFlowWindowSize := u_iFlowWindowSize u - seqoff (u_iSndLastAck u) ackdata_seqno,
                    u_iSndLastAck := ackdata_seqno, u_tsLastRspAckTime := currtime, u_iReXmitCount := 1\<rparr> else u)
         else full_ack cf p currtime bPktsReceived ackdata_seqno u } })"

section \<open>Loss reports\<close>

definition insert_into_loss :: "int \<Rightarrow> int \<Rightarrow> CUDT \<Rightarrow> CUDT option" where
  "insert_into_loss lo hi u = do { (num, l) \<leftarrow> insert_loss lo hi (u_pSndLossList u); Some (u\<lparr>u_pSndLossList := l\<rparr>) }"

definition loss_range :: "int \<Rightarrow> int \<Rightarrow> CUDT \<Rightarrow> CUDT option" where
  "loss_range lo hi u = (
     if seqcmp lo (u_iSndLastAck u) \<ge> 0 then insert_into_loss lo hi u
     else if seqcmp hi (u_iSndLastAck u) \<ge> 0
       then map_option (sendCtrl (CTRL_DROPREQ 0 lo (decseq (u_iSndLastAck u)))) (insert_into_loss (u_iSndLastAck u) hi u)
     else Some (sendCtrl (CTRL_DROPREQ 0 lo hi) u))"

definition loss_single :: "int \<Rightarrow> CUDT \<Rightarrow> CUDT option" where
  "loss_single seq u = (
     if seqcmp seq (u_iSndLastAck u) \<ge> 0 then insert_into_loss seq seq u
     else Some (sendCtrl (CTRL_DROPREQ 0 seq seq) u))"

text \<open>The loop over the words; a false result is the \<^verbatim>\<open>secure\<close> flag of the code.\<close>

fun loss_words :: "int list \<Rightarrow> CUDT \<Rightarrow> (bool \<times> CUDT) option" where
  "loss_words [] u = Some (True, u)"
| "loss_words (w # ws) u = (
     if w < 0 then
       (case ws of [] \<Rightarrow> Some (False, u)
        | hi # ws' \<Rightarrow>
          (let lo = w + 2 ^ 31 in
           if seqcmp lo hi > 0 \<or> seqcmp hi (u_iSndCurrSeqNo u) > 0 then Some (False, u)
           else do { u \<leftarrow> loss_range lo hi u; loss_words ws' u }))
     else if seqcmp w (u_iSndLastAck u) \<ge> 0 \<and> seqcmp w (u_iSndCurrSeqNo u) > 0 then Some (False, u)
     else do { u \<leftarrow> loss_single w u; loss_words ws u })"

definition payload_words :: "CPacket \<Rightarrow> int list option" where
  "payload_words p = those (map (payload_word p) [0..<m_Length p div 4])"

definition processCtrlLossReport :: "CPacket \<Rightarrow> CUDT \<Rightarrow> (bool \<times> CUDT) option" where
  "processCtrlLossReport p u = do {
     ws \<leftarrow> payload_words p;
     (secure, u) \<leftarrow> loss_words ws u;
     if secure then Some (True, u) else Some (False, u\<lparr>u_bBroken := True\<rparr>) }"

section \<open>Retransmission\<close>

definition checkRexmitRightTime :: "snd_config \<Rightarrow> int \<Rightarrow> int \<Rightarrow> CUDT \<Rightarrow> bool option" where
  "checkRexmitRightTime cf offset current_time u = (
     if \<not> cf_bPeerNakReport cf \<or> cf_iRetransmitAlgo cf = 0 then Some True
     else do {
       let time_nak = current_time - (e_iSRTT (u_est u) - 4 * e_iRTTVar (u_est u));
       tsLastRexmit \<leftarrow> getPacketRexmitTime offset (u_pSndBuffer u);
       Some (\<not> tsLastRexmit \<ge> time_nak) })"

text \<open>The inner loop, which skips the numbers that precede the buffer.\<close>

partial_function (option) skip_outdated :: "CUDT \<Rightarrow> (int \<times> int \<times> CUDT) option" where
  "skip_outdated u = do {
     (seq, l) \<leftarrow> popLostSeq (u_pSndLossList u);
     let u = u\<lparr>u_pSndLossList := l\<rparr>;
     if seq = SRT_SEQNO_NONE then Some (seq, - 1, u)
     else (let offset = seqoff (u_iSndLastDataAck u) seq in
           if offset \<ge> 0 then Some (seq, offset, u) else skip_outdated u) }"

declare skip_outdated.simps [code]

partial_function (option) getCleanRexmitOffset :: "snd_config \<Rightarrow> (nat \<Rightarrow> int) \<Rightarrow> CUDT \<Rightarrow> (int \<times> int \<times> CUDT) option" where
  "getCleanRexmitOffset cf now u = do {
     (seq0, l) \<leftarrow> popLostSeq (u_pSndLossList u);
     let u = u\<lparr>u_pSndLossList := l\<rparr>;
     if seq0 = SRT_SEQNO_NONE then Some (SRT_SEQNO_NONE, - 1, u)
     else do {
       let offset0 = seqoff (u_iSndLastDataAck u) seq0;
       (seq, offset, u) \<leftarrow> (if offset0 < 0
          then map_option (\<lambda>(seq, offset, u). (seq, offset,
                 sendCtrl (CTRL_DROPREQ SRT_MSGNO_CONTROL seq0 (decseq (u_iSndLastDataAck u))) u)) (skip_outdated u)
          else Some (seq0, offset0, u));
       if seq = SRT_SEQNO_NONE then Some (SRT_SEQNO_NONE, - 1, u)
       else do {
         right \<leftarrow> checkRexmitRightTime cf offset (now 0) u;
         if right then Some (seq, offset, u) else getCleanRexmitOffset cf (\<lambda>i. now (Suc i)) u } } }"

declare getCleanRexmitOffset.simps [code]

text \<open>The block that is not meant as a loop: with every round come two readings of the clock.\<close>

partial_function (option) extractCleanRexmitPacket :: "(nat \<Rightarrow> int \<times> int) \<Rightarrow> int \<Rightarrow> int \<Rightarrow> CPacket \<Rightarrow> int \<Rightarrow> CUDT \<Rightarrow>
    (int \<times> CPacket \<times> int \<times> CUDT) option" where
  "extractCleanRexmitPacket now seqno offset pkt tsOrigin u = do {
     let pkt = set_seqno seqno pkt;
     (r, b) \<leftarrow> readData_rexmit offset (fst (now 0)) (snd (now 0)) pkt tsOrigin
        \<lparr>dr_begin = 0, dr_end = 0, dr_msgno = 0\<rparr> (u_pSndBuffer u);
     let u = u\<lparr>u_pSndBuffer := b\<rparr>;
     if rx_return r = READ_DROP then do {
       _ \<leftarrow> SRT_ASSERT (seqoff (dr_begin (rx_drop r)) (dr_end (rx_drop r)) \<ge> 0);
       let u = sendCtrl (CTRL_DROPREQ (dr_msgno (rx_drop r)) (dr_begin (rx_drop r)) (dr_end (rx_drop r))) u;
       l \<leftarrow> removeUpTo (dr_end (rx_drop r)) (u_pSndLossList u);
       extractCleanRexmitPacket (\<lambda>i. now (Suc i)) seqno offset (rx_packet r) (rx_srctime r)
         (u\<lparr>u_pSndLossList := l, u_iSndCurrSeqNo := maxseq (u_iSndCurrSeqNo u) (dr_end (rx_drop r))\<rparr>) }
     else if rx_return r = READ_NONE then Some (0, rx_packet r, rx_srctime r, u)
     else Some (rx_return r, rx_packet r, rx_srctime r, u) }"

declare extractCleanRexmitPacket.simps [code]

definition makeTS :: "int \<Rightarrow> int \<Rightarrow> u32 option" where
  "makeTS from_time tsStartTime = (if from_time \<ge> tsStartTime then Some (word_of_int (from_time - tsStartTime)) else None)"

definition setDataPacketTS :: "snd_config \<Rightarrow> int \<Rightarrow> int \<Rightarrow> CPacket \<Rightarrow> CPacket option" where
  "setDataPacketTS cf now ts p = do {
     t \<leftarrow> makeTS (if \<not> cf_bPeerTsbPd cf \<or> ts < cf_tsStartTime cf then now else ts) (cf_tsStartTime cf);
     Some (p\<lparr>m_nHeader := (m_nHeader p)(SRT_PH_TIMESTAMP := t)\<rparr>) }"

text \<open>The clock of a call: that of the search, that of the buffer and that of the time stamp.\<close>

record rexmit_clock =
  ck_search :: "nat \<Rightarrow> int"
  ck_read :: "nat \<Rightarrow> int \<times> int"
  ck_stamp :: int

definition packLostData :: "snd_config \<Rightarrow> rexmit_clock \<Rightarrow> CPacket \<Rightarrow> CUDT \<Rightarrow> (int \<times> CPacket \<times> CUDT) option" where
  "packLostData cf ck pkt u = do {
     (seqno, offset, u) \<leftarrow> getCleanRexmitOffset cf (ck_search ck) u;
     if seqno = SRT_SEQNO_NONE then Some (0, pkt, u)
     else do {
       (payload, pkt, tsOrigin, u) \<leftarrow> extractCleanRexmitPacket (ck_read ck) seqno offset pkt 0 u;
       if payload \<le> 0 then Some (0, pkt, u)
       else do {
         let pkt = (if cf_bPeerRexmitFlag cf
               then set_msgflags (m_nHeader pkt SRT_PH_MSGNO OR BitsetMask 26 26) pkt else pkt);
         pkt \<leftarrow> setDataPacketTS cf (ck_stamp ck) tsOrigin pkt;
         Some (int (m_Length pkt), pkt, u) } } }"

section \<open>Sending for the first time\<close>

definition EK_NOENC :: int where "EK_NOENC = 0"

definition set_id :: "u32 \<Rightarrow> CPacket \<Rightarrow> CPacket" where
  "set_id i p = p\<lparr>m_nHeader := (m_nHeader p)(SRT_PH_ID := i)\<rparr>"

definition packUniqueData :: "snd_config \<Rightarrow> (nat \<Rightarrow> int) \<Rightarrow> int \<Rightarrow> CPacket \<Rightarrow> CUDT \<Rightarrow> (bool \<times> CPacket \<times> CUDT) option" where
  "packUniqueData cf now stamp pkt u = (
     if min (u_iFlowWindowSize u) (u_iCongestionWindow u) \<le> getFlightSpan u then Some (False, pkt, u)
     else do {
       (r, b) \<leftarrow> readData EK_NOENC now pkt 0 (u_pSndBuffer u);
       let u = u\<lparr>u_pSndBuffer := b,
            u_iSndCurrSeqNo := (if rr_seqnoinc r \<noteq> 0 then incseq_by (u_iSndCurrSeqNo u) (rr_seqnoinc r) else u_iSndCurrSeqNo u)\<rparr>;
       if rr_readlen r = 0 then Some (False, rr_packet r, u)
       else do {
         let u = u\<lparr>u_iSndCurrSeqNo := incseq (u_iSndCurrSeqNo u)\<rparr>;
         pkt \<leftarrow> setDataPacketTS cf stamp (rr_srctime r) (set_id (cf_PeerID cf) (set_seqno (u_iSndCurrSeqNo u) (rr_packet r)));
         Some (True, pkt, u) } })"

text \<open>Whether new packets go before retransmitted ones.\<close>

definition isRegularSendingPriority :: "snd_config \<Rightarrow> CUDT \<Rightarrow> bool option" where
  "isRegularSendingPriority cf u = (
     if \<not> cf_bPeerTLPktDrop cf \<or> \<not> cf_bMessageAPI cf then Some False
     else map_option (\<lambda>t. t \<noteq> 0) (peekNextOriginal (u_pSndBuffer u)))"

text \<open>What \<^verbatim>\<open>packData\<close> picks, without a packet filter: a retransmission first, unless a new packet has
  priority, and a new one when there is none.\<close>

datatype picked = PICK_NONE | PICK_REXMIT | PICK_NEW

definition pick_packet :: "snd_config \<Rightarrow> rexmit_clock \<Rightarrow> (nat \<Rightarrow> int) \<Rightarrow> int \<Rightarrow> CPacket \<Rightarrow> CUDT \<Rightarrow>
    (picked \<times> CPacket \<times> CUDT) option" where
  "pick_packet cf ck now stamp pkt u = do {
     regular \<leftarrow> isRegularSendingPriority cf u;
     (payload, pkt, u) \<leftarrow> (if regular then Some (0, pkt, u) else packLostData cf ck pkt u);
     if payload > 0 then Some (PICK_REXMIT, pkt, u)
     else do {
       (packed, pkt, u) \<leftarrow> packUniqueData cf now stamp pkt u;
       Some (if packed then PICK_NEW else PICK_NONE, pkt, u) } }"

definition PUMASK_SEQNO_PROBE :: u32 where "PUMASK_SEQNO_PROBE = 0xF"

text \<open>When the next packet is due: at once after the first of a probing pair, whose lead is taken back later, and else after the
  interval, shortened by what the socket is behind its schedule.\<close>

definition set_next_time :: "int \<Rightarrow> bool \<Rightarrow> CUDT \<Rightarrow> CUDT" where
  "set_next_time enter_time probe u = (let sendint = u_tdSendInterval u; sendbrw = u_tdSendTimeDiff u in
     if probe then u\<lparr>u_tsNextSendTime := enter_time, u_tdSendTimeDiff := sendbrw - sendint\<rparr>
     else if sendbrw \<ge> sendint then u\<lparr>u_tsNextSendTime := enter_time, u_tdSendTimeDiff := sendbrw - sendint\<rparr>
     else u\<lparr>u_tsNextSendTime := enter_time + (sendint - sendbrw), u_tdSendTimeDiff := 0\<rparr>)"

text \<open>The result says whether there is a packet, and when the next one is due.\<close>

definition packData :: "snd_config \<Rightarrow> rexmit_clock \<Rightarrow> (nat \<Rightarrow> int) \<Rightarrow> int \<Rightarrow> int \<Rightarrow> CPacket \<Rightarrow> CUDT \<Rightarrow>
    (bool \<times> int \<times> CPacket \<times> CUDT) option" where
  "packData cf ck now stamp enter_time pkt u = (
     let u = (if u_tsNextSendTime u \<noteq> 0 \<and> enter_time > u_tsNextSendTime u
           then u\<lparr>u_tdSendTimeDiff := u_tdSendTimeDiff u + (enter_time - u_tsNextSendTime u)\<rparr> else u) in
     if \<not> u_bOpened u then Some (False, enter_time, pkt, u)
     else do {
       (k, pkt, u) \<leftarrow> pick_packet cf ck now stamp pkt u;
       if k = PICK_NONE then Some (False, enter_time, pkt, u\<lparr>u_tsNextSendTime := 0, u_tdSendTimeDiff := 0\<rparr>)
       else do {
         let pkt = set_id (cf_PeerID cf) pkt;
         let probe = (k = PICK_NEW \<and> m_nHeader pkt SRT_PH_SEQNO AND PUMASK_SEQNO_PROBE = 0);
         let u = set_next_time enter_time probe (u\<lparr>u_tsLastSndTime := enter_time\<rparr>);
         Some (True, u_tsNextSendTime u, pkt, u) } })"

section \<open>The retransmission timer\<close>

text \<open>Without the resending of the handshake and of key material.\<close>

definition checkRexmitTimer :: "snd_config \<Rightarrow> int \<Rightarrow> CUDT \<Rightarrow> CUDT option" where
  "checkRexmitTimer cf currtime u = (
     let rtt_syn = e_iSRTT (u_est u) + 4 * e_iRTTVar (u_est u) + 2 * COMM_SYN_INTERVAL_US;
         exp_int_us = u_iReXmitCount u * rtt_syn + COMM_SYN_INTERVAL_US in
     if currtime \<le> u_tsLastRspAckTime u + exp_int_us then Some u
     else if getCurrBufSize (u_pSndBuffer u) \<le> 0 then Some u
     else if cf_rexmitMethod cf = SRM_FASTREXMIT \<and> cf_bPeerNakReport cf then Some u
     else do {
       u \<leftarrow> (if getFlightSpan u > 0 \<and> (cf_rexmitMethod cf \<noteq> SRM_LATEREXMIT \<or> getLossLength (u_pSndLossList u) = 0)
             then insert_into_loss (u_iSndLastAck u) (u_iSndCurrSeqNo u) u else Some u);
       Some (u\<lparr>u_iReXmitCount := u_iReXmitCount u + 1\<rparr>) })"

section \<open>The connection\<close>

text \<open>The buffers of a connection; the initial estimates and windows come from the handshake.\<close>

definition prepareBuffers :: "snd_config \<Rightarrow> Block \<Rightarrow> (int \<Rightarrow> int) \<Rightarrow> CUDT \<Rightarrow> CUDT option" where
  "prepareBuffers cf g junk u = do {
     _ \<leftarrow> SRT_ASSERT (cf_iMaxDataPayloadSize cf \<noteq> 0);
     b \<leftarrow> CSndBuffer_new g 32 (cf_iMaxDataPayloadSize cf) 0;
     Some (u\<lparr>u_pSndBuffer := b, u_pSndLossList := CSndLossList_new junk (u_iFlowWindowSize u * 2)\<rparr>) }"

text \<open>What can happen on the sending side, and what it gives: the result of a call or a packet for the peer.
  The congestion controller may change its window and its interval at any time.\<close>

datatype snd_event =
    EvSend bool Block "nat \<Rightarrow> alloc_result" send_clock "byte list" int SRT_MSGCTRL
  | EvAck CPacket int bool
  | EvLoss CPacket
  | EvPack rexmit_clock "nat \<Rightarrow> int" int int CPacket
  | EvTimer int
  | EvControl int int

datatype snd_out = OutSend "core_error + int \<times> SRT_MSGCTRL" | OutPacket CPacket | OutNone

definition snd_do :: "snd_config \<Rightarrow> snd_event \<Rightarrow> CUDT \<Rightarrow> (snd_out \<times> CUDT) option" where
  "snd_do cf e u = (case e of
     EvSend tok g mem sk data len m \<Rightarrow> map_option (\<lambda>(r, u). (OutSend r, u)) (sendmsg2 cf tok g mem sk data len m u)
   | EvAck p t br \<Rightarrow> map_option (\<lambda>(r, u). (OutNone, u)) (processCtrlAck cf p t br u)
   | EvLoss p \<Rightarrow> map_option (\<lambda>(r, u). (OutNone, u)) (processCtrlLossReport p u)
   | EvPack ck now stamp t pkt \<Rightarrow>
       map_option (\<lambda>(r, next, p, u). (if r then OutPacket p else OutNone, u)) (packData cf ck now stamp t pkt u)
   | EvTimer t \<Rightarrow> map_option (Pair OutNone) (checkRexmitTimer cf t u)
   | EvControl w i \<Rightarrow> Some (OutNone, u\<lparr>u_iCongestionWindow := w, u_tdSendInterval := i\<rparr>))"

end
