(* ===== verification/SndCoreInv.thy ===== *)
theory SndCoreInv
  imports SndCore
begin

text \<open>
  The invariant of the sending side and that every handler keeps it.  \<open>H\<close> is the history of the packets
  scheduled so far; the sequence numbers count its packets from \<open>I\<close>.  The first \<open>a\<close> of them
  are acknowledged or dropped, the next \<open>c\<close> have been sent, and the rest wait in the sender buffer.  The
  loss list holds numbers of packets in flight only.
\<close>

definition same_pkt :: "spkt \<Rightarrow> spkt \<Rightarrow> bool" where
  "same_pkt p p' \<longleftrightarrow> p = p'\<lparr>p_rexmit := p_rexmit p\<rparr>"

definition hist_ok :: "int \<Rightarrow> spkt list \<Rightarrow> bool" where
  "hist_ok I H \<longleftrightarrow> (\<forall>k < length H. p_seq (H ! k) = sq (I + int k) \<and> p_ttl (H ! k) < 0 \<and> p_data (H ! k) \<noteq> [])"

definition msgno_ok :: "int \<Rightarrow> bool" where
  "msgno_ok n \<longleftrightarrow> 1 \<le> n \<and> n < msgno_over"

definition buffer_ok :: "int \<Rightarrow> int \<Rightarrow> spkt list \<Rightarrow> nat \<Rightarrow> nat \<Rightarrow> CSndBuffer \<Rightarrow> bool" where
  "buffer_ok pl I H a c s \<longleftrightarrow> (\<exists>R q. snd_ok R q c s \<and> a + length q = length H \<and>
     (\<forall>i < length q. same_pkt (q ! i) (H ! (a + i)))) \<and>
     getMaxPacketLen s = pl \<and> 0 < pl \<and> pl \<le> sb_iBlockLen s \<and> msgno_ok (sb_iNextMsgNo s)"

definition losses_ok :: "int \<Rightarrow> int \<Rightarrow> nat \<Rightarrow> nat \<Rightarrow> CSndLossList \<Rightarrow> bool" where
  "losses_ok sz I a c l \<longleftrightarrow> (\<exists>L. holds sz (I + int a) L l \<and> L \<subseteq> {I + int a..<I + int a + int c})"

definition cfg_ok :: "snd_config \<Rightarrow> int \<Rightarrow> bool" where
  "cfg_ok cf sz \<longleftrightarrow> cf_bMessageAPI cf \<and> 0 < sz \<and> 0 \<le> cf_iSndBufSize cf \<and> 2 * sz + cf_iSndBufSize cf < m_iSeqNoTH"

text \<open>Everything but the last acknowledgement, which \<^verbatim>\<open>updateSndLossListOnACK\<close> leaves behind for a moment.\<close>

definition core_base :: "snd_config \<Rightarrow> int \<Rightarrow> int \<Rightarrow> spkt list \<Rightarrow> nat \<Rightarrow> nat \<Rightarrow> CUDT \<Rightarrow> bool" where
  "core_base cf sz I H a c u \<longleftrightarrow> cfg_ok cf sz \<and> hist_ok I H \<and> buffer_ok (cf_iMaxDataPayloadSize cf) I H a c (u_pSndBuffer u) \<and>
     losses_ok sz I a c (u_pSndLossList u) \<and> a + c \<le> length H \<and> int c < sz \<and> int (length H) \<le> int a + cf_iSndBufSize cf \<and>
     u_iSndLastDataAck u = sq (I + int a) \<and> u_iSndCurrSeqNo u = sq (I + int a + int c - 1) \<and>
     u_iSndNextSeqNo u = sq (I + int (length H))"

definition core_ok :: "snd_config \<Rightarrow> int \<Rightarrow> int \<Rightarrow> spkt list \<Rightarrow> nat \<Rightarrow> nat \<Rightarrow> CUDT \<Rightarrow> bool" where
  "core_ok cf sz I H a c u \<longleftrightarrow> core_base cf sz I H a c u \<and> u_iSndLastAck u = sq (I + int a)"

section \<open>Numbers\<close>

text \<open>Any number is the one \<^const>\<open>seqoff\<close> finds from another.\<close>

lemma sq_turn: "sq (X + 2147483648) = sq X" "sq (X - 2147483648) = sq X"
  using mod_add_self2 [of X 2147483648] minus_mod_self2 [of X 2147483648] by (simp_all add: sq_def)

lemma sq_seqoff:
  assumes "seq_ok w"
  shows "w = sq (Y + seqoff (sq Y) w)"
proof -
  have "Y + (w - Y mod 2147483648) = w + Y div 2147483648 * 2147483648"
    using div_mult_mod_eq [of Y 2147483648] by linarith
  then have "(Y + (w - Y mod 2147483648)) mod 2147483648 = w mod 2147483648" by (simp only: mod_mult_self1)
  then have w: "sq (Y + (w - sq Y)) = w" using sq_of_ok [OF assms] by (simp add: sq_def)
  have "Y + seqoff (sq Y) w \<in> {Y + (w - sq Y), Y + (w - sq Y) + 2147483648, Y + (w - sq Y) - 2147483648}"
    by (auto simp: seqoff_def m_iMaxSeqNo_def)
  then show ?thesis using w sq_turn [of "Y + (w - sq Y)"] by (elim insertE emptyE) (simp_all only:)
qed

lemma word_sq: "sint (word_of_int (sq X) :: u32) = sq X"
  using sq_range [of X] signed_take_bit_int_eq_self [of 31 "sq X"] by (simp add: sint_sbintrunc')

lemma incseq_funpow: "(incseq ^^ n) (sq X) = sq (X + int n)"
  by (induction n) (simp_all add: ac_simps)

section \<open>The buffer\<close>

lemma chunk_nonempty:
  assumes "i < num_packets pl msg" and "0 < pl"
  shows "take (nat pl) (drop (i * nat pl) msg) \<noteq> []"
proof -
  have "i * nat pl \<le> (num_packets pl msg - 1) * nat pl" using assms by (intro mult_le_mono1) simp
  moreover have "num_packets pl msg * nat pl \<le> length msg + nat pl - 1"
    by (simp add: num_packets_def times_div_less_eq_dividend mult.commute)
  moreover have "(num_packets pl msg - 1) * nat pl = num_packets pl msg * nat pl - nat pl" by (simp add: diff_mult_distrib)
  moreover have "nat pl \<le> num_packets pl msg * nat pl" using assms by (cases "num_packets pl msg") auto
  ultimately have "i * nat pl < length msg" using assms by linarith
  then show ?thesis using assms by simp
qed

lemma hist_ok_append:
  assumes "hist_ok I H" and "mc_pktseq m = sq (I + int (length H))" and "mc_msgttl m < 0" and "0 < pl"
  shows "hist_ok I (H @ message_packets pl m msg)"
  unfolding hist_ok_def
proof (intro allI impI)
  fix k assume k: "k < length (H @ message_packets pl m msg)"
  show "p_seq ((H @ message_packets pl m msg) ! k) = sq (I + int k) \<and> p_ttl ((H @ message_packets pl m msg) ! k) < 0 \<and>
      p_data ((H @ message_packets pl m msg) ! k) \<noteq> []"
  proof (cases "k < length H")
    case True
    then show ?thesis using assms(1) by (simp add: nth_append hist_ok_def)
  next
    case False
    define i where "i = k - length H"
    have i: "i < num_packets pl msg" "int k = int (length H) + int i" using False k by (simp_all add: i_def)
    have "message_packets pl m msg ! i = msg_pkt pl (num_packets pl msg) m msg i" using i by (simp add: message_packets_def)
    then show ?thesis using False assms(2-4) i chunk_nonempty [OF i(1) assms(4)]
      by (simp add: nth_append i_def [symmetric] msg_pkt_def incseq_funpow add.assoc)
  qed
qed

lemma buffer_ok_ack:
  assumes "buffer_ok pl I H a c s" and "0 < k" and "a + k \<le> length H"
  shows "\<exists>s'. ackData (int k) s = Some s' \<and> buffer_ok pl I H (a + k) (c - k) s'"
proof -
  obtain R q where q: "snd_ok R q c s" "a + length q = length H" "\<forall>i < length q. same_pkt (q ! i) (H ! (a + i))"
    using assms(1) by (auto simp: buffer_ok_def)
  have k: "k = min (nat (int k)) (length q)" using q(2) assms(3) by simp
  obtain s' where s': "ackData (int k) s = Some s'" "snd_ok (rotate k R) (drop k q) (c - k) s'" "snd_frame s s'"
    using ackData_ok [OF q(1) k] by auto
  have "buffer_ok pl I H (a + k) (c - k) s'"
    using s' q assms k unfolding buffer_ok_def
    by (intro conjI exI [of _ "rotate k R"] exI [of _ "drop k q"]) (auto simp: snd_frame_def getMaxPacketLen_def add.assoc)
  with s' show ?thesis by simp
qed

lemma buffer_ok_late:
  assumes "buffer_ok pl I H a c s"
  shows "\<exists>d n m s'. dropLateData t s = Some ((int d, n, m), s') \<and> a + d \<le> length H \<and> buffer_ok pl I H (a + d) (c - d) s'"
proof -
  obtain R q where q: "snd_ok R q c s" "a + length q = length H" "\<forall>i < length q. same_pkt (q ! i) (H ! (a + i))"
    using assms(1) by (auto simp: buffer_ok_def)
  define d where "d = length (takeWhile (\<lambda>p. p_origin p < t) q)"
  have d: "d \<le> length q" by (simp add: d_def length_takeWhile_le)
  obtain n m s' where s': "dropLateData t s = Some ((int d, n, m), s')" "snd_ok (rotate d R) (drop d q) (c - d) s'" "snd_frame s s'"
    using dropLateData_ok [OF q(1) d_def] by auto
  have "buffer_ok pl I H (a + d) (c - d) s'"
    using s' q assms d unfolding buffer_ok_def
    by (intro conjI exI [of _ "rotate d R"] exI [of _ "drop d q"]) (auto simp: snd_frame_def getMaxPacketLen_def add.assoc)
  with s' q(2) d show ?thesis by auto
qed

section \<open>The losses\<close>

lemma losses_remove:
  assumes "losses_ok sz I a c l" and "a < b" and "0 < sz" and "int b - int a \<le> m_iSeqNoTH - sz - 1" and "int c \<le> sz"
  shows "\<exists>l'. removeUpTo (sq (I + int b - 1)) l = Some l' \<and> losses_ok sz I b (a + c - b) l'"
proof -
  obtain L where L: "holds sz (I + int a) L l" "L \<subseteq> {I + int a..<I + int a + int c}" using assms(1) by (auto simp: losses_ok_def)
  have "call_ok sz (I + int a, RemoveUpTo (I + int b - 1)) L"
    using L assms(2-) by (auto simp: call_ok_def m_iSeqNoTH_def)
  from snd_list.call_law [OF L(1) this] obtain l' where
    l': "removeUpTo (sq (I + int b - 1)) l = Some l'" "holds sz (I + int a) (L \<inter> {I + int b - 1<..}) l'"
    by (auto simp: code_call_def set_call_def set_result_def)
  have sub: "L \<inter> {I + int b - 1<..} \<subseteq> {I + int b..<I + int b + int (a + c - b)}"
    using L(2) assms(2) by (auto simp: of_nat_diff le_Suc_eq)
  have "holds sz (I + int b) (L \<inter> {I + int b - 1<..}) l'"
    by (rule holds_slide [OF l'(2)]) (use sub assms(2,5) in \<open>auto dest!: subsetD\<close>)
  then show ?thesis using l' sub by (auto simp: losses_ok_def)
qed

section \<open>Dropping late packets and sending messages\<close>

lemma core_baseD:
  assumes "core_base cf sz I H a c u"
  shows "cfg_ok cf sz" "hist_ok I H" "buffer_ok (cf_iMaxDataPayloadSize cf) I H a c (u_pSndBuffer u)" "losses_ok sz I a c (u_pSndLossList u)"
    "a + c \<le> length H" "int c < sz" "int (length H) \<le> int a + cf_iSndBufSize cf" "u_iSndLastDataAck u = sq (I + int a)"
    "u_iSndCurrSeqNo u = sq (I + int a + int c - 1)" "u_iSndNextSeqNo u = sq (I + int (length H))"
  using assms by (simp_all add: core_base_def)

lemma cfg_okD:
  assumes "cfg_ok cf sz"
  shows "cf_bMessageAPI cf" "0 < sz" "0 \<le> cf_iSndBufSize cf" "2 * sz + cf_iSndBufSize cf < m_iSeqNoTH"
  using assms by (simp_all add: cfg_ok_def)

lemma core_base_est:
  "core_base cf sz I H a c (u\<lparr>u_iFlowWindowSize := f\<rparr>) = core_base cf sz I H a c u"
  "core_base cf sz I H a c (u\<lparr>u_iSndLastAck := f\<rparr>) = core_base cf sz I H a c u"
  "core_base cf sz I H a c (u\<lparr>u_iSndLastFullAck := f\<rparr>) = core_base cf sz I H a c u"
  "core_base cf sz I H a c (u\<lparr>u_iSndLastAck2 := f\<rparr>) = core_base cf sz I H a c u"
  "core_base cf sz I H a c (u\<lparr>u_SndLastAck2Time := f\<rparr>) = core_base cf sz I H a c u"
  "core_base cf sz I H a c (u\<lparr>u_est := e\<rparr>) = core_base cf sz I H a c u"
  "core_base cf sz I H a c (u\<lparr>u_ctrl := l\<rparr>) = core_base cf sz I H a c u"
  "core_base cf sz I H a c (u\<lparr>u_bBroken := bb\<rparr>) = core_base cf sz I H a c u"
  "core_base cf sz I H a c (u\<lparr>u_iCongestionWindow := f\<rparr>) = core_base cf sz I H a c u"
  "core_base cf sz I H a c (u\<lparr>u_tsLastRspAckTime := f\<rparr>) = core_base cf sz I H a c u"
  "core_base cf sz I H a c (u\<lparr>u_iReXmitCount := f\<rparr>) = core_base cf sz I H a c u"
  "core_base cf sz I H a c (u\<lparr>u_tsNextSendTime := f\<rparr>) = core_base cf sz I H a c u"
  "core_base cf sz I H a c (u\<lparr>u_tdSendTimeDiff := f\<rparr>) = core_base cf sz I H a c u"
  "core_base cf sz I H a c (u\<lparr>u_tdSendInterval := f\<rparr>) = core_base cf sz I H a c u"
  "core_base cf sz I H a c (u\<lparr>u_tsLastSndTime := f\<rparr>) = core_base cf sz I H a c u"
  "core_base cf sz I H a c (sendCtrl msg u) = core_base cf sz I H a c u"
  by (simp_all add: core_base_def sendCtrl_def)

lemma sndDropTooLate_ok:
  assumes ok: "core_ok cf sz I H a c u"
  shows "\<exists>n u' a' c'. sndDropTooLate cf t u = Some (Inr n, u') \<and> core_ok cf sz I H a' c' u' \<and> u_bBroken u' = u_bBroken u"
proof -
  have base: "core_base cf sz I H a c u" and la: "u_iSndLastAck u = sq (I + int a)" using ok by (simp_all add: core_ok_def)
  note b = core_baseD [OF base] and cf = cfg_okD [OF core_baseD(1) [OF base]]
  define th where "th = (if cf_iSndDropDelay cf \<ge> 0 then max (cf_iPeerTsbPdDelay_ms cf + cf_iSndDropDelay cf) SRT_TLPKTDROP_MINTHRESHOLD_MS +
                  c_div (2 * COMM_SYN_INTERVAL_US) 1000 else 0)"
  obtain del where del: "getBufferingDelay t (u_pSndBuffer u) = Some del"
    using b(3) getBufferingDelay_ok by (auto simp: buffer_ok_def)
  show ?thesis
  proof (cases "cf_bPeerTLPktDrop cf \<and> th \<noteq> 0 \<and> count_milliseconds del > th")
    case False
    then have "sndDropTooLate cf t u = Some (Inr 0, u)"
      using cf(1) del by (auto simp: sndDropTooLate_def th_def [symmetric] Let_def)
    then show ?thesis using ok by blast
  next
    case True
    obtain d n m s' where s': "dropLateData (t - th * 1000) (u_pSndBuffer u) = Some ((int d, n, m), s')" "a + d \<le> length H"
        "buffer_ok (cf_iMaxDataPayloadSize cf) I H (a + d) (c - d) s'" using buffer_ok_late [OF b(3)] by blast
    have drp: "sndDropTooLate cf t u = (if int d \<le> 0 then Some (Inr 0, u\<lparr>u_pSndBuffer := s'\<rparr>)
         else do {
           l \<leftarrow> removeUpTo (decseq (incseq_by (u_iSndLastDataAck u) (int d))) (u_pSndLossList u);
           Some (Inr (int d), u\<lparr>u_pSndBuffer := s', u_iFlowWindowSize := u_iFlowWindowSize u + int d, u_iSndLastAck := incseq_by (u_iSndLastDataAck u) (int d),
              u_iSndLastDataAck := incseq_by (u_iSndLastDataAck u) (int d), u_pSndLossList := l,
              u_iSndCurrSeqNo := (if seqcmp (u_iSndCurrSeqNo u) (decseq (incseq_by (u_iSndLastDataAck u) (int d))) < 0
                then decseq (incseq_by (u_iSndLastDataAck u) (int d)) else u_iSndCurrSeqNo u)\<rparr>) })"
      using True cf(1) del s'(1) by (simp add: sndDropTooLate_def th_def [symmetric] Let_def)
    show ?thesis
    proof (cases "d = 0")
      case True
      then have "core_ok cf sz I H a c (u\<lparr>u_pSndBuffer := s'\<rparr>)" using ok s'(3) by (simp add: core_ok_def core_base_def)
      then show ?thesis using drp True by fastforce
    next
      case False
      have dn: "int d \<le> cf_iSndBufSize cf" using s'(2) b(7) by linarith
      have fake: "incseq_by (u_iSndLastDataAck u) (int d) = sq (I + int (a + d))"
        using incseq_by_sq [of "int d" "I + int a"] dn cf(4) cf(2) by (simp add: b(8) m_iSeqNoTH_def add.assoc)
      have dec: "decseq (incseq_by (u_iSndLastDataAck u) (int d)) = sq (I + int (a + d) - 1)" by (simp add: fake)
      obtain l' where l': "removeUpTo (sq (I + int (a + d) - 1)) (u_pSndLossList u) = Some l'" "losses_ok sz I (a + d) (a + c - (a + d)) l'"
        using losses_remove [OF b(4), of "a + d"] False cf dn b(6) by auto
      have cur: "(if seqcmp (u_iSndCurrSeqNo u) (sq (I + int (a + d) - 1)) < 0 then sq (I + int (a + d) - 1) else u_iSndCurrSeqNo u) =
          sq (I + int (a + d) + int (c - d) - 1)"
        using seqcmp_sq(1) [of "I + int a + int c - 1" "I + int (a + d) - 1"] cf dn b(6) unfolding b(9)
        by (auto simp: of_nat_diff algebra_simps)
      let ?u = "u\<lparr>u_pSndBuffer := s', u_iFlowWindowSize := u_iFlowWindowSize u + int d, u_iSndLastAck := sq (I + int (a + d)),
              u_iSndLastDataAck := sq (I + int (a + d)), u_pSndLossList := l',
              u_iSndCurrSeqNo := sq (I + int (a + d) + int (c - d) - 1)\<rparr>"
      have "sndDropTooLate cf t u = Some (Inr (int d), ?u)"
        unfolding drp unfolding dec unfolding fake unfolding cur l'(1) using False by simp
      moreover have "core_ok cf sz I H (a + d) (c - d) ?u"
        using base s'(2,3) l'(2) b by (auto simp: core_ok_def core_base_def)
      ultimately show ?thesis by fastforce
    qed
  qed
qed

lemma num_packets_bound:
  assumes "0 < pl" and "0 \<le> len" and "len \<le> int (length data)" and "countNumPacketsRequired len pl = Some n"
  shows "n = int (num_packets pl (take (nat len) data))"
  using countNumPacketsRequired_eq [OF assms(1-3)] assms(4) by simp

lemma next_msgno_ok: "msgno_ok n \<Longrightarrow> msgno_ok (next_msgno n)"
  by (simp add: msgno_ok_def next_msgno_def roll_inc_def msgno_over_def Let_def)

lemma schedule_message_ok:
  assumes ok: "core_ok cf sz I H a c u" and len: "0 < len" "len \<le> int (length data)" and ttl: "mc_msgttl m < 0"
    and no: "mc_msgno m = - 1 \<or> msgno_ok (mc_msgno m)"
    and room: "int (length H) + int (num_packets (cf_iMaxDataPayloadSize cf) (take (nat len) data)) \<le> int a + cf_iSndBufSize cf"
  shows "\<exists>r u'. schedule_message cf g mem tnow data len m u = Some (r, u') \<and> u_bBroken u' = u_bBroken u \<and>
    (case r of Inl e \<Rightarrow> core_ok cf sz I H a c u'
     | Inr m' \<Rightarrow> msgno_ok (mc_msgno m') \<and>
         core_ok cf sz I (H @ message_packets (cf_iMaxDataPayloadSize cf) m' (take (nat len) data)) a c u')"
proof -
  have base: "core_base cf sz I H a c u" and la: "u_iSndLastAck u = sq (I + int a)" using ok by (simp_all add: core_ok_def)
  note b = core_baseD [OF base]
  let ?pl = "cf_iMaxDataPayloadSize cf" and ?msg = "take (nat len) data"
  define m1 where "m1 = m\<lparr>mc_pktseq := u_iSndNextSeqNo u\<rparr>"
  define m2 where "m2 = (if mc_srctime m1 \<noteq> 0 \<and> (\<not> cf_bMessageAPI cf \<or> \<not> cf_bTsbPd cf) then m1\<lparr>mc_srctime := 0\<rparr> else m1)"
  have m2: "mc_pktseq m2 = sq (I + int (length H))" "mc_msgttl m2 < 0" using ttl b(10) by (simp_all add: m1_def m2_def)
  show ?thesis
  proof (cases "mc_srctime m1 \<noteq> 0 \<and> mc_srctime m1 < cf_tsStartTime cf")
    case True
    then have "schedule_message cf g mem tnow data len m u = Some (Inl INVALMSGAPI, u)"
      by (simp add: schedule_message_def Let_def m1_def)
    then show ?thesis using ok by fastforce
  next
    case False
    have sch: "schedule_message cf g mem tnow data len m u = do {
       (r, b) \<leftarrow> addBuffer g mem tnow data len m2 (u_pSndBuffer u);
       case r of Inl e \<Rightarrow> Some (Inl (SYSTEMRES e), u\<lparr>u_pSndBuffer := b\<rparr>)
       | Inr mctrl \<Rightarrow> Some (Inr (mctrl\<lparr>mc_pktseq := u_iSndNextSeqNo u\<rparr>), u\<lparr>u_pSndBuffer := b, u_iSndNextSeqNo := mc_pktseq mctrl\<rparr>) }"
      using False unfolding schedule_message_def Let_def m1_def [symmetric] m2_def [symmetric] by auto
    obtain R q where q: "snd_ok R q c (u_pSndBuffer u)" "a + length q = length H" "\<forall>i < length q. same_pkt (q ! i) (H ! (a + i))"
      and pl: "?pl = getMaxPacketLen (u_pSndBuffer u)" "0 < ?pl" "?pl \<le> sb_iBlockLen (u_pSndBuffer u)" "msgno_ok (sb_iNextMsgNo (u_pSndBuffer u))"
      using b(3) by (auto simp: buffer_ok_def)
    have "0 \<le> len" using len by simp
    from addBuffer_ok [OF q(1) pl(1-3) this len(2), of g mem tnow m2] obtain r R' s' where
      r: "addBuffer g mem tnow data len m2 (u_pSndBuffer u) = Some (r, s')" "sb_iBlockLen s' = sb_iBlockLen (u_pSndBuffer u)"
        "sb_iAuthTagSize s' = sb_iAuthTagSize (u_pSndBuffer u)"
        "case r of Inl e \<Rightarrow> snd_ok R' q c s' \<and> snd_frame (u_pSndBuffer u) s' \<and> (\<exists>i. mem i \<noteq> ALLOC_OK)
         | Inr m' \<Rightarrow> snd_ok R' (q @ message_packets ?pl (resolved tnow (u_pSndBuffer u) m2) ?msg) c s' \<and>
             m' = (resolved tnow (u_pSndBuffer u) m2)\<lparr>mc_pktseq := (incseq ^^ num_packets ?pl ?msg) (mc_pktseq m2)\<rparr> \<and>
             sb_iNextMsgNo s' = next_msgno (mc_msgno m') \<and> sb_tsLastOriginTime s' = mc_srctime m'" by blast
    have mx: "getMaxPacketLen s' = ?pl" "?pl \<le> sb_iBlockLen s'" using r(2,3) pl by (simp_all add: getMaxPacketLen_def)
    show ?thesis
    proof (cases r)
      case (Inl e)
      have "buffer_ok ?pl I H a c s'" using Inl r(4) q mx pl(2,4) by (auto simp: buffer_ok_def snd_frame_def)
      then have "core_ok cf sz I H a c (u\<lparr>u_pSndBuffer := s'\<rparr>)" using ok by (simp add: core_ok_def core_base_def)
      then show ?thesis using sch r(1) Inl by fastforce
    next
      case (Inr m')
      let ?m = "resolved tnow (u_pSndBuffer u) m2"
      have m: "mc_pktseq ?m = sq (I + int (length H))" "mc_msgttl ?m < 0" using m2 by (simp_all add: resolved_def)
      have no': "msgno_ok (mc_msgno ?m)" using no pl(4) by (auto simp: resolved_def m2_def m1_def SRT_MSGNO_NONE_def)
      have nx: "sb_iNextMsgNo s' = next_msgno (mc_msgno ?m)" using r(4) Inr by simp
      have m': "m'\<lparr>mc_pktseq := u_iSndNextSeqNo u\<rparr> = ?m" "mc_pktseq m' = sq (I + int (length H) + int (num_packets ?pl ?msg))"
        using r(4) Inr m2(1) b(10) by (simp_all add: resolved_def incseq_funpow)
      let ?H = "H @ message_packets ?pl ?m ?msg"
      have "buffer_ok ?pl I ?H a c s'"
        unfolding buffer_ok_def
      proof (intro conjI exI [of _ R'] exI [of _ "q @ message_packets ?pl ?m ?msg"] allI impI)
        show "snd_ok R' (q @ message_packets ?pl ?m ?msg) c s'" using r(4) Inr by simp
        fix i assume "i < length (q @ message_packets ?pl ?m ?msg)"
        show "same_pkt ((q @ message_packets ?pl ?m ?msg) ! i) (?H ! (a + i))"
        proof (cases "i < length q")
          case True
          then have "a + i < length H" using q(2) by simp
          then show ?thesis using True q(3) by (simp add: nth_append)
        next
          case False
          then have "\<not> a + i < length H" "a + i - length H = i - length q" using q(2) by simp_all
          then show ?thesis using False by (simp add: nth_append same_pkt_def)
        qed
      qed (use q mx pl(2) next_msgno_ok [OF no'] nx in auto)
      moreover have "hist_ok I ?H" by (rule hist_ok_append [OF b(2) m pl(2)])
      ultimately have "core_ok cf sz I ?H a c (u\<lparr>u_pSndBuffer := s', u_iSndNextSeqNo := mc_pktseq m'\<rparr>)"
        using ok room m'(2) by (simp add: core_ok_def core_base_def add.assoc)
      moreover have "schedule_message cf g mem tnow data len m u = Some (Inr ?m, u\<lparr>u_pSndBuffer := s', u_iSndNextSeqNo := mc_pktseq m'\<rparr>)"
        using sch r(1) Inr m'(1) by simp
      ultimately show ?thesis using no' by fastforce
    qed
  qed
qed

lemma msgno_max: "MSGNO_SEQ_MAX = 67108863"
  by code_simp

lemma sendmsg2_ok:
  assumes ok: "core_ok cf sz I H a c u" and len: "len \<le> int (length data)" and ttl: "mc_msgttl m < 0"
  shows "\<exists>r u' a' c'. sendmsg2 cf tok g mem sk data len m u = Some (r, u') \<and>
    (case r of Inl e \<Rightarrow> core_ok cf sz I H a' c' u'
      | Inr (n, m') \<Rightarrow> if n \<le> 0 then core_ok cf sz I H a' c' u'
          else msgno_ok (mc_msgno m') \<and> n \<le> int (length data) \<and>
            core_ok cf sz I (H @ message_packets (cf_iMaxDataPayloadSize cf) m' (take (nat n) data)) a' c' u')"
proof -
  let ?pl = "cf_iMaxDataPayloadSize cf"
  have cf: "cf_bMessageAPI cf" using ok by (simp add: core_ok_def core_base_def cfg_ok_def)
  show ?thesis
  proof (cases "u_bBroken u \<or> len \<le> 0 \<or> mc_msgno m \<noteq> - 1 \<and> (mc_msgno m < 1 \<or> mc_msgno m > MSGNO_SEQ_MAX) \<or> \<not> tok \<or>
      len > cf_iSndBufSize cf * ?pl")
    case True
    then have "sendmsg2 cf tok g mem sk data len m u = Some (Inl CONNLOST, u) \<or> sendmsg2 cf tok g mem sk data len m u = Some (Inr (0, m), u) \<or>
      (\<exists>e. sendmsg2 cf tok g mem sk data len m u = Some (Inl e, u))"
      using cf by (auto simp: sendmsg2_def)
    then show ?thesis using ok by fastforce
  next
    case False
    note ch = False
    have l0: "0 < len" using False by simp
    define u0 where "u0 = (if getCurrBufSize (u_pSndBuffer u) = 0 then u\<lparr>u_tsLastRspAckTime := sk_reset sk, u_iReXmitCount := 1\<rparr> else u)"
    have "core_ok cf sz I H a c u0" using ok by (simp add: u0_def core_ok_def core_base_est)
    then obtain d u1 a1 c1 where u1: "sndDropTooLate cf (sk_drop sk) u0 = Some (Inr d, u1)" "core_ok cf sz I H a1 c1 u1"
      using sndDropTooLate_ok by blast
    obtain R q where q: "snd_ok R q c1 (u_pSndBuffer u1)" "a1 + length q = length H" and pl: "getMaxPacketLen (u_pSndBuffer u1) = ?pl" "0 < ?pl"
      using u1(2) by (auto simp: core_ok_def core_base_def buffer_ok_def)
    define n where "n = num_packets ?pl (take (nat len) data)"
    have cnt: "countNumPacketsRequired len (getMaxPacketLen (u_pSndBuffer u1)) = Some (int n)"
      using countNumPacketsRequired_eq [OF pl(2) _ len] l0 by (simp add: pl(1) n_def)
    have left: "sndBuffersLeft cf u1 = cf_iSndBufSize cf - int (length q)"
      using snd_ok_lens(2) [OF q(1)] by (simp add: sndBuffersLeft_def getCurrBufSize_def)
    have s: "sendmsg2 cf tok g mem sk data len m u = (if cf_bTsbPd cf \<and> int n > 1 then Some (Inl XSIZE, u1)
         else if sndBuffersLeft cf u1 < int n then Some (Inl WRAVAIL, u1)
         else do { (r, u) \<leftarrow> schedule_message cf g mem (sk_add sk) data len m u1;
           case r of Inl e \<Rightarrow> Some (Inl e, u) | Inr mctrl \<Rightarrow> Some (Inr (len, mctrl), u) })"
      using False cf u1(1) cnt by (auto simp: sendmsg2_def Let_def u0_def)
    show ?thesis
    proof (cases "cf_bTsbPd cf \<and> int n > 1 \<or> sndBuffersLeft cf u1 < int n")
      case True
      then have "\<exists>e. sendmsg2 cf tok g mem sk data len m u = Some (Inl e, u1)" using s by auto
      then show ?thesis using u1(2) by fastforce
    next
      case False
      have "int (length H) + int n \<le> int a1 + cf_iSndBufSize cf" using False left q(2) by linarith
      moreover have "mc_msgno m = - 1 \<or> msgno_ok (mc_msgno m)" using ch msgno_max by (auto simp: msgno_ok_def msgno_over_def)
      ultimately obtain r u' where
        r: "schedule_message cf g mem (sk_add sk) data len m u1 = Some (r, u')"
          "case r of Inl e \<Rightarrow> core_ok cf sz I H a1 c1 u'
           | Inr m' \<Rightarrow> msgno_ok (mc_msgno m') \<and> core_ok cf sz I (H @ message_packets ?pl m' (take (nat len) data)) a1 c1 u'"
        using schedule_message_ok [OF u1(2) l0 len ttl, of g mem "sk_add sk", folded n_def] by blast
      show ?thesis
      proof (cases r)
        case (Inl e)
        then have "sendmsg2 cf tok g mem sk data len m u = Some (Inl e, u')" using s False r(1) by auto
        then show ?thesis using r(2) Inl by fastforce
      next
        case (Inr m')
        then have "sendmsg2 cf tok g mem sk data len m u = Some (Inr (len, m'), u')" using s False r(1) by auto
        then show ?thesis using r(2) Inr l0 len by fastforce
      qed
    qed
  qed
qed

section \<open>Acknowledgements\<close>

lemma updateSndLossListOnACK_ok:
  assumes base: "core_base cf sz I H a c u" and x: "x \<le> int c" "- (m_iSeqNoTH - sz) < x"
  shows "\<exists>u'. updateSndLossListOnACK (sq (I + int a + x)) u = Some u' \<and>
    core_base cf sz I H (a + nat x) (c - nat x) u' \<and> u_iSndLastAck u' = u_iSndLastAck u \<and> u_iSndCurrSeqNo u' = u_iSndCurrSeqNo u"
proof -
  note b = core_baseD [OF base] and cf = cfg_okD [OF core_baseD(1) [OF base]]
  have off: "seqoff (u_iSndLastDataAck u) (sq (I + int a + x)) = x"
    using seqoff_sq [of "I + int a" "I + int a + x"] x b(6) cf by (simp add: b(8))
  show ?thesis
  proof (cases "x \<le> 0")
    case True
    then show ?thesis using base off by (simp add: updateSndLossListOnACK_def Let_def)
  next
    case False
    define k where "k = nat x"
    have k: "x = int k" "0 < k" "k \<le> c" "I + int a + x = I + int (a + k)" using False x by (simp_all add: k_def)
    obtain l' where l': "removeUpTo (sq (I + int (a + k) - 1)) (u_pSndLossList u) = Some l'" "losses_ok sz I (a + k) (a + c - (a + k)) l'"
      using losses_remove [OF b(4), of "a + k"] k cf b(6) by auto
    obtain s' where s': "ackData (int k) (u_pSndBuffer u) = Some s'" "buffer_ok (cf_iMaxDataPayloadSize cf) I H (a + k) (c - k) s'"
      using buffer_ok_ack [OF b(3) k(2)] k(3) b(5) by auto
    have "decseq (sq (I + int a + x)) = sq (I + int (a + k) - 1)" by (simp add: k(4))
    then have "updateSndLossListOnACK (sq (I + int a + x)) u =
        Some (u\<lparr>u_iSndLastDataAck := sq (I + int (a + k)), u_pSndLossList := l', u_pSndBuffer := s'\<rparr>)"
      using l'(1) s'(1) k(2) off [unfolded k(1)] unfolding k(1) by (simp add: updateSndLossListOnACK_def Let_def add.assoc)
    moreover have "core_base cf sz I H (a + k) (c - k) (u\<lparr>u_iSndLastDataAck := sq (I + int (a + k)), u_pSndLossList := l', u_pSndBuffer := s'\<rparr>)"
      using b l'(2) s'(2) k unfolding core_base_def by (simp add: of_nat_diff algebra_simps)
    ultimately show ?thesis by (fold k_def) fastforce
  qed
qed

text \<open>An acknowledgement the peer may send: nothing beyond what was sent, nor half a turn old.\<close>

definition ack_valid :: "int \<Rightarrow> CUDT \<Rightarrow> int \<Rightarrow> bool" where
  "ack_valid sz u w \<longleftrightarrow> seqoff (incseq (u_iSndCurrSeqNo u)) w \<le> 0 \<and> - (m_iSeqNoTH - 2 * sz) < seqoff (incseq (u_iSndCurrSeqNo u)) w"

lemma payload_word_ok: "packet_ok p \<Longrightarrow> 4 * i + 4 \<le> m_Length p \<Longrightarrow> \<exists>w. payload_word p i = Some w"
  by (simp add: payload_word_def packet_ok_def)

lemma payload_word_range: "payload_word p i = Some w \<Longrightarrow> w < 2 ^ 31"
  using sint_lt [of "load32 (take 4 (drop (4 * i) (m_pcData p)))"] by (auto simp: payload_word_def split: if_splits)

text \<open>The new last acknowledgement is the unwrapped one that \<open>updateSndLossListOnACK\<close> moved to.\<close>

lemma last_ack_ok:
  assumes "\<bar>x\<bar> < m_iSeqNoTH"
  shows "seqcmp (sq (I + int a + x)) (sq (I + int a)) \<ge> 0 \<longleftrightarrow> 0 \<le> x"
    "(if 0 \<le> x then sq (I + int a + x) else sq (I + int a)) = sq (I + int (a + nat x))"
  using seqcmp_sq(5) [of "I + int a + x" "I + int a"] assms by (auto simp: add.assoc)

text \<open>The sizes the rate fields are read for safely: five words would be one too few.\<close>

lemma update_rates_ok:
  assumes "packet_ok p" and "m_Length p div 4 \<noteq> 5"
  shows "\<exists>e'. update_rates cf p e = Some e'"
proof (cases "m_Length p div 4 > 4")
  case True
  then have "24 \<le> m_Length p" using assms(2) by linarith
  then obtain w4 w5 where "payload_word p 4 = Some w4" "payload_word p 5 = Some w5"
    using payload_word_ok [OF assms(1), of 4] payload_word_ok [OF assms(1), of 5] by auto
  moreover have "m_Length p div 4 > 6 \<Longrightarrow> \<exists>w. payload_word p 6 = Some w"
    by (rule payload_word_ok [OF assms(1)]) linarith
  ultimately show ?thesis using True by (auto simp: update_rates_def Let_def)
qed (simp add: update_rates_def Let_def)

lemma full_ack_ok:
  assumes base: "core_base cf sz I H (a + nat x) (c - nat x) u" and la: "u_iSndLastAck u = sq (I + int a)"
    and x: "\<bar>x\<bar> < m_iSeqNoTH - sz" "x \<le> int c" "int c < sz"
    and cur: "u_iSndCurrSeqNo u = sq (I + int a + int c - 1)"
    and p: "packet_ok p" "16 \<le> m_Length p" "m_Length p div 4 \<noteq> 5"
  shows "\<exists>r u'. full_ack cf p t br (sq (I + int a + x)) u = Some (r, u') \<and> core_ok cf sz I H (a + nat x) (c - nat x) u'"
proof -
  obtain w1 w2 w3 where w: "payload_word p 1 = Some w1" "payload_word p 2 = Some w2" "payload_word p 3 = Some w3"
    using payload_word_ok [OF p(1), of 1] payload_word_ok [OF p(1), of 2] payload_word_ok [OF p(1), of 3] p(2) by auto
  define v where "v = (let ack_seqno = sint (m_nHeader p SRT_PH_MSGNO) in
      if t - u_SndLastAck2Time u > COMM_SYN_INTERVAL_US \<or> ack_seqno = u_iSndLastAck2 u
      then (sendCtrl (CTRL_ACKACK ack_seqno) u)\<lparr>u_iSndLastAck2 := ack_seqno, u_SndLastAck2Time := t\<rparr> else u)"
  have v: "core_base cf sz I H (a + nat x) (c - nat x) v" "u_iSndLastAck v = sq (I + int a)" "u_iSndCurrSeqNo v = u_iSndCurrSeqNo u"
    using base la by (simp_all add: v_def Let_def core_base_est sendCtrl_def)
  have nb: "\<not> seqcmp (sq (I + int a + x)) (incseq (u_iSndCurrSeqNo v)) > 0"
    using seqcmp_sq(2) [of "I + int a + x" "I + int a + int c"] x v(3) cur by (simp add: algebra_simps)
  define v' where "v' = (if seqcmp (sq (I + int a + x)) (u_iSndLastAck v) \<ge> 0
      then v\<lparr>u_iFlowWindowSize := w3, u_iSndLastAck := sq (I + int a + x), u_tsLastRspAckTime := t, u_iReXmitCount := 1\<rparr> else v)"
  have "\<bar>x\<bar> < m_iSeqNoTH" using x by linarith
  note la' = last_ack_ok [OF this, of I a]
  have v': "core_ok cf sz I H (a + nat x) (c - nat x) v'"
    using v(1) la' by (auto simp: v'_def core_ok_def v(2) core_base_est)
  have eq: "full_ack cf p t br (sq (I + int a + x)) u = (if seqoff (u_iSndLastFullAck v') (sq (I + int a + x)) \<le> 0 then Some (True, v')
     else do { e \<leftarrow> update_rates cf p (update_rtt br w1 w2 (u_est v'));
               Some (True, v'\<lparr>u_iSndLastFullAck := sq (I + int a + x), u_est := e\<rparr>) })"
    unfolding full_ack_def Let_def v_def [unfolded Let_def, symmetric] w option.simps bind.simps v'_def [symmetric]
    using nb by simp
  obtain e where e: "update_rates cf p (update_rtt br w1 w2 (u_est v')) = Some e" using update_rates_ok [OF p(1,3)] by blast
  have "core_ok cf sz I H (a + nat x) (c - nat x) (v'\<lparr>u_iSndLastFullAck := y, u_est := e\<rparr>)" for y
    using v' by (simp add: core_ok_def core_base_est)
  then show ?thesis unfolding eq e using v' by auto
qed

lemma processCtrlAck_ok:
  assumes ok: "core_ok cf sz I H a c u" and p: "packet_ok p" "m_Length p div 4 \<noteq> 5"
    and w: "\<And>w. payload_word p 0 = Some w \<Longrightarrow> 0 \<le> w \<Longrightarrow> ack_valid sz u w"
  shows "\<exists>r u' a' c'. processCtrlAck cf p t br u = Some (r, u') \<and> core_ok cf sz I H a' c' u'"
proof (cases "m_Length p \<noteq> 4 \<and> m_Length p < 16")
  case True
  then show ?thesis using ok by (auto simp: processCtrlAck_def Let_def)
next
  case False
  then have l: "4 \<le> m_Length p" by auto
  then obtain s where s: "payload_word p 0 = Some s" using payload_word_ok [OF p(1), of 0] by auto
  show ?thesis
  proof (cases "s < 0")
    case True
    then show ?thesis using ok s False by (auto simp: processCtrlAck_def Let_def)
  next
    case s0: False
    have base: "core_base cf sz I H a c u" and la: "u_iSndLastAck u = sq (I + int a)" using ok by (simp_all add: core_ok_def)
    note b = core_baseD [OF base] and cf = cfg_okD [OF core_baseD(1) [OF base]]
    have sok: "seq_ok s" using s0 payload_word_range [OF s] by (simp add: seq_ok_def m_iMaxSeqNo_def)
    define d where "d = seqoff (incseq (u_iSndCurrSeqNo u)) s"
    have d: "d \<le> 0" "- (m_iSeqNoTH - 2 * sz) < d" using w [OF s] s0 by (simp_all add: ack_valid_def d_def)
    define x where "x = int c + d"
    have "s = sq (I + int a + int c + d)" using sq_seqoff [OF sok, of "I + int a + int c"] by (simp add: d_def b(9) algebra_simps)
    then have sx: "s = sq (I + int a + x)" by (simp add: x_def add.assoc)
    have x: "x \<le> int c" "- (m_iSeqNoTH - sz) < x" "\<bar>x\<bar> < m_iSeqNoTH - sz" using d b(6) cf(2-4) by (auto simp: x_def)
    obtain u1 where u1: "updateSndLossListOnACK s u = Some u1" "core_base cf sz I H (a + nat x) (c - nat x) u1"
        "u_iSndLastAck u1 = sq (I + int a)" "u_iSndCurrSeqNo u1 = sq (I + int a + int c - 1)"
      using updateSndLossListOnACK_ok [OF base x(1,2)] la b(9) unfolding sx by auto
    show ?thesis
    proof (cases "m_Length p = 4")
      case True
      have "\<bar>x\<bar> < m_iSeqNoTH" using x(3) cf(2) by linarith
      note la' = last_ack_ok [OF this, of I a]
      define u2 where "u2 = (if seqcmp s (u_iSndLastAck u1) \<ge> 0
          then u1\<lparr>u_iFlowWindowSize := u_iFlowWindowSize u1 - seqoff (u_iSndLastAck u1) s, u_iSndLastAck := s,
            u_tsLastRspAckTime := t, u_iReXmitCount := 1\<rparr> else u1)"
      have "core_ok cf sz I H (a + nat x) (c - nat x) u2"
        using u1(2) la' by (auto simp: u2_def core_ok_def u1(3) core_base_est sx)
      moreover have "processCtrlAck cf p t br u = Some (True, u2)"
        using True s s0 u1(1) by (simp add: processCtrlAck_def Let_def u2_def)
      ultimately show ?thesis by blast
    next
      case nl: False
      then have "16 \<le> m_Length p" using False by simp
      from full_ack_ok [OF u1(2,3) x(3,1) b(6) u1(4) p(1) this p(2)] show ?thesis
        using nl False s s0 u1(1) by (simp add: processCtrlAck_def Let_def sx) blast
    qed
  qed
qed

section \<open>Loss reports\<close>

text \<open>The numbers a report may contain: proper sequence numbers less than about an eighth of a turn from the last one sent.\<close>

definition word_near :: "int \<Rightarrow> CUDT \<Rightarrow> int \<Rightarrow> bool" where
  "word_near sz u w \<longleftrightarrow> 0 \<le> w \<and> 2 * \<bar>seqoff (u_iSndCurrSeqNo u) w\<bar> < m_iSeqNoTH - 2 * sz"

fun report_near :: "int \<Rightarrow> CUDT \<Rightarrow> int list \<Rightarrow> bool" where
  "report_near sz u [] = True"
| "report_near sz u (w # ws) = (if w < 0 then
      (case ws of [] \<Rightarrow> True | hi # ws' \<Rightarrow> word_near sz u (w + 2 ^ 31) \<and> word_near sz u hi \<and> report_near sz u ws')
    else word_near sz u w \<and> report_near sz u ws)"

lemma word_near_unwrap:
  assumes "core_ok cf sz I H a c u" and "word_near sz u w" and "w < 2 ^ 31"
  shows "\<exists>X. w = sq X \<and> 2 * \<bar>X - (I + int a + int c - 1)\<bar> < m_iSeqNoTH - 2 * sz"
proof -
  have b: "u_iSndCurrSeqNo u = sq (I + int a + int c - 1)" using assms(1) by (simp add: core_ok_def core_base_def)
  have "seq_ok w" using assms(2,3) by (simp add: word_near_def seq_ok_def m_iMaxSeqNo_def)
  from sq_seqoff [OF this, of "I + int a + int c - 1"] show ?thesis
    using assms(2) by (intro exI [of _ "I + int a + int c - 1 + seqoff (u_iSndCurrSeqNo u) w"]) (simp add: word_near_def b)
qed

lemma insert_into_loss_ok:
  assumes ok: "core_ok cf sz I H a c u" and X: "I + int a \<le> X1" "X1 \<le> X2" "X2 \<le> I + int a + int c - 1"
  shows "\<exists>u'. insert_into_loss (sq X1) (sq X2) u = Some u' \<and> core_ok cf sz I H a c u' \<and>
    u_iSndLastAck u' = u_iSndLastAck u \<and> u_iSndCurrSeqNo u' = u_iSndCurrSeqNo u"
proof -
  have b: "losses_ok sz I a c (u_pSndLossList u)" "int c < sz" using ok by (simp_all add: core_ok_def core_base_def)
  obtain L where L: "holds sz (I + int a) L (u_pSndLossList u)" "L \<subseteq> {I + int a..<I + int a + int c}" using b(1) by (auto simp: losses_ok_def)
  have "call_ok sz (I + int a, Insert X1 X2) L" using L X b(2) by (auto simp: call_ok_def)
  from snd_list.call_law [OF L(1) this] obtain l' where
    l': "insert_loss (sq X1) (sq X2) (u_pSndLossList u) = Some (int (card ({X1..X2} - L)), l')" "holds sz (I + int a) (L \<union> {X1..X2}) l'"
    by (auto simp: code_call_def set_call_def set_result_def)
  have "losses_ok sz I a c l'" using l'(2) L(2) X by (auto simp: losses_ok_def intro!: exI [of _ "L \<union> {X1..X2}"])
  then have "core_ok cf sz I H a c (u\<lparr>u_pSndLossList := l'\<rparr>)" using ok by (simp add: core_ok_def core_base_def)
  then show ?thesis using l'(1) by (simp add: insert_into_loss_def)
qed

lemma core_ok_ctrl [simp]: "core_ok cf sz I H a c (sendCtrl m u) = core_ok cf sz I H a c u"
  "u_iSndLastAck (sendCtrl m u) = u_iSndLastAck u" "u_iSndCurrSeqNo (sendCtrl m u) = u_iSndCurrSeqNo u"
  by (simp_all add: core_ok_def core_base_est) (simp_all add: sendCtrl_def)

lemma loss_range_ok:
  assumes ok: "core_ok cf sz I H a c u" and X: "X1 \<le> X2" "X2 \<le> I + int a + int c - 1"
    and n: "\<bar>X1 - (I + int a)\<bar> < m_iSeqNoTH" "\<bar>X2 - (I + int a)\<bar> < m_iSeqNoTH"
  shows "\<exists>u'. loss_range (sq X1) (sq X2) u = Some u' \<and> core_ok cf sz I H a c u' \<and> u_iSndCurrSeqNo u' = u_iSndCurrSeqNo u"
proof -
  have la: "u_iSndLastAck u = sq (I + int a)" using ok by (simp add: core_ok_def)
  have cmp: "seqcmp (sq X1) (u_iSndLastAck u) \<ge> 0 \<longleftrightarrow> I + int a \<le> X1" "seqcmp (sq X2) (u_iSndLastAck u) \<ge> 0 \<longleftrightarrow> I + int a \<le> X2"
    using seqcmp_sq(5) n by (simp_all add: la)
  consider "I + int a \<le> X1" | "X1 < I + int a" "I + int a \<le> X2" | "X1 < I + int a" "X2 < I + int a" by linarith
  then show ?thesis
  proof cases
    case 1
    then show ?thesis using insert_into_loss_ok [OF ok 1 X] cmp by (auto simp: loss_range_def)
  next
    case 2
    then obtain u' where "insert_into_loss (u_iSndLastAck u) (sq X2) u = Some u'" "core_ok cf sz I H a c u'" "u_iSndCurrSeqNo u' = u_iSndCurrSeqNo u"
      using insert_into_loss_ok [OF ok order_refl 2(2) X(2)] by (auto simp: la)
    then show ?thesis using 2 cmp by (simp add: loss_range_def)
  next
    case 3
    then show ?thesis using ok cmp by (simp add: loss_range_def)
  qed
qed

lemma loss_single_eq: "loss_single w u = loss_range w w u"
  by (simp add: loss_single_def loss_range_def)

lemma word_near_cong: "u_iSndCurrSeqNo u' = u_iSndCurrSeqNo u \<Longrightarrow> word_near sz u' w = word_near sz u w"
  by (simp add: word_near_def)

lemma report_near_cong: "u_iSndCurrSeqNo u' = u_iSndCurrSeqNo u \<Longrightarrow> report_near sz u' ws = report_near sz u ws"
proof (induction sz u ws rule: report_near.induct)
  case (2 sz u w ws)
  then show ?case by (cases ws) (simp_all add: word_near_cong [OF "2.prems"])
qed simp

lemma near_sum:
  fixes x y t :: int
  assumes "2 * \<bar>x\<bar> < t - 2 * s" and "2 * \<bar>y\<bar> < t - 2 * s" and "0 < s"
  shows "\<bar>x\<bar> < t" "\<bar>x - y\<bar> < t"
proof -
  have "0 \<le> \<bar>x\<bar>" by (rule abs_ge_zero)
  then show "\<bar>x\<bar> < t" using assms(1,3) by linarith
  show "\<bar>x - y\<bar> < t" using abs_triangle_ineq4 [of x y] assms by linarith
qed

lemma near_shift:
  fixes x c s t :: int
  assumes "2 * \<bar>x\<bar> < t - 2 * s" and "0 \<le> c" and "c < s"
  shows "\<bar>x + (c - 1)\<bar> < t"
proof -
  have "\<bar>c - 1\<bar> \<le> s" using assms(2,3) by simp
  then show ?thesis using abs_triangle_ineq [of x "c - 1"] assms abs_ge_zero [of x] by linarith
qed

lemma loss_words_ok:
  assumes "core_ok cf sz I H a c u" and "report_near sz u ws" and "\<forall>w \<in> set ws. w < 2 ^ 31"
  shows "\<exists>r u'. loss_words ws u = Some (r, u') \<and> core_ok cf sz I H a c u'"
  using assms
proof (induction ws u rule: loss_words.induct)
  case (2 w ws u)
  note ok = "2.prems"(1)
  have base: "core_base cf sz I H a c u" using ok by (simp add: core_ok_def)
  note b = core_baseD [OF base] and cf = cfg_okD [OF core_baseD(1) [OF base]]
  let ?C = "I + int a + int c - 1"
  have near1: "\<bar>X - (I + int a)\<bar> < m_iSeqNoTH" if "2 * \<bar>X - ?C\<bar> < m_iSeqNoTH - 2 * sz" for X
    using near_shift [OF that, of "int c"] b(6) by (simp add: algebra_simps)
  have near2: "\<bar>X - ?C\<bar> < m_iSeqNoTH" if "2 * \<bar>X - ?C\<bar> < m_iSeqNoTH - 2 * sz" for X
    using near_sum(1) [OF that that cf(2)] .
  show ?case
  proof (cases "w < 0")
    case True
    show ?thesis
    proof (cases ws)
      case Nil
      have "loss_words (w # ws) u = Some (False, u)" using True Nil by simp
      then show ?thesis using ok by blast
    next
      case (Cons hi ws')
      have wn: "word_near sz u (w + 2 ^ 31)" "word_near sz u hi" "report_near sz u ws'"
        using "2.prems"(2) True Cons by simp_all
      have r: "w + 2 ^ 31 < 2 ^ 31" "hi < 2 ^ 31" "\<forall>w \<in> set ws'. w < 2 ^ 31" using True "2.prems"(3) Cons by simp_all
      show ?thesis
      proof (cases "seqcmp (w + 2 ^ 31) hi > 0 \<or> seqcmp hi (u_iSndCurrSeqNo u) > 0")
        case bad: True
        have "loss_words (w # ws) u = Some (False, u)" using True Cons bad by (simp add: Let_def)
        then show ?thesis using ok by blast
      next
        case good: False
        obtain X1 where X1: "w + 2 ^ 31 = sq X1" "2 * \<bar>X1 - ?C\<bar> < m_iSeqNoTH - 2 * sz"
          using word_near_unwrap [OF ok wn(1) r(1)] by blast
        obtain X2 where X2: "hi = sq X2" "2 * \<bar>X2 - ?C\<bar> < m_iSeqNoTH - 2 * sz"
          using word_near_unwrap [OF ok wn(2) r(2)] by blast
        have "\<bar>X1 - X2\<bar> < m_iSeqNoTH" using near_sum(2) [OF X1(2) X2(2) cf(2)] by simp
        then have le: "X1 \<le> X2" using good seqcmp_sq(2) [of X1 X2] unfolding X1(1) X2(1) by simp
        have le': "X2 \<le> ?C" using good seqcmp_sq(2) [of X2 ?C] near2 [OF X2(2)] unfolding X2(1) b(9) by simp
        obtain u' where u': "loss_range (w + 2 ^ 31) hi u = Some u'" "core_ok cf sz I H a c u'" "u_iSndCurrSeqNo u' = u_iSndCurrSeqNo u"
          using loss_range_ok [OF ok le le' near1 [OF X1(2)] near1 [OF X2(2)]] unfolding X1(1) X2(1) by blast
        have "report_near sz u' ws'" using wn(3) report_near_cong [OF u'(3)] by simp
        then have "\<exists>r v. loss_words ws' u' = Some (r, v) \<and> core_ok cf sz I H a c v"
          using "2.IH"(1) [OF True Cons refl good u'(1)] u'(2) r(3) by blast
        moreover have "loss_words (w # ws) u = loss_words ws' u'" using True Cons good u'(1) by (simp add: Let_def)
        ultimately show ?thesis by simp
      qed
    qed
  next
    case False
    then have wn: "word_near sz u w" "report_near sz u ws" "w < 2 ^ 31" "\<forall>w \<in> set ws. w < 2 ^ 31" using "2.prems"(2,3) by simp_all
    show ?thesis
    proof (cases "seqcmp w (u_iSndLastAck u) \<ge> 0 \<and> seqcmp w (u_iSndCurrSeqNo u) > 0")
      case bad: True
      have "loss_words (w # ws) u = Some (False, u)" using False bad by simp
      then show ?thesis using ok by blast
    next
      case good: False
      obtain X where X: "w = sq X" "2 * \<bar>X - ?C\<bar> < m_iSeqNoTH - 2 * sz"
        using word_near_unwrap [OF ok wn(1,3)] by blast
      have la: "u_iSndLastAck u = sq (I + int a)" using ok by (simp add: core_ok_def)
      have le: "X \<le> ?C"
      proof (cases "I + int a \<le> X")
        case True
        then have "seqcmp w (u_iSndLastAck u) \<ge> 0" using seqcmp_sq(5) [of X "I + int a"] near1 [OF X(2)] by (simp add: X(1) la)
        then show ?thesis using good seqcmp_sq(2) [of X ?C] near2 [OF X(2)] unfolding X(1) b(9) by simp
      qed simp
      obtain u' where u': "loss_single w u = Some u'" "core_ok cf sz I H a c u'" "u_iSndCurrSeqNo u' = u_iSndCurrSeqNo u"
        using loss_range_ok [OF ok order_refl le near1 [OF X(2)] near1 [OF X(2)]] unfolding loss_single_eq X(1) by blast
      have "report_near sz u' ws" using wn(2) report_near_cong [OF u'(3)] by simp
      then have "\<exists>r v. loss_words ws u' = Some (r, v) \<and> core_ok cf sz I H a c v"
        using "2.IH"(2) [OF False good u'(1)] u'(2) wn(4) by blast
      moreover have "loss_words (w # ws) u = loss_words ws u'" using False good u'(1) by auto
      ultimately show ?thesis by simp
    qed
  qed
qed auto

lemma those_Some: "those (map f xs) = Some ys \<longleftrightarrow> (length ys = length xs \<and> (\<forall>i < length xs. f (xs ! i) = Some (ys ! i)))"
proof (induction xs arbitrary: ys)
  case (Cons x xs)
  show ?case
  proof (cases ys)
    case (Cons y zs)
    then show ?thesis using Cons.IH [of zs] by (auto simp: All_less_Suc2 split: option.splits)
  qed (auto split: option.splits)
qed auto

lemma payload_words_ok:
  assumes "packet_ok p"
  shows "\<exists>ws. payload_words p = Some ws \<and> (\<forall>w \<in> set ws. w < 2 ^ 31)"
proof -
  let ?n = "m_Length p div 4"
  define ws where "ws = map (\<lambda>i. the (payload_word p i)) [0..<?n]"
  have w: "payload_word p i = Some (ws ! i)" if "i < ?n" for i
  proof -
    have "4 * i + 4 \<le> m_Length p" using that by linarith
    then show ?thesis using payload_word_ok [OF assms] that by (auto simp: ws_def)
  qed
  have "payload_words p = Some ws" using w by (simp add: payload_words_def those_Some ws_def)
  moreover have "\<forall>w \<in> set ws. w < 2 ^ 31" using w payload_word_range by (auto simp: in_set_conv_nth ws_def)
  ultimately show ?thesis by blast
qed

lemma processCtrlLossReport_ok:
  assumes ok: "core_ok cf sz I H a c u" and p: "packet_ok p" and near: "\<And>ws. payload_words p = Some ws \<Longrightarrow> report_near sz u ws"
  shows "\<exists>r u'. processCtrlLossReport p u = Some (r, u') \<and> core_ok cf sz I H a c u'"
proof -
  obtain ws where ws: "payload_words p = Some ws" "\<forall>w \<in> set ws. w < 2 ^ 31" using payload_words_ok [OF p] by blast
  obtain r u' where r: "loss_words ws u = Some (r, u')" "core_ok cf sz I H a c u'" using loss_words_ok [OF ok near [OF ws(1)] ws(2)] by blast
  have "core_ok cf sz I H a c (u'\<lparr>u_bBroken := True\<rparr>)" using r(2) by (simp add: core_ok_def core_base_est)
  moreover have "processCtrlLossReport p u = (if r then Some (True, u') else Some (False, u'\<lparr>u_bBroken := True\<rparr>))"
    using ws(1) r(1) by (simp add: processCtrlLossReport_def)
  ultimately show ?thesis using r(2) by (cases r) auto
qed

section \<open>Retransmission\<close>

definition window :: "CUDT \<Rightarrow> int" where
  "window u = min (u_iFlowWindowSize u) (u_iCongestionWindow u)"

lemma losses_pop:
  assumes "holds sz A L l" and "L \<subseteq> {A..<A + int c}"
  shows "(L = {} \<and> popLostSeq l = Some (SRT_SEQNO_NONE, l)) \<or>
    (\<exists>k l'. k < c \<and> A + int k \<in> L \<and> popLostSeq l = Some (sq (A + int k), l') \<and> holds sz A (L - {A + int k}) l')"
proof (cases "L = {}")
  case True
  then show ?thesis using holds_pop_empty assms(1) by simp
next
  case False
  have fin: "finite L" using assms(2) finite_subset by blast
  define k where "k = nat (Min L - A)"
  have "Min L \<in> L" using fin False by simp
  then have "A \<le> Min L" "Min L < A + int c" using assms(2) by auto
  then have k: "k < c" "A + int k = Min L" by (auto simp: k_def)
  show ?thesis using holds_pop [OF assms(1) False] \<open>Min L \<in> L\<close> k by (auto intro!: exI [of _ k])
qed

lemma buffer_held:
  assumes "buffer_ok pl I H a c s" and "k < length H - a" and "a + c \<le> length H"
  obtains R q where "snd_ok R q c s" "a + length q = length H" "\<forall>i < length q. same_pkt (q ! i) (H ! (a + i))" "k < length q"
  using assms by (auto simp: buffer_ok_def)

lemma getCleanRexmitOffset_ok:
  assumes "core_ok cf sz I H a c u"
  shows "\<exists>seq off u'. getCleanRexmitOffset cf now u = Some (seq, off, u') \<and> core_ok cf sz I H a c u' \<and> window u' = window u \<and>
    (seq = SRT_SEQNO_NONE \<or> (\<exists>k < c. seq = sq (I + int (a + k)) \<and> off = int k))"
proof -
  obtain L where "holds sz (I + int a) L (u_pSndLossList u)" "L \<subseteq> {I + int a..<I + int a + int c}"
    using assms by (auto simp: core_ok_def core_base_def losses_ok_def)
  then show ?thesis using assms
  proof (induction "card L" arbitrary: L u now rule: less_induct)
    case less
    note h = less.prems(1) and sub = less.prems(2) and ok = less.prems(3)
    have b: "core_base cf sz I H a c u" "u_iSndLastDataAck u = sq (I + int a)" using ok by (simp_all add: core_ok_def core_base_def)
    from losses_pop [OF h sub] show ?case
    proof (elim disjE exE conjE)
      assume "L = {}" and p: "popLostSeq (u_pSndLossList u) = Some (SRT_SEQNO_NONE, u_pSndLossList u)"
      have "getCleanRexmitOffset cf now u = Some (SRT_SEQNO_NONE, - 1, u)"
        by (subst getCleanRexmitOffset.simps) (simp add: p)
      then show ?thesis using ok by blast
    next
      fix k l' assume k: "k < c" "I + int a + int k \<in> L" and p: "popLostSeq (u_pSndLossList u) = Some (sq (I + int a + int k), l')"
        and h': "holds sz (I + int a) (L - {I + int a + int k}) l'"
      let ?u = "u\<lparr>u_pSndLossList := l'\<rparr>"
      have sub': "L - {I + int a + int k} \<subseteq> {I + int a..<I + int a + int c}" using sub by auto
      have ok': "core_ok cf sz I H a c ?u" using ok h' sub' by (auto simp: core_ok_def core_base_def losses_ok_def)
      note bb = core_baseD [OF b(1)] and cf = cfg_okD [OF core_baseD(1) [OF b(1)]]
      have off: "seqoff (u_iSndLastDataAck u) (sq (I + int a + int k)) = int k"
        using seqoff_sq [of "I + int a" "I + int a + int k"] k(1) bb(6) cf by (simp add: b(2))
      have "k < length H - a" using k(1) bb(5) by simp
      from buffer_held [OF bb(3) this bb(5)] obtain R q where "snd_ok R q c (u_pSndBuffer u)" "k < length q" by blast
      then have "\<exists>t. getPacketRexmitTime (int k) (u_pSndBuffer u) = Some t" using getPacketRexmitTime_ok by fastforce
      then have "\<exists>ri. checkRexmitRightTime cf (int k) (now 0) ?u = Some ri" by (auto simp: checkRexmitRightTime_def Let_def)
      then obtain ri where ri: "checkRexmitRightTime cf (int k) (now 0) ?u = Some ri" by blast
      have step: "getCleanRexmitOffset cf now u = (if ri then Some (sq (I + int a + int k), int k, ?u)
          else getCleanRexmitOffset cf (\<lambda>i. now (Suc i)) ?u)"
        by (subst getCleanRexmitOffset.simps) (simp add: p off ri Let_def)
      show ?thesis
      proof (cases ri)
        case True
        then show ?thesis using step ok' k(1) by (auto simp: add.assoc window_def)
      next
        case False
        have "finite L" using sub finite_subset by blast
        then have "card (L - {I + int a + int k}) < card L" using k(2) by (rule card_Diff1_less)
        from less.hyps [OF this _ sub' ok', of "\<lambda>i. now (Suc i)"] h' show ?thesis using step False by (simp add: window_def)
      qed
    qed
  qed
qed

text \<open>A packet of the history on the wire, possibly marked as retransmitted.\<close>

definition transmits :: "spkt \<Rightarrow> CPacket \<Rightarrow> bool" where
  "transmits p pkt \<longleftrightarrow> m_nHeader pkt SRT_PH_SEQNO = word_of_int (p_seq p) \<and>
     m_nHeader pkt SRT_PH_MSGNO \<in> {p_bits p, p_bits p OR BitsetMask 26 26} \<and>
     m_Length pkt = length (p_data p) \<and> m_Length pkt \<le> length (m_pcData pkt) \<and> take (m_Length pkt) (m_pcData pkt) = p_data p"

lemma same_pktD:
  assumes "same_pkt p p'"
  shows "p_seq p = p_seq p'" "p_bits p = p_bits p'" "p_data p = p_data p'" "p_origin p = p_origin p'" "p_ttl p = p_ttl p'"
  using assms by (metis same_pkt_def spkt.ext_inject spkt.surjective spkt.update_convs(6))+

lemma same_pkt_rexmit: "same_pkt p p' \<Longrightarrow> same_pkt (p\<lparr>p_rexmit := t\<rparr>) p'"
  by (cases p; cases p') (simp add: same_pkt_def)

lemma sends_transmits: "sends p pkt \<Longrightarrow> same_pkt p p' \<Longrightarrow> transmits p' pkt"
  by (auto simp: sends_def transmits_def same_pktD)

lemma extract_ok:
  assumes ok: "core_ok cf sz I H a c u" and k: "k < c"
  shows "\<exists>n pkt' t u'. extractCleanRexmitPacket now (sq (I + int (a + k))) (int k) pkt ts u = Some (n, pkt', t, u') \<and>
    core_ok cf sz I H a c u' \<and> window u' = window u \<and> 0 < n \<and> transmits (H ! (a + k)) pkt'"
proof -
  have base: "core_base cf sz I H a c u" using ok by (simp add: core_ok_def)
  note b = core_baseD [OF base]
  have kH: "k < length H - a" "a + k < length H" using k b(5) by simp_all
  from buffer_held [OF b(3) kH(1) b(5)] obtain R q where
    q: "snd_ok R q c (u_pSndBuffer u)" "a + length q = length H" "\<forall>i < length q. same_pkt (q ! i) (H ! (a + i))" "k < length q" by blast
  let ?p = "q ! k"
  have sp: "same_pkt ?p (H ! (a + k))" using q by simp
  note f = same_pktD [OF sp]
  have h: "p_seq (H ! (a + k)) = sq (I + int (a + k))" "p_ttl (H ! (a + k)) < 0" "p_data (H ! (a + k)) \<noteq> []"
    using b(2) kH(2) by (simp_all add: hist_ok_def)
  let ?pkt = "set_seqno (sq (I + int (a + k))) pkt"
  have pk: "getSeqNo ?pkt = p_seq (q ! nat (int k))" "m_nHeader ?pkt SRT_PH_SEQNO = word_of_int (p_seq (q ! nat (int k)))"
    using f h word_sq by (simp_all add: set_seqno_def getSeqNo_def)
  have live: "\<not> p_expired (fst (now 0)) (q ! nat (int k))" using f h by (simp add: p_expired_def)
  have k': "nat (int k) < length q" using q(4) by simp
  from rexmit_ok [OF q(1) k' pk live, of "snd (now 0)" ts "\<lparr>dr_begin = 0, dr_end = 0, dr_msgno = 0\<rparr>"] obtain r s' where
    r: "readData_rexmit (int k) (fst (now 0)) (snd (now 0)) ?pkt ts \<lparr>dr_begin = 0, dr_end = 0, dr_msgno = 0\<rparr> (u_pSndBuffer u) = Some (r, s')"
      "snd_ok R (q[k := ?p\<lparr>p_rexmit := snd (now 0)\<rparr>]) c s'" "snd_frame (u_pSndBuffer u) s'"
      "rx_return r = int (length (p_data ?p))" "sends ?p (rx_packet r)" by auto
  have pos: "0 < rx_return r" using r(4) f(3) h(3) by simp
  have "buffer_ok (cf_iMaxDataPayloadSize cf) I H a c s'"
    unfolding buffer_ok_def
  proof (intro conjI exI [of _ R] exI [of _ "q[k := ?p\<lparr>p_rexmit := snd (now 0)\<rparr>]"] allI impI)
    fix i assume "i < length (q[k := ?p\<lparr>p_rexmit := snd (now 0)\<rparr>])"
    then show "same_pkt (q[k := ?p\<lparr>p_rexmit := snd (now 0)\<rparr>] ! i) (H ! (a + i))"
      using q(3) same_pkt_rexmit [OF sp] by (cases "i = k") auto
  qed (use r q b(3) in \<open>auto simp: buffer_ok_def snd_frame_def getMaxPacketLen_def\<close>)
  then have "core_ok cf sz I H a c (u\<lparr>u_pSndBuffer := s'\<rparr>)" using ok by (simp add: core_ok_def core_base_def)
  moreover have "extractCleanRexmitPacket now (sq (I + int (a + k))) (int k) pkt ts u =
      Some (rx_return r, rx_packet r, rx_srctime r, u\<lparr>u_pSndBuffer := s'\<rparr>)"
    using pos by (subst extractCleanRexmitPacket.simps) (simp add: r(1) [simplified] READ_DROP_def READ_NONE_def)
  moreover have "window (u\<lparr>u_pSndBuffer := s'\<rparr>) = window u" by (simp add: window_def)
  ultimately show ?thesis using pos sends_transmits [OF r(5) sp] by blast
qed

lemma setDataPacketTS_ok:
  assumes "cf_tsStartTime cf \<le> stamp"
  shows "\<exists>t. setDataPacketTS cf stamp ts p = Some (p\<lparr>m_nHeader := (m_nHeader p)(SRT_PH_TIMESTAMP := t)\<rparr>)"
  using assms by (auto simp: setDataPacketTS_def makeTS_def)

lemma transmits_stamp: "transmits p pkt \<Longrightarrow> transmits p (pkt\<lparr>m_nHeader := (m_nHeader pkt)(SRT_PH_TIMESTAMP := t)\<rparr>)"
  "transmits p pkt \<Longrightarrow> transmits p (set_id i pkt)"
  "transmits p pkt \<Longrightarrow> transmits p (set_msgflags (m_nHeader pkt SRT_PH_MSGNO OR BitsetMask 26 26) pkt)"
  by (auto simp: transmits_def set_id_def set_msgflags_def or.assoc)

lemma packLostData_ok:
  assumes ok: "core_ok cf sz I H a c u" and st: "cf_tsStartTime cf \<le> ck_stamp ck"
  shows "\<exists>n pkt' u'. packLostData cf ck pkt u = Some (n, pkt', u') \<and> core_ok cf sz I H a c u' \<and> window u' = window u \<and>
    (0 < n \<longrightarrow> (\<exists>k < length H. transmits (H ! k) pkt'))"
proof -
  obtain seq off u1 where u1: "getCleanRexmitOffset cf (ck_search ck) u = Some (seq, off, u1)" "core_ok cf sz I H a c u1" "window u1 = window u"
      "seq = SRT_SEQNO_NONE \<or> (\<exists>k < c. seq = sq (I + int (a + k)) \<and> off = int k)" using getCleanRexmitOffset_ok [OF ok] by blast
  show ?thesis
  proof (cases "seq = SRT_SEQNO_NONE")
    case True
    then show ?thesis using u1 by (simp add: packLostData_def)
  next
    case False
    then obtain k where k: "k < c" "seq = sq (I + int (a + k))" "off = int k" using u1(4) by blast
    have kH: "a + k < length H" using k(1) ok by (simp add: core_ok_def core_base_def)
    obtain n p1 t u2 where e: "extractCleanRexmitPacket (ck_read ck) seq off pkt 0 u1 = Some (n, p1, t, u2)"
        "core_ok cf sz I H a c u2" "0 < n" "transmits (H ! (a + k)) p1" "window u2 = window u"
      using extract_ok [OF u1(2) k(1), of "ck_read ck" pkt 0] u1(3) unfolding k(2,3) by auto
    define p2 where "p2 = (if cf_bPeerRexmitFlag cf then set_msgflags (m_nHeader p1 SRT_PH_MSGNO OR BitsetMask 26 26) p1 else p1)"
    have p2: "transmits (H ! (a + k)) p2" using e(4) transmits_stamp(3) by (simp add: p2_def)
    obtain ts where ts: "setDataPacketTS cf (ck_stamp ck) t p2 = Some (p2\<lparr>m_nHeader := (m_nHeader p2)(SRT_PH_TIMESTAMP := ts)\<rparr>)"
      using setDataPacketTS_ok [OF st] by blast
    let ?p = "p2\<lparr>m_nHeader := (m_nHeader p2)(SRT_PH_TIMESTAMP := ts)\<rparr>"
    have "packLostData cf ck pkt u = Some (int (m_Length ?p), ?p, u2)"
      using u1(1) False e(1,3) ts by (simp add: packLostData_def Let_def p2_def [symmetric])
    then show ?thesis using e(2,5) transmits_stamp(1) [OF p2] kH by blast
  qed
qed

section \<open>New packets\<close>

lemma spec_read_live:
  assumes "\<forall>p \<in> set ps. p_ttl p < 0"
  shows "spec_read k now ps = (case ps of [] \<Rightarrow> (0, None, [], []) | p # ps' \<Rightarrow> (0, Some (with_key k p), [with_key k p], ps'))"
  using assms by (cases ps) (auto simp: p_expired_def)

lemma no_key: "with_key EK_NOENC p = p"
  by (simp add: with_key_def EK_NOENC_def bits_wrap_def)

lemma flight_span:
  assumes "core_ok cf sz I H a c u"
  shows "getFlightSpan u = int c"
proof -
  have base: "core_base cf sz I H a c u" and la: "u_iSndLastAck u = sq (I + int a)" using assms by (simp_all add: core_ok_def)
  note b = core_baseD [OF base] and cf = cfg_okD [OF core_baseD(1) [OF base]]
  show ?thesis
    using seqlen_sq [of "I + int a" "I + int a + int c"] b(6) cf by (simp add: getFlightSpan_def la b(9) m_iSeqNoTH_def algebra_simps)
qed

lemma packUniqueData_ok:
  assumes ok: "core_ok cf sz I H a c u" and st: "cf_tsStartTime cf \<le> stamp"
    and w: "window u < sz"
  shows "\<exists>r pkt' u' c'. packUniqueData cf now stamp pkt u = Some (r, pkt', u') \<and> core_ok cf sz I H a c' u' \<and>
    (r \<longrightarrow> (\<exists>k < length H. transmits (H ! k) pkt'))"
proof -
  have base: "core_base cf sz I H a c u" and la: "u_iSndLastAck u = sq (I + int a)" using ok by (simp_all add: core_ok_def)
  note b = core_baseD [OF base] and cf = cfg_okD [OF core_baseD(1) [OF base]]
  note fl = flight_span [OF ok]
  show ?thesis
  proof (cases "min (u_iFlowWindowSize u) (u_iCongestionWindow u) \<le> int c")
    case True
    then show ?thesis using ok by (auto simp: packUniqueData_def fl)
  next
    case False
    obtain R q where q: "snd_ok R q c (u_pSndBuffer u)" "a + length q = length H" "\<forall>i < length q. same_pkt (q ! i) (H ! (a + i))"
      and pl: "getMaxPacketLen (u_pSndBuffer u) = cf_iMaxDataPayloadSize cf" "0 < cf_iMaxDataPayloadSize cf" "cf_iMaxDataPayloadSize cf \<le> sb_iBlockLen (u_pSndBuffer u)" "msgno_ok (sb_iNextMsgNo (u_pSndBuffer u))"
      using b(3) by (auto simp: buffer_ok_def)
    have hk: "same_pkt (q ! i) (H ! (a + i))" "p_ttl (q ! i) < 0" "p_data (q ! i) \<noteq> []" "p_seq (q ! i) = sq (I + int (a + i))" if "i < length q" for i
    proof -
      show "same_pkt (q ! i) (H ! (a + i))" using that q(3) by simp
      note f = same_pktD [OF this]
      show "p_ttl (q ! i) < 0" "p_data (q ! i) \<noteq> []" "p_seq (q ! i) = sq (I + int (a + i))"
        using b(2) that q(2) unfolding f by (simp_all add: hist_ok_def)
    qed
    have sp: "spec_read EK_NOENC now (drop c q) = (case drop c q of [] \<Rightarrow> (0, None, [], []) | p # ps' \<Rightarrow> (0, Some p, [p], ps'))"
    proof -
      have "\<forall>p \<in> set (drop c q). p_ttl p < 0" using hk(2) by (auto simp: in_set_conv_nth)
      from spec_read_live [OF this, of EK_NOENC now] show ?thesis by (simp add: no_key cong: list.case_cong)
    qed
    show ?thesis
    proof (cases "c = length q")
      case True
      obtain r s' where r: "readData EK_NOENC now pkt 0 (u_pSndBuffer u) = Some (r, s')" "snd_ok R q c s'" "snd_frame (u_pSndBuffer u) s'"
          "rr_seqnoinc r = 0" "rr_readlen r = 0"
      proof -
        have "spec_read EK_NOENC now (drop c q) = (0, None, [], [])" using sp True by simp
        from readData_ok [OF q(1) this, of pkt 0] show ?thesis using that True by auto
      qed
      have "buffer_ok (cf_iMaxDataPayloadSize cf) I H a c s'"
        using r q pl by (auto simp: buffer_ok_def snd_frame_def getMaxPacketLen_def)
      then have "core_ok cf sz I H a c (u\<lparr>u_pSndBuffer := s'\<rparr>)" using ok by (simp add: core_ok_def core_base_def)
      moreover have "packUniqueData cf now stamp pkt u = Some (False, rr_packet r, u\<lparr>u_pSndBuffer := s'\<rparr>)"
        using False r by (simp add: packUniqueData_def fl Let_def)
      ultimately show ?thesis by blast
    next
      case ne: False
      then have c: "c < length q" using b(5) q(2) by simp
      have dr: "drop c q = q ! c # drop (Suc c) q" using c by (simp add: Cons_nth_drop_Suc)
      have "spec_read EK_NOENC now (drop c q) = (0, Some (q ! c), [q ! c], drop (Suc c) q)" using sp by (simp add: dr)
      from readData_ok [OF q(1) this, of pkt 0] obtain r s' where
        r: "readData EK_NOENC now pkt 0 (u_pSndBuffer u) = Some (r, s')" "snd_ok R q (Suc c) s'" "snd_frame (u_pSndBuffer u) s'"
          "rr_seqnoinc r = 0" "rr_readlen r = int (length (p_data (q ! c)))" "sends (q ! c) (rr_packet r)"
        using id_take_nth_drop [OF c] by (auto simp: EK_NOENC_def)
      have cur: "incseq (u_iSndCurrSeqNo u) = sq (I + int (a + c))" by (simp add: b(9) algebra_simps)
      let ?p = "set_id (cf_PeerID cf) (set_seqno (sq (I + int (a + c))) (rr_packet r))"
      have tr: "transmits (H ! (a + c)) ?p"
        using transmits_stamp(2) [OF sends_transmits [OF r(6) hk(1) [OF c]]] hk(4) [OF c] same_pktD(1) [OF hk(1) [OF c]]
        by (auto simp: transmits_def set_id_def set_seqno_def)
      obtain t where t: "setDataPacketTS cf stamp (rr_srctime r) ?p = Some (?p\<lparr>m_nHeader := (m_nHeader ?p)(SRT_PH_TIMESTAMP := t)\<rparr>)"
        using setDataPacketTS_ok [OF st] by blast
      let ?u = "u\<lparr>u_pSndBuffer := s', u_iSndCurrSeqNo := sq (I + int (a + c))\<rparr>"
      have pk: "packUniqueData cf now stamp pkt u = Some (True, ?p\<lparr>m_nHeader := (m_nHeader ?p)(SRT_PH_TIMESTAMP := t)\<rparr>, ?u)"
        unfolding packUniqueData_def fl Let_def using False r(1,4,5) hk(3) [OF c] t cur by simp
      have "buffer_ok (cf_iMaxDataPayloadSize cf) I H a (Suc c) s'"
        using r q pl by (auto simp: buffer_ok_def snd_frame_def getMaxPacketLen_def)
      moreover have "losses_ok sz I a (Suc c) (u_pSndLossList u)" using b(4) by (force simp: losses_ok_def)
      ultimately have "core_ok cf sz I H a (Suc c) ?u"
        using ok False w c q(2) by (simp add: window_def core_ok_def core_base_def algebra_simps)
      moreover have "a + c < length H" using c q(2) by simp
      ultimately show ?thesis using pk transmits_stamp(1) [OF tr] by blast
    qed
  qed
qed

lemma pick_packet_ok:
  assumes ok: "core_ok cf sz I H a c u" and st: "cf_tsStartTime cf \<le> stamp" "cf_tsStartTime cf \<le> ck_stamp ck"
    and w: "window u < sz"
  shows "\<exists>r pkt' u' c'. pick_packet cf ck now stamp pkt u = Some (r, pkt', u') \<and> core_ok cf sz I H a c' u' \<and>
    (r \<noteq> PICK_NONE \<longrightarrow> (\<exists>k < length H. transmits (H ! k) pkt'))"
proof -
  have "\<exists>pr. isRegularSendingPriority cf u = Some pr"
    using ok peekNextOriginal_ok by (auto simp: isRegularSendingPriority_def core_ok_def core_base_def buffer_ok_def)
  then obtain pr where pr: "isRegularSendingPriority cf u = Some pr" by blast
  have "\<exists>n p1 u1. (if pr then Some (0, pkt, u) else packLostData cf ck pkt u) = Some (n, p1, u1) \<and> core_ok cf sz I H a c u1 \<and> window u1 = window u \<and>
    (0 < n \<longrightarrow> (\<exists>k < length H. transmits (H ! k) p1))"
    using packLostData_ok [OF ok st(2), of pkt] ok by (cases pr) auto
  then obtain n p1 u1 where n: "(if pr then Some (0, pkt, u) else packLostData cf ck pkt u) = Some (n, p1, u1)" "core_ok cf sz I H a c u1"
      "window u1 = window u" "0 < n \<longrightarrow> (\<exists>k < length H. transmits (H ! k) p1)" by blast
  show ?thesis
  proof (cases "0 < n")
    case True
    then have "pick_packet cf ck now stamp pkt u = Some (PICK_REXMIT, p1, u1)"
      using pr n(1) by (simp add: pick_packet_def)
    then show ?thesis using n(2,4) True by blast
  next
    case False
    obtain r p2 u2 c2 where r: "packUniqueData cf now stamp p1 u1 = Some (r, p2, u2)" "core_ok cf sz I H a c2 u2"
        "r \<longrightarrow> (\<exists>k < length H. transmits (H ! k) p2)" using packUniqueData_ok [OF n(2) st(1), of now p1] w n(3) by metis
    have "pick_packet cf ck now stamp pkt u = Some (if r then PICK_NEW else PICK_NONE, p2, u2)"
      using pr n(1) False r(1) by (simp add: pick_packet_def)
    then show ?thesis using r(2,3) by fastforce
  qed
qed

lemma set_next_time_ok: "core_ok cf sz I H a c (set_next_time t pr u) = core_ok cf sz I H a c u"
  by (simp add: set_next_time_def Let_def core_ok_def core_base_est)

lemma packData_ok:
  assumes ok: "core_ok cf sz I H a c u" and st: "cf_tsStartTime cf \<le> stamp" "cf_tsStartTime cf \<le> ck_stamp ck"
    and w: "window u < sz"
  shows "\<exists>r nxt pkt' u' c'. packData cf ck now stamp t pkt u = Some (r, nxt, pkt', u') \<and> core_ok cf sz I H a c' u' \<and>
    (r \<longrightarrow> (\<exists>k < length H. transmits (H ! k) pkt'))"
proof -
  define v where "v = (if u_tsNextSendTime u \<noteq> 0 \<and> t > u_tsNextSendTime u
      then u\<lparr>u_tdSendTimeDiff := u_tdSendTimeDiff u + (t - u_tsNextSendTime u)\<rparr> else u)"
  have v: "core_ok cf sz I H a c v" "window v < sz" using ok w by (simp_all add: v_def core_ok_def core_base_est window_def)
  obtain k p1 u1 c1 where k: "pick_packet cf ck now stamp pkt v = Some (k, p1, u1)" "core_ok cf sz I H a c1 u1"
      "k \<noteq> PICK_NONE \<longrightarrow> (\<exists>i < length H. transmits (H ! i) p1)"
    using pick_packet_ok [OF v(1) st v(2), of now pkt] by blast
  have "core_ok cf sz I H a c1 (u1\<lparr>u_tsNextSendTime := 0, u_tdSendTimeDiff := 0\<rparr>)" "core_ok cf sz I H a c1 (u1\<lparr>u_tsLastSndTime := t\<rparr>)"
    using k(2) by (simp_all add: core_ok_def core_base_est)
  then show ?thesis using v(1) k transmits_stamp(2)
    unfolding packData_def Let_def v_def [symmetric] by (auto simp: set_next_time_ok)
qed

lemma checkRexmitTimer_ok:
  assumes ok: "core_ok cf sz I H a c u"
  shows "\<exists>u'. checkRexmitTimer cf t u = Some u' \<and> core_ok cf sz I H a c u'"
proof -
  have n: "core_ok cf sz I H a c (v\<lparr>u_iReXmitCount := n\<rparr>) = core_ok cf sz I H a c v" for v n by (simp add: core_ok_def core_base_est)
  have "\<exists>u'. insert_into_loss (u_iSndLastAck u) (u_iSndCurrSeqNo u) u = Some u' \<and> core_ok cf sz I H a c u'" if "0 < getFlightSpan u"
    using insert_into_loss_ok [OF ok order_refl, of "I + int a + int c - 1"] that flight_span [OF ok] ok
    by (auto simp: core_ok_def core_base_def)
  then show ?thesis using ok n by (auto simp: checkRexmitTimer_def Let_def)
qed

end
