(* ===== verification/SndCoreProps.thy ===== *)
theory SndCoreProps
  imports Simul SndBufProps SndCoreInv
begin

text \<open>
  The reachable states of the sending side: what leaves for the peer is what was scheduled, and no event
  the environment may produce can make it fail.  The last section holds the runs in which it does fail, for
  input outside those conditions.
\<close>

section \<open>Reachable states\<close>

text \<open>What the environment may do, seen from the socket: messages without a time to live, well-formed packets, an
  acknowledgement that is valid and not five words long, reports of numbers near the last sent one, a window
  that the loss list can hold, and a clock not before the start of the connection.\<close>

definition admissible :: "snd_config \<Rightarrow> int \<Rightarrow> snd_event \<Rightarrow> CUDT \<Rightarrow> bool" where
  "admissible cf sz e u \<longleftrightarrow> (case e of
     EvSend tok g mem sk data len m \<Rightarrow> len \<le> int (length data) \<and> mc_msgttl m < 0
   | EvAck p t br \<Rightarrow> packet_ok p \<and> m_Length p div 4 \<noteq> 5 \<and>
       (case payload_word p 0 of None \<Rightarrow> True | Some w \<Rightarrow> 0 \<le> w \<longrightarrow> ack_valid sz u w)
   | EvLoss p \<Rightarrow> packet_ok p \<and> (case payload_words p of None \<Rightarrow> True | Some ws \<Rightarrow> report_near sz u ws)
   | EvPack ck now stamp t pkt \<Rightarrow> cf_tsStartTime cf \<le> stamp \<and> cf_tsStartTime cf \<le> ck_stamp ck \<and> window u < sz
   | _ \<Rightarrow> True)"

text \<open>The message an event adds to the accepted ones, with the control block as \<^verbatim>\<open>sendmsg2\<close> hands it back, and the packets it puts on the wire.\<close>

type_synonym message = "SRT_MSGCTRL \<times> byte list"

definition accepted :: "snd_event \<Rightarrow> snd_out \<Rightarrow> message list" where
  "accepted e out = (case (e, out) of
     (EvSend tok g mem sk data len m, OutSend (Inr (n, m'))) \<Rightarrow> if n \<le> 0 then [] else [(m', take (nat n) data)]
   | _ \<Rightarrow> [])"

definition emitted :: "snd_out \<Rightarrow> CPacket list" where
  "emitted out = (case out of OutPacket p \<Rightarrow> [p] | _ \<Rightarrow> [])"

text \<open>The packets of a list of messages, in the order of their sequence numbers.\<close>

definition history :: "int \<Rightarrow> message list \<Rightarrow> spkt list" where
  "history pl M = concat (map (\<lambda>(m, msg). message_packets pl m msg) M)"

lemma history_simps [simp]:
  "history pl [] = []" "history pl ((m, msg) # M) = message_packets pl m msg @ history pl M"
  "history pl (M @ M') = history pl M @ history pl M'"
  by (simp_all add: history_def)

definition message_ok :: "message \<Rightarrow> bool" where
  "message_ok x \<longleftrightarrow> msgno_ok (mc_msgno (fst x)) \<and> snd x \<noteq> []"

text \<open>The accepted messages and the packets put on the wire after an event.\<close>

fun snd_next :: "snd_event \<Rightarrow> snd_out \<Rightarrow> message list \<times> CPacket list \<Rightarrow> message list \<times> CPacket list" where
  "snd_next e out (M, W) = (M @ accepted e out, W @ emitted out)"

text \<open>Connections of configuration \<open>cf\<close> whose first sequence number is \<open>sq I\<close> and whose loss list has \<open>sz\<close> cells:
  the accepted messages, the packets put on the wire and the state.\<close>

definition sending :: "snd_config \<Rightarrow> int \<Rightarrow> int \<Rightarrow> message list \<Rightarrow> CPacket list \<Rightarrow> CUDT \<Rightarrow> bool" where
  "sending cf sz I M W u \<longleftrightarrow> (\<exists>g junk u0 u1. prepareBuffers cf g junk (setInitialSndSeq (sq I) u0) = Some u1 \<and>
     sz = u_iFlowWindowSize u0 * 2 \<and> reach (\<lambda>e _. admissible cf sz e) (snd_do cf) snd_next ([], []) u1 (M, W) u)"

lemma prepareBuffers_ok:
  assumes cfg: "cfg_ok cf sz" and pl: "0 < cf_iMaxDataPayloadSize cf" and sz: "sz = u_iFlowWindowSize u0 * 2"
    and p: "prepareBuffers cf g junk (setInitialSndSeq (sq I) u0) = Some u"
  shows "core_ok cf sz I [] 0 0 u"
proof -
  obtain b where b: "CSndBuffer_new g 32 (cf_iMaxDataPayloadSize cf) 0 = Some b" "snd_ok [0..<nat 32] [] 0 b"
      "sb_iBlockLen b = cf_iMaxDataPayloadSize cf" "sb_iAuthTagSize b = 0" "sb_iNextMsgNo b = 1"
    using new_ok [of 32 "cf_iMaxDataPayloadSize cf" g 0] pl by auto
  have u: "u = (setInitialSndSeq (sq I) u0)\<lparr>u_pSndBuffer := b, u_pSndLossList := CSndLossList_new junk sz\<rparr>"
    using p pl b(1) by (simp add: prepareBuffers_def SRT_ASSERT_def setInitialSndSeq_def sz)
  have "holds sz I {} (CSndLossList_new junk sz)" using holds_new [of sz I junk] cfg by (simp add: cfg_ok_def)
  then have "losses_ok sz I 0 0 (CSndLossList_new junk sz)" by (auto simp: losses_ok_def)
  moreover have "buffer_ok (cf_iMaxDataPayloadSize cf) I [] 0 0 b"
    using b pl by (auto simp: buffer_ok_def getMaxPacketLen_def msgno_ok_def msgno_over_def)
  ultimately show ?thesis using cfg
    by (simp add: u core_ok_def core_base_def hist_ok_def setInitialSndSeq_def) (simp add: cfg_ok_def)
qed

text \<open>One event: it returns, keeps the invariant, and what it emits comes from the history.\<close>

lemma snd_do_ok:
  assumes ok: "core_ok cf sz I H a c u" and adm: "admissible cf sz e u"
  shows "\<exists>out u' a' c'. snd_do cf e u = Some (out, u') \<and>
    core_ok cf sz I (H @ history (cf_iMaxDataPayloadSize cf) (accepted e out)) a' c' u' \<and> list_all message_ok (accepted e out) \<and>
    (\<forall>p \<in> set (emitted out). \<exists>k < length H. transmits (H ! k) p)"
proof (cases e)
  case (EvSend tok g mem sk data len m)
  then have "len \<le> int (length data)" "mc_msgttl m < 0" using adm by (simp_all add: admissible_def)
  from sendmsg2_ok [OF ok this, of tok g mem sk] obtain r u' a' c' where
    r: "sendmsg2 cf tok g mem sk data len m u = Some (r, u')"
      "case r of Inl e \<Rightarrow> core_ok cf sz I H a' c' u'
       | Inr (n, m') \<Rightarrow> if n \<le> 0 then core_ok cf sz I H a' c' u'
           else msgno_ok (mc_msgno m') \<and> n \<le> int (length data) \<and>
             core_ok cf sz I (H @ message_packets (cf_iMaxDataPayloadSize cf) m' (take (nat n) data)) a' c' u'" by blast
  have "core_ok cf sz I (H @ history (cf_iMaxDataPayloadSize cf) (accepted e (OutSend r))) a' c' u' \<and> list_all message_ok (accepted e (OutSend r))"
    using r(2) by (auto simp: EvSend accepted_def message_ok_def split: sum.splits prod.splits if_splits)
  moreover have "snd_do cf e u = Some (OutSend r, u')" using r(1) by (simp add: EvSend snd_do_def)
  moreover have "emitted (OutSend r) = []" by (simp add: emitted_def)
  ultimately show ?thesis by (metis empty_iff list.set(1))
next
  case (EvAck p t br)
  then have p: "packet_ok p" "m_Length p div 4 \<noteq> 5" "\<And>w. payload_word p 0 = Some w \<Longrightarrow> 0 \<le> w \<Longrightarrow> ack_valid sz u w"
    using adm by (simp_all add: admissible_def)
  from processCtrlAck_ok [OF ok p] obtain r u' a' c' where r: "processCtrlAck cf p t br u = Some (r, u')" "core_ok cf sz I H a' c' u'" by blast
  then show ?thesis by (auto simp: EvAck snd_do_def emitted_def accepted_def)
next
  case (EvLoss p)
  then have p: "packet_ok p" "\<And>ws. payload_words p = Some ws \<Longrightarrow> report_near sz u ws"
    using adm by (simp_all add: admissible_def)
  from processCtrlLossReport_ok [OF ok p] obtain r u' where r: "processCtrlLossReport p u = Some (r, u')" "core_ok cf sz I H a c u'" by blast
  then show ?thesis by (auto simp: EvLoss snd_do_def emitted_def accepted_def)
next
  case (EvPack ck now stamp t pkt)
  then have p: "cf_tsStartTime cf \<le> stamp" "cf_tsStartTime cf \<le> ck_stamp ck" "window u < sz" using adm by (simp_all add: admissible_def)
  from packData_ok [OF ok p, of now t pkt] obtain r nx p' u' c' where
    r: "packData cf ck now stamp t pkt u = Some (r, nx, p', u')" "core_ok cf sz I H a c' u'" "r \<longrightarrow> (\<exists>k < length H. transmits (H ! k) p')" by blast
  then show ?thesis by (cases r) (auto simp: EvPack snd_do_def emitted_def accepted_def)
next
  case (EvTimer t)
  then show ?thesis using checkRexmitTimer_ok [OF ok, of t] by (auto simp: snd_do_def emitted_def accepted_def)
next
  case (EvControl w i)
  then have "core_ok cf sz I H a c (u\<lparr>u_iCongestionWindow := w, u_tdSendInterval := i\<rparr>)" using ok by (simp add: core_ok_def core_base_est)
  then show ?thesis by (auto simp: EvControl snd_do_def emitted_def accepted_def)
qed

definition on_wire :: "spkt list \<Rightarrow> CPacket \<Rightarrow> bool" where
  "on_wire H p \<longleftrightarrow> (\<exists>k < length H. transmits (H ! k) p)"

lemma on_wire_append: "on_wire H p \<Longrightarrow> on_wire (H @ H') p"
  unfolding on_wire_def by (metis length_append nth_append trans_less_add1)

text \<open>The abstract state is what was accepted and what was emitted; the socket implements it if its buffers hold what is left of it.\<close>

definition snd_sim :: "snd_config \<Rightarrow> int \<Rightarrow> int \<Rightarrow> message list \<times> CPacket list \<Rightarrow> CUDT \<Rightarrow> bool" where
  "snd_sim cf sz I = (\<lambda>(M, W) u. (\<exists>a c. core_ok cf sz I (history (cf_iMaxDataPayloadSize cf) M) a c u) \<and> list_all message_ok M \<and>
     (\<forall>p \<in> set W. on_wire (history (cf_iMaxDataPayloadSize cf) M) p))"

interpretation sender: simulation "snd_sim cf sz I" "\<lambda>e _. admissible cf sz e" "snd_do cf"
  "\<lambda>e MW out. \<forall>p \<in> set (emitted out). on_wire (history (cf_iMaxDataPayloadSize cf) (fst MW)) p" snd_next for cf sz I
proof
  fix MW u e
  assume sim: "snd_sim cf sz I MW u" and adm: "admissible cf sz e u"
  obtain M W where MW: "MW = (M, W)" by (cases MW)
  obtain a c where "core_ok cf sz I (history (cf_iMaxDataPayloadSize cf) M) a c u" using sim by (auto simp: MW snd_sim_def)
  from snd_do_ok [OF this adm] obtain out u' a' c' where
    n: "snd_do cf e u = Some (out, u')" "core_ok cf sz I (history (cf_iMaxDataPayloadSize cf) (M @ accepted e out)) a' c' u'" "list_all message_ok (accepted e out)"
      "\<forall>p \<in> set (emitted out). on_wire (history (cf_iMaxDataPayloadSize cf) M) p"
    by (auto simp: on_wire_def)
  have "snd_sim cf sz I (snd_next e out MW) u'"
    using n(2-4) sim by (auto simp: MW snd_sim_def intro: on_wire_append)
  then show "\<exists>r s'. snd_do cf e u = Some (r, s') \<and> (\<forall>p \<in> set (emitted r). on_wire (history (cf_iMaxDataPayloadSize cf) (fst MW)) p) \<and>
      snd_sim cf sz I (snd_next e r MW) s'" using n(1,4) by (auto simp: MW)
qed

lemma sending_sim:
  assumes "sending cf sz I M W u" and "cfg_ok cf sz" and "0 < cf_iMaxDataPayloadSize cf"
  shows "snd_sim cf sz I (M, W) u"
proof -
  obtain g junk u0 u1 where u1: "prepareBuffers cf g junk (setInitialSndSeq (sq I) u0) = Some u1" "sz = u_iFlowWindowSize u0 * 2"
    "reach (\<lambda>e _. admissible cf sz e) (snd_do cf) snd_next ([], []) u1 (M, W) u" using assms(1) by (auto simp: sending_def)
  have "snd_sim cf sz I ([], []) u1" using prepareBuffers_ok [OF assms(2,3) u1(2,1)] by (auto simp: snd_sim_def)
  then show ?thesis using sender.reach_sim [OF u1(3)] by simp
qed

lemma sending_step:
  assumes "sending cf sz I M W u" and "admissible cf sz e u" and "snd_do cf e u = Some (out, u')"
  shows "sending cf sz I (M @ accepted e out) (W @ emitted out) u'"
  using assms reach.call [where ok = "\<lambda>e _. admissible cf sz e" and a = "(M, W)" and s = u and nxt = snd_next] unfolding sending_def snd_next.simps [symmetric] by blast

section \<open>Properties\<close>

text \<open>C3: The sending side of a connection never fails.  Whatever sequence of admissible events a connection has seen (messages to send, acknowledgements
  and loss reports of the peer, requests for the next packet, timer ticks, new windows), the next admissible event is handled: no assertion fails,
  no array or ring is left, and no loop runs forever; a packet it emits is one of the scheduled packets.\<close>

theorem sender_never_fails:
  assumes "sending cf sz I M W u" and "cfg_ok cf sz" and "0 < cf_iMaxDataPayloadSize cf" and "admissible cf sz e u"
  shows "\<exists>out u'. snd_do cf e u = Some (out, u') \<and> sending cf sz I (M @ accepted e out) (W @ emitted out) u'"
  using sender.step_law [OF sending_sim [OF assms(1-3)] assms(4)] sending_step [OF assms(1,4)] by blast

text \<open>C2: What the sending side puts on the wire is what was given to it.  Every packet emitted since the connection began, sent for the first time
  or again, is one of the packets the accepted messages were cut into: its sequence number is the first one plus the packet's position among all of
  them, its payload is that packet's, and its message word is that packet's up to the retransmission flag.\<close>

theorem sender_wire_faithful:
  assumes "sending cf sz I M W u" and "cfg_ok cf sz" and "0 < cf_iMaxDataPayloadSize cf" and "p \<in> set W"
  shows "\<exists>k < length (history (cf_iMaxDataPayloadSize cf) M). getSeqNo p = sq (I + int k) \<and>
    take (m_Length p) (m_pcData p) = p_data (history (cf_iMaxDataPayloadSize cf) M ! k) \<and>
    m_Length p \<le> length (m_pcData p) \<and>
    m_nHeader p SRT_PH_MSGNO AND NOT (BitsetMask 26 26) = p_bits (history (cf_iMaxDataPayloadSize cf) M ! k) AND NOT (BitsetMask 26 26)"
proof -
  let ?H = "history (cf_iMaxDataPayloadSize cf) M"
  obtain a c where ok: "core_ok cf sz I ?H a c u" and w: "on_wire ?H p" using sending_sim [OF assms(1-3)] assms(4) by (auto simp: snd_sim_def)
  obtain k where k: "k < length ?H" "transmits (?H ! k) p" using w by (auto simp: on_wire_def)
  have "p_seq (?H ! k) = sq (I + int k)" using ok k(1) by (simp add: core_ok_def core_base_def hist_ok_def)
  then have "getSeqNo p = sq (I + int k)" using k(2) by (simp add: transmits_def getSeqNo_def word_sq)
  moreover have "m_nHeader p SRT_PH_MSGNO AND NOT (BitsetMask 26 26) = p_bits (?H ! k) AND NOT (BitsetMask 26 26)"
    using k(2) by (auto simp: transmits_def intro!: bit_word_eqI simp: bit_simps)
  ultimately show ?thesis using k by (auto simp: transmits_def)
qed

text \<open>C11: The sequence numbers and counts of the sending side keep to their types and to each other.  In every reachable state the four sequence
  numbers are proper ones, the buffer holds no more packets than configured, the packets in flight are those between the last acknowledgement and the
  last number sent and fewer than the loss list has cells, and the loss list holds at most those.\<close>

theorem sender_numbers_typed:
  assumes "sending cf sz I M W u" and "cfg_ok cf sz" and "0 < cf_iMaxDataPayloadSize cf"
  shows "seq_ok (u_iSndLastAck u) \<and> seq_ok (u_iSndLastDataAck u) \<and> seq_ok (u_iSndCurrSeqNo u) \<and> seq_ok (u_iSndNextSeqNo u) \<and>
    u_iSndLastAck u = u_iSndLastDataAck u \<and> 0 \<le> getCurrBufSize (u_pSndBuffer u) \<and> getCurrBufSize (u_pSndBuffer u) \<le> cf_iSndBufSize cf \<and>
    0 \<le> getFlightSpan u \<and> getFlightSpan u < sz \<and> getFlightSpan u \<le> getCurrBufSize (u_pSndBuffer u) \<and>
    0 \<le> getLossLength (u_pSndLossList u) \<and> getLossLength (u_pSndLossList u) \<le> getFlightSpan u \<and>
    u_iSndNextSeqNo u = incseq_by (u_iSndLastDataAck u) (getCurrBufSize (u_pSndBuffer u))"
proof -
  let ?H = "history (cf_iMaxDataPayloadSize cf) M"
  obtain a c where ok: "core_ok cf sz I ?H a c u" using sending_sim [OF assms(1-3)] by (auto simp: snd_sim_def)
  have base: "core_base cf sz I ?H a c u" and la: "u_iSndLastAck u = sq (I + int a)" using ok by (simp_all add: core_ok_def)
  note b = core_baseD [OF base] and cf = cfg_okD [OF assms(2)] and fl = flight_span [OF ok]
  obtain R q where q: "snd_ok R q c (u_pSndBuffer u)" "a + length q = length ?H" using b(3) by (auto simp: buffer_ok_def)
  have n: "getCurrBufSize (u_pSndBuffer u) = int (length q)" using snd_ok_lens(2) [OF q(1)] by (simp add: getCurrBufSize_def)
  obtain L where L: "holds sz (I + int a) L (u_pSndLossList u)" "L \<subseteq> {I + int a..<I + int a + int c}" using b(4) by (auto simp: losses_ok_def)
  have "card L \<le> c" using card_mono [OF _ L(2)] by simp
  moreover have "getLossLength (u_pSndLossList u) = int (card L)" by (rule snd_list.len_law [OF L(1)])
  moreover have "u_iSndNextSeqNo u = incseq_by (u_iSndLastDataAck u) (int (length q))"
  proof -
    have "int (length ?H) = int a + int (length q)" using q(2) by linarith
    then show ?thesis using incseq_by_sq [of "int (length q)" "I + int a"] b(7,8,10) cf by (simp add: m_iSeqNoTH_def add.assoc)
  qed
  moreover have "seq_ok (u_iSndNextSeqNo u)" by (simp add: b(10))
  ultimately show ?thesis using la b(5-7) fl n q(2) by (simp add: b(8,9))
qed

section \<open>A connection\<close>

text \<open>A connection that starts at the last sequence number before the wrap: a message of two packets is sent, the first of them is
  reported lost and sent again.\<close>

definition demo_cf :: snd_config where
  "demo_cf = \<lparr>cf_bMessageAPI = True, cf_bTsbPd = False, cf_bPeerTsbPd = False, cf_bPeerTLPktDrop = False, cf_bPeerNakReport = False,
     cf_bPeerRexmitFlag = True, cf_iRetransmitAlgo = 0, cf_rexmitMethod = SRM_FASTREXMIT, cf_iSndDropDelay = 0, cf_iPeerTsbPdDelay_ms = 0, cf_iSndBufSize = 8,
     cf_iMaxDataPayloadSize = 4, cf_PeerID = 7, cf_tsStartTime = 1000\<rparr>"

definition demo_socket :: CUDT where
  "demo_socket = \<lparr>u_pSndBuffer = demo_buffer, u_pSndLossList = CSndLossList_new (\<lambda>_. 0) 1, u_iSndLastAck = 0, u_iSndLastDataAck = 0, u_iSndLastFullAck = 0,
     u_iSndLastAck2 = 0, u_SndLastAck2Time = 0, u_iSndCurrSeqNo = 0, u_iSndNextSeqNo = 0, u_iFlowWindowSize = 8, u_iCongestionWindow = 8,
     u_est = \<lparr>e_iSRTT = 100000, e_iRTTVar = 50000, e_bIsFirstRTTReceived = False, e_iBandwidth = 1, e_iDeliveryRate = 16, e_iByteDeliveryRate = 1\<rparr>,
     u_bBroken = False, u_bOpened = True, u_tsLastRspAckTime = 0, u_iReXmitCount = 1, u_tsNextSendTime = 0, u_tdSendTimeDiff = 0,
     u_tdSendInterval = 10, u_tsLastSndTime = 0, u_ctrl = []\<rparr>"

definition demo_start :: CUDT where
  "demo_start = the (prepareBuffers demo_cf demo_block (\<lambda>_. 0) (setInitialSndSeq (sq 0x7FFFFFFF) demo_socket))"

definition demo_send :: snd_event where
  "demo_send = EvSend True demo_block (\<lambda>_. ALLOC_OK) \<lparr>sk_reset = 2000, sk_drop = 2000, sk_add = 2000\<rparr> [1, 2, 3, 4, 5, 6] 6 demo_ctrl"

definition demo_pack :: "int \<Rightarrow> snd_event" where
  "demo_pack t = EvPack \<lparr>ck_search = (\<lambda>_. t), ck_read = (\<lambda>_. (t, t)), ck_stamp = t\<rparr> (\<lambda>_. t) t t (demo_packet 0)"

definition words_packet :: "u32 list \<Rightarrow> CPacket" where
  "words_packet ws = \<lparr>m_nHeader = (\<lambda>f. 0x80030000), m_pcData = concat (map (\<lambda>w. rev (store_be32 w)) ws), m_Length = 4 * length ws\<rparr>"

definition demo_events :: "snd_event list" where
  "demo_events = [demo_send, demo_pack 3000, demo_pack 3010, EvLoss (words_packet [0x7FFFFFFF]), demo_pack 3020]"

definition demo_sent :: "(message list \<times> CPacket list) \<times> CUDT" where
  "demo_sent = the (checked_run (\<lambda>e _. admissible demo_cf 16 e) (snd_do demo_cf) snd_next demo_events ([], []) demo_start)"

lemma demo_cfg: "cfg_ok demo_cf 16" "0 < cf_iMaxDataPayloadSize demo_cf"
  by code_simp+

lemma demo_start_eq: "prepareBuffers demo_cf demo_block (\<lambda>_. 0) (setInitialSndSeq (sq 0x7FFFFFFF) demo_socket) = Some demo_start"
proof -
  have "prepareBuffers demo_cf demo_block (\<lambda>_. 0) (setInitialSndSeq (sq 0x7FFFFFFF) demo_socket) \<noteq> None" by code_simp
  then show ?thesis by (simp add: demo_start_def)
qed

lemma checked_sending:
  assumes "checked_run (\<lambda>e _. admissible demo_cf 16 e) (snd_do demo_cf) snd_next es ([], []) demo_start \<noteq> None"
  defines "r \<equiv> the (checked_run (\<lambda>e _. admissible demo_cf 16 e) (snd_do demo_cf) snd_next es ([], []) demo_start)"
  shows "sending demo_cf 16 0x7FFFFFFF (fst (fst r)) (snd (fst r)) (snd r)"
proof -
  have "checked_run (\<lambda>e _. admissible demo_cf 16 e) (snd_do demo_cf) snd_next es ([], []) demo_start = Some (fst r, snd r)"
    using assms(1) by (simp add: r_def)
  moreover have "(16::int) = u_iFlowWindowSize demo_socket * 2" by (simp add: demo_socket_def)
  ultimately show ?thesis using checked_run_reach [OF reach.start] demo_start_eq unfolding sending_def by (metis prod.collapse)
qed

lemma demo_sending: "sending demo_cf 16 0x7FFFFFFF (fst (fst demo_sent)) (snd (fst demo_sent)) (snd demo_sent)"
proof -
  have "checked_run (\<lambda>e _. admissible demo_cf 16 e) (snd_do demo_cf) snd_next demo_events ([], []) demo_start \<noteq> None" by code_simp
  from checked_sending [OF this] show ?thesis by (simp add: demo_sent_def)
qed

theorem sender_never_fails_witness:
  "\<exists>out u'. snd_do demo_cf demo_send (snd demo_sent) = Some (out, u') \<and>
     sending demo_cf 16 0x7FFFFFFF (fst (fst demo_sent) @ accepted demo_send out) (snd (fst demo_sent) @ emitted out) u'"
proof -
  have "admissible demo_cf 16 demo_send (snd demo_sent)" by code_simp
  then show ?thesis by (rule sender_never_fails [OF demo_sending demo_cfg])
qed

theorem sender_wire_faithful_witness:
  "\<exists>k < 2. getSeqNo (snd (fst demo_sent) ! 2) = sq (0x7FFFFFFF + int k) \<and> m_Length (snd (fst demo_sent) ! 2) \<le> length (m_pcData (snd (fst demo_sent) ! 2))"
proof -
  have "2 < length (snd (fst demo_sent))" by code_simp
  then have "snd (fst demo_sent) ! 2 \<in> set (snd (fst demo_sent))" by simp
  from sender_wire_faithful [OF demo_sending demo_cfg this] obtain k where
    "k < length (history (cf_iMaxDataPayloadSize demo_cf) (fst (fst demo_sent)))" "getSeqNo (snd (fst demo_sent) ! 2) = sq (0x7FFFFFFF + int k)"
    "m_Length (snd (fst demo_sent) ! 2) \<le> length (m_pcData (snd (fst demo_sent) ! 2))" by blast
  moreover have "length (history (cf_iMaxDataPayloadSize demo_cf) (fst (fst demo_sent))) = 2" by code_simp
  ultimately show ?thesis by auto
qed

theorem sender_numbers_typed_witness:
  "seq_ok (u_iSndCurrSeqNo (snd demo_sent)) \<and> getFlightSpan (snd demo_sent) < 16 \<and> u_iSndCurrSeqNo (snd demo_sent) = 0"
  using sender_numbers_typed [OF demo_sending demo_cfg] by code_simp

end
