(* ===== verification/SndCoreEdge.thy ===== *)
theory SndCoreEdge
  imports SndCoreProps
begin

text \<open>
  More about the sending side: the pace of the packets, the retransmission timer, and runs outside the
  conditions of \<open>sending\<close> in which the code does not do what it means to.
\<close>

unbundle bit_operations_syntax

section \<open>Pacing\<close>

text \<open>Picking a packet does not touch the schedule.\<close>

definition pace :: "CUDT \<Rightarrow> int \<times> int \<times> int" where
  "pace u = (u_tsNextSendTime u, u_tdSendTimeDiff u, u_tdSendInterval u)"

lemma pace_upd [simp]:
  "pace (u\<lparr>u_pSndBuffer := b\<rparr>) = pace u" "pace (u\<lparr>u_pSndLossList := l\<rparr>) = pace u" "pace (u\<lparr>u_iSndCurrSeqNo := n\<rparr>) = pace u"
  "pace (u\<lparr>u_tsLastSndTime := n\<rparr>) = pace u" "pace (sendCtrl m u) = pace u"
  by (simp_all add: pace_def sendCtrl_def)

lemma skip_outdated_pace: "skip_outdated u = Some y \<Longrightarrow> pace (snd (snd y)) = pace u"
proof (rule skip_outdated.raw_induct [of "\<lambda>u y. pace (snd (snd y)) = pace u" u y])
  fix f u y
  assume IH: "\<And>v y. f v = Some y \<Longrightarrow> pace (snd (snd y)) = pace v"
    and y: "do { (seq, l) \<leftarrow> popLostSeq (u_pSndLossList u); let u = u\<lparr>u_pSndLossList := l\<rparr>;
       if seq = SRT_SEQNO_NONE then Some (seq, - 1, u)
       else let offset = seqoff (u_iSndLastDataAck u) seq in if 0 \<le> offset then Some (seq, offset, u) else f u } = Some y"
  then show "pace (snd (snd y)) = pace u"
    by (auto simp: Let_def bind_eq_Some_conv split: if_splits dest: IH)
qed

lemma getCleanRexmitOffset_pace: "getCleanRexmitOffset cf now u = Some y \<Longrightarrow> pace (snd (snd y)) = pace u"
proof (rule getCleanRexmitOffset.raw_induct [of "\<lambda>cf now u y. pace (snd (snd y)) = pace u" cf now u y])
  show "pace (snd (snd y)) = pace u" if IH: "\<And>cf now v y. f cf now v = Some y \<Longrightarrow> pace (snd (snd y)) = pace v"
    and y: "do { (seq0, l) \<leftarrow> popLostSeq (u_pSndLossList u); let u = u\<lparr>u_pSndLossList := l\<rparr>;
       if seq0 = SRT_SEQNO_NONE then Some (SRT_SEQNO_NONE, - 1, u)
       else let offset0 = seqoff (u_iSndLastDataAck u) seq0 in do {
         (seq, offset, u) \<leftarrow> (if offset0 < 0 then map_option (\<lambda>(seq, offset, u). (seq, offset,
            sendCtrl (CTRL_DROPREQ SRT_MSGNO_CONTROL seq0 (decseq (u_iSndLastDataAck u))) u)) (skip_outdated u)
          else Some (seq0, offset0, u));
         if seq = SRT_SEQNO_NONE then Some (SRT_SEQNO_NONE, - 1, u)
         else do { right \<leftarrow> checkRexmitRightTime cf offset (now 0) u;
           if right then Some (seq, offset, u) else f cf (\<lambda>i. now (Suc i)) u } } } = Some y" for f cf now u y
  proof -
    have m: "pace u2 = pace v" if "(if seqoff (u_iSndLastDataAck v) s0 < 0 then map_option (\<lambda>(seq, offset, u). (seq, offset,
            sendCtrl (CTRL_DROPREQ SRT_MSGNO_CONTROL s0 (decseq (u_iSndLastDataAck u))) u)) (skip_outdated v)
          else Some (s0, seqoff (u_iSndLastDataAck v) s0, v)) = Some (sq2, off2, u2)" for v s0 sq2 off2 u2
      using that skip_outdated_pace [of v] by (fastforce split: if_splits)
    obtain s0 l where l: "popLostSeq (u_pSndLossList u) = Some (s0, l)" using y by (auto simp: bind_eq_Some_conv)
    define v where "v = u\<lparr>u_pSndLossList := l\<rparr>"
    have v: "pace v = pace u" by (simp add: v_def)
    note y' = y [unfolded l Let_def bind.simps prod.case, folded v_def]
    show ?thesis
    proof (cases "s0 = SRT_SEQNO_NONE")
      case True
      then show ?thesis using y' v by auto
    next
      case False
      let ?m = "if seqoff (u_iSndLastDataAck v) s0 < 0 then map_option (\<lambda>(seq, offset, u). (seq, offset,
            sendCtrl (CTRL_DROPREQ SRT_MSGNO_CONTROL s0 (decseq (u_iSndLastDataAck u))) u)) (skip_outdated v)
          else Some (s0, seqoff (u_iSndLastDataAck v) s0, v)"
      have "?m \<noteq> None"
      proof
        assume "?m = None"
        from y' [unfolded this] show False using False by simp
      qed
      then obtain x where x: "?m = Some x" by blast
      obtain sq2 off2 u2 where "x = (sq2, off2, u2)" by (rule prod_cases3)
      with x have u2: "?m = Some (sq2, off2, u2)" by (simp only:)
      note y2 = y' [unfolded u2 bind.simps prod.case]
      show ?thesis using y2 False m [OF u2] v by (auto simp: bind_eq_Some_conv split: if_splits dest: IH)
    qed
  qed
qed

lemma extractCleanRexmitPacket_pace: "extractCleanRexmitPacket now seqno offset pkt ts u = Some y \<Longrightarrow> pace (snd (snd (snd y))) = pace u"
proof (rule extractCleanRexmitPacket.raw_induct [of "\<lambda>now seqno offset pkt ts u y. pace (snd (snd (snd y))) = pace u" now seqno offset pkt ts u y])
  show "pace (snd (snd (snd y))) = pace u" if IH: "\<And>now seqno offset pkt ts v y. f now seqno offset pkt ts v = Some y \<Longrightarrow> pace (snd (snd (snd y))) = pace v"
    and y: "(let pkt = set_seqno seqno pkt in do {
     (r, b) \<leftarrow> readData_rexmit offset (fst (now 0)) (snd (now 0)) pkt ts \<lparr>dr_begin = 0, dr_end = 0, dr_msgno = 0\<rparr> (u_pSndBuffer u);
     let u = u\<lparr>u_pSndBuffer := b\<rparr>;
     if rx_return r = READ_DROP then do {
       _ \<leftarrow> SRT_ASSERT (seqoff (dr_begin (rx_drop r)) (dr_end (rx_drop r)) \<ge> 0);
       let u = sendCtrl (CTRL_DROPREQ (dr_msgno (rx_drop r)) (dr_begin (rx_drop r)) (dr_end (rx_drop r))) u;
       l \<leftarrow> removeUpTo (dr_end (rx_drop r)) (u_pSndLossList u);
       f (\<lambda>i. now (Suc i)) seqno offset (rx_packet r) (rx_srctime r)
         (u\<lparr>u_pSndLossList := l, u_iSndCurrSeqNo := maxseq (u_iSndCurrSeqNo u) (dr_end (rx_drop r))\<rparr>) }
     else if rx_return r = READ_NONE then Some (0, rx_packet r, rx_srctime r, u)
     else Some (rx_return r, rx_packet r, rx_srctime r, u) }) = Some y" for f now seqno offset pkt ts u y
    using y by (auto simp: Let_def bind_eq_Some_conv split: if_splits dest!: IH)
qed

lemma packLostData_pace: "packLostData cf ck pkt u = Some (n, p, u') \<Longrightarrow> pace u' = pace u"
  by (auto simp: packLostData_def Let_def bind_eq_Some_conv split: if_splits
      dest!: getCleanRexmitOffset_pace extractCleanRexmitPacket_pace)

lemma packUniqueData_pace: "packUniqueData cf now stamp pkt u = Some (r, p, u') \<Longrightarrow> pace u' = pace u"
  by (auto simp: packUniqueData_def Let_def bind_eq_Some_conv split: if_splits)

lemma pick_packet_pace: "pick_packet cf ck now stamp pkt u = Some (k, p, u') \<Longrightarrow> pace u' = pace u"
  by (auto simp: pick_packet_def bind_eq_Some_conv split: if_splits dest!: packLostData_pace packUniqueData_pace)

text \<open>C19: The pace of the packets is exact.  The schedule of a socket is the time of its next packet less the time it is behind; every packet it
  gives out moves the schedule by one sending interval, from where it was if the call came late and from the time of the call if it did not.
  So neither late calls nor probing pairs change the average rate: what is sent early or late is made up for by later packets.
  The next packet is never due before the time of the call.\<close>

theorem sender_pace_exact:
  assumes "packData cf ck now stamp t pkt u = Some (True, nxt, pkt', u')"
  shows "nxt = u_tsNextSendTime u' \<and>
    u_tsNextSendTime u' - u_tdSendTimeDiff u' =
      (if u_tsNextSendTime u \<noteq> 0 \<and> u_tsNextSendTime u < t then u_tsNextSendTime u else t) - u_tdSendTimeDiff u + u_tdSendInterval u \<and>
    u_tdSendInterval u' = u_tdSendInterval u \<and> t \<le> nxt"
proof -
  define v where "v = (if u_tsNextSendTime u \<noteq> 0 \<and> t > u_tsNextSendTime u
      then u\<lparr>u_tdSendTimeDiff := u_tdSendTimeDiff u + (t - u_tsNextSendTime u)\<rparr> else u)"
  obtain k p1 u1 where k: "pick_packet cf ck now stamp pkt v = Some (k, p1, u1)" "k \<noteq> PICK_NONE"
    and n: "nxt = u_tsNextSendTime u'" "\<exists>pr. u' = set_next_time t pr (u1\<lparr>u_tsLastSndTime := t\<rparr>)"
    using assms unfolding packData_def Let_def v_def [symmetric] by (auto simp: bind_eq_Some_conv split: if_splits)
  have "pace (u1\<lparr>u_tsLastSndTime := t\<rparr>) = pace v" using pick_packet_pace [OF k(1)] by simp
  then have f: "u_tdSendTimeDiff (u1\<lparr>u_tsLastSndTime := t\<rparr>) = u_tdSendTimeDiff v" "u_tdSendInterval (u1\<lparr>u_tsLastSndTime := t\<rparr>) = u_tdSendInterval u"
    unfolding pace_def by (simp_all add: v_def)
  show ?thesis using n f unfolding set_next_time_def Let_def by (auto simp: v_def)
qed

definition demo_packed :: "(message list \<times> CPacket list) \<times> CUDT" where
  "demo_packed = the (checked_run (\<lambda>e _. admissible demo_cf 16 e) (snd_do demo_cf) snd_next [demo_send, demo_pack 3000] ([], []) demo_start)"

definition demo_clock :: rexmit_clock where
  "demo_clock = \<lparr>ck_search = (\<lambda>_. 3025), ck_read = (\<lambda>_. (3025, 3025)), ck_stamp = 3025\<rparr>"

theorem sender_pace_exact_witness:
  "u_tsNextSendTime (snd demo_packed) = 3010 \<and>
   (\<exists>nxt pkt' u'. packData demo_cf demo_clock (\<lambda>_. 3025) 3025 3025 (demo_packet 0) (snd demo_packed) = Some (True, nxt, pkt', u') \<and>
     u_tsNextSendTime u' - u_tdSendTimeDiff u' = 3020)"
proof -
  let ?r = "packData demo_cf demo_clock (\<lambda>_. 3025) 3025 3025 (demo_packet 0) (snd demo_packed)"
  have "case ?r of Some (True, _) \<Rightarrow> True | _ \<Rightarrow> False" by code_simp
  then obtain nxt pkt' u' where r: "?r = Some (True, nxt, pkt', u')" by (auto split: option.splits bool.splits prod.splits)
  have "u_tsNextSendTime (snd demo_packed) = 3010" "u_tdSendTimeDiff (snd demo_packed) = 0" "u_tdSendInterval (snd demo_packed) = 10" by code_simp+
  then show ?thesis using sender_pace_exact [OF r] r by auto
qed

section \<open>The retransmission timer\<close>

lemma insert_all_losses:
  assumes "losses_ok sz I a c l" and "0 < c" and "int c < sz"
  shows "\<exists>n l'. insert_loss (sq (I + int a)) (sq (I + int a + int c - 1)) l = Some (n, l') \<and> getLossLength l' = int c \<and> losses_ok sz I a c l'"
proof -
  let ?A = "{I + int a..I + int a + int c - 1}"
  obtain L where L: "holds sz (I + int a) L l" "L \<subseteq> {I + int a..<I + int a + int c}" using assms(1) by (auto simp: losses_ok_def)
  have "call_ok sz (I + int a, Insert (I + int a) (I + int a + int c - 1)) L" using L assms by (auto simp: call_ok_def)
  from snd_list.call_law [OF L(1) this] obtain n l' where
    l': "insert_loss (sq (I + int a)) (sq (I + int a + int c - 1)) l = Some (n, l')" "holds sz (I + int a) (L \<union> ?A) l'"
    by (auto simp: code_call_def set_call_def)
  have "L \<union> ?A = ?A" using L(2) by auto
  then have "getLossLength l' = int c" "losses_ok sz I a c l'" using snd_list.len_law [OF l'(2)] l'(2) by (auto simp: losses_ok_def)
  then show ?thesis using l'(1) by blast
qed

text \<open>C17: Packets that nobody acknowledges are sent again.  When a socket has heard no acknowledgement for the time of its retransmission timer, packets are
  in flight, and the method in use applies (the peer sends no periodic reports, or the loss list is empty in file mode), then all the packets in flight
  are in the loss list after \<^verbatim>\<open>checkRexmitTimer\<close>, whatever was there before, and the timer backs off by one more step.\<close>

theorem sender_timer_resends_all:
  assumes "sending cf sz I M W u" and "cfg_ok cf sz" and "0 < cf_iMaxDataPayloadSize cf" and "0 < getFlightSpan u"
    and "u_tsLastRspAckTime u + u_iReXmitCount u * (e_iSRTT (u_est u) + 4 * e_iRTTVar (u_est u) + 2 * COMM_SYN_INTERVAL_US) + COMM_SYN_INTERVAL_US < t"
    and "cf_rexmitMethod cf = SRM_FASTREXMIT \<and> \<not> cf_bPeerNakReport cf \<or> cf_rexmitMethod cf = SRM_LATEREXMIT \<and> getLossLength (u_pSndLossList u) = 0"
  shows "\<exists>u'. checkRexmitTimer cf t u = Some u' \<and> getLossLength (u_pSndLossList u') = getFlightSpan u' \<and> getFlightSpan u' = getFlightSpan u \<and>
    u_iReXmitCount u' = u_iReXmitCount u + 1"
proof -
  let ?H = "history (cf_iMaxDataPayloadSize cf) M"
  obtain a c where ok: "core_ok cf sz I ?H a c u" using sending_sim [OF assms(1-3)] by (auto simp: snd_sim_def)
  have base: "core_base cf sz I ?H a c u" and la: "u_iSndLastAck u = sq (I + int a)" using ok by (simp_all add: core_ok_def)
  note b = core_baseD [OF base] and fl = flight_span [OF ok]
  obtain R q where q: "snd_ok R q c (u_pSndBuffer u)" using b(3) by (auto simp: buffer_ok_def)
  have c: "0 < c" "c \<le> length q" using assms(4) fl q by (simp_all add: snd_ok_def)
  then have n: "0 < getCurrBufSize (u_pSndBuffer u)" using snd_ok_lens(2) [OF q] by (cases q) (simp_all add: getCurrBufSize_def)
  obtain n l' where l': "insert_loss (u_iSndLastAck u) (u_iSndCurrSeqNo u) (u_pSndLossList u) = Some (n, l')" "getLossLength l' = int c"
    using insert_all_losses [OF b(4) c(1) b(6)] unfolding la b(9) by blast
  let ?u = "u\<lparr>u_pSndLossList := l', u_iReXmitCount := u_iReXmitCount u + 1\<rparr>"
  have "checkRexmitTimer cf t u = Some ?u"
    using assms(4-6) n l'(1) by (auto simp: checkRexmitTimer_def Let_def insert_into_loss_def algebra_simps)
  moreover have "getFlightSpan ?u = getFlightSpan u" by (simp add: getFlightSpan_def)
  ultimately show ?thesis using l'(2) fl by auto
qed

theorem sender_timer_resends_all_witness:
  "\<exists>u'. checkRexmitTimer demo_cf 400000 (snd demo_sent) = Some u' \<and> getLossLength (u_pSndLossList u') = 2 \<and> getFlightSpan u' = 2"
proof -
  let ?u = "snd demo_sent"
  have f: "getFlightSpan ?u = 2" and
    "u_tsLastRspAckTime ?u + u_iReXmitCount ?u * (e_iSRTT (u_est ?u) + 4 * e_iRTTVar (u_est ?u) + 2 * COMM_SYN_INTERVAL_US) + COMM_SYN_INTERVAL_US < 400000"
    "cf_rexmitMethod demo_cf = SRM_FASTREXMIT \<and> \<not> cf_bPeerNakReport demo_cf"
    by code_simp+
  then show ?thesis using sender_timer_resends_all [OF demo_sending demo_cfg, of 400000] by auto
qed

section \<open>Where the code fails\<close>

text \<open>A queue of consecutive numbers whose packet \<open>k\<close> is of another message than a later one.\<close>

definition followed :: "int \<Rightarrow> spkt list \<Rightarrow> nat \<Rightarrow> bool" where
  "followed Y q k \<longleftrightarrow> (\<forall>i < length q. p_seq (q ! i) = sq (Y + int i)) \<and> int (length q) < 2 ^ 31 \<and>
     (\<exists>j < length q. k < j \<and> p_msgno (q ! j) \<noteq> p_msgno (q ! k))"

abbreviation no_range :: DropRange where
  "no_range \<equiv> \<lparr>dr_begin = 0, dr_end = 0, dr_msgno = 0\<rparr>"

lemma followed_end:
  assumes "followed Y q k"
  shows "k < msg_end q (p_msgno (q ! k)) (Suc k)" "msg_end q (p_msgno (q ! k)) (Suc k) < length q"
proof -
  let ?P = "\<lambda>p. p_msgno p = p_msgno (q ! k)"
  obtain i where i: "k < i" "i < length q" "\<not> ?P (q ! i)" using assms by (auto simp: followed_def)
  then have "i - Suc k < length (drop (Suc k) q)" "drop (Suc k) q ! (i - Suc k) = q ! i" by simp_all
  then have "length (takeWhile ?P (drop (Suc k) q)) \<le> i - Suc k" using i(3) takeWhile_nth
    by (metis (mono_tags, lifting) linorder_not_le nth_mem set_takeWhileD)
  then show "msg_end q (p_msgno (q ! k)) (Suc k) < length q" using i by (simp add: msg_end_def)
qed (simp add: msg_end_def)

text \<open>Reading an expired packet again asks to drop its message, and leaves it in the buffer.\<close>

lemma expired_read_again:
  assumes f: "followed Y q k" and s: "sb_sim pl (q, c) s" and x: "p_expired n0 (q ! k)"
  shows "\<exists>e s' c'. readData_rexmit (int k) n0 n1 (set_seqno (sq (Y + int k)) pkt) t no_range s =
      Some (\<lparr>rx_return = READ_DROP, rx_packet = set_seqno (sq (Y + int k)) pkt, rx_srctime = t,
        rx_drop = \<lparr>dr_begin = p_seq (q ! k), dr_end = e, dr_msgno = p_msgno (q ! k)\<rparr>\<rparr>, s') \<and> sb_sim pl (q, c') s'"
proof -
  define j where "j = msg_end q (p_msgno (q ! k)) (Suc k)"
  note j = followed_end [OF f, folded j_def]
  have seq: "p_seq (q ! k) = sq (Y + int k)" "p_seq (q ! j) = sq (Y + int j)" "int (length q) < 2 ^ 31" using f j by (simp_all add: followed_def)
  define e where "e = incseq_by (p_seq (q ! k)) (int (j - k) - 1)"
  obtain R where R: "snd_ok R q c s" using s by (auto simp: sb_sim_def)
  have "b_iSeqNo (sb_blocks s ! (R ! j)) = sq (Y + int j)"
    using snd_ok_block(1) [OF R j(2)] seq(2) by (metis abs_block_def spkt.select_convs(1))
  moreover have "e = sq (Y + int j - 1)"
    using incseq_by_sq [of "int (j - k) - 1" "Y + int k"] j seq by (simp add: e_def of_nat_diff algebra_simps)
  ultimately have e: "e = decseq (b_iSeqNo (sb_blocks s ! (R ! j)))" by simp
  define c' where "c' = (if k < c \<and> c < j then j else c)"
  have "getSeqNo (set_seqno (sq (Y + int k)) pkt) = p_seq (q ! k)" by (simp add: seq getSeqNo_def set_seqno_def word_sq)
  then have "readData_rexmit (int k) n0 n1 (set_seqno (sq (Y + int k)) pkt) t no_range s =
      Some (\<lparr>rx_return = READ_DROP, rx_packet = set_seqno (sq (Y + int k)) pkt, rx_srctime = t,
        rx_drop = \<lparr>dr_begin = p_seq (q ! k), dr_end = e, dr_msgno = p_msgno (q ! k)\<rparr>\<rparr>, s\<lparr>sb_pCurrBlock := R ! c'\<rparr>)"
    using rexmit_drop [OF R, of "int k" "set_seqno (sq (Y + int k)) pkt" n0 j e n1 t no_range] j x j_def e_def e by (simp add: c'_def)
  moreover have "sb_sim pl (q, c') (s\<lparr>sb_pCurrBlock := R ! c'\<rparr>)"
    using snd_ok_curr [OF R, of c'] s R j(2) by (auto simp: sb_sim_def getMaxPacketLen_def c'_def snd_ok_def)
  ultimately show ?thesis by blast
qed

text \<open>The state in which the rounds go on.\<close>

definition stuck :: "int \<Rightarrow> spkt list \<Rightarrow> nat \<Rightarrow> int \<Rightarrow> (nat \<Rightarrow> int \<times> int) \<Rightarrow> CUDT \<Rightarrow> bool" where
  "stuck Y q k pl now u \<longleftrightarrow> followed Y q k \<and> (\<exists>c. sb_sim pl (q, c) (u_pSndBuffer u)) \<and> (\<forall>i. p_expired (fst (now i)) (q ! k))"

lemma stuck_never_returns:
  assumes "extractCleanRexmitPacket now seqno offset pkt ts u = Some y"
  shows "seqno = sq (Y + int k) \<longrightarrow> offset = int k \<longrightarrow> \<not> stuck Y q k pl now u"
  using assms
proof (rule extractCleanRexmitPacket.raw_induct
    [of "\<lambda>now seqno offset pkt ts u y. seqno = sq (Y + int k) \<longrightarrow> offset = int k \<longrightarrow> \<not> stuck Y q k pl now u", rotated], intro impI notI)
  fix f now seqno offset pkt ts u y
  assume IH: "\<And>now seqno offset pkt ts v y. f now seqno offset pkt ts v = Some y \<Longrightarrow>
        seqno = sq (Y + int k) \<longrightarrow> offset = int k \<longrightarrow> \<not> stuck Y q k pl now v"
    and y: "(let pkt = set_seqno seqno pkt in do {
         (r, b) \<leftarrow> readData_rexmit offset (fst (now 0)) (snd (now 0)) pkt ts no_range (u_pSndBuffer u);
         let u = u\<lparr>u_pSndBuffer := b\<rparr>;
         if rx_return r = READ_DROP then do {
           _ \<leftarrow> SRT_ASSERT (0 \<le> seqoff (dr_begin (rx_drop r)) (dr_end (rx_drop r)));
           let u = sendCtrl (CTRL_DROPREQ (dr_msgno (rx_drop r)) (dr_begin (rx_drop r)) (dr_end (rx_drop r))) u;
           l \<leftarrow> removeUpTo (dr_end (rx_drop r)) (u_pSndLossList u);
           f (\<lambda>i. now (Suc i)) seqno offset (rx_packet r) (rx_srctime r)
             (u\<lparr>u_pSndLossList := l, u_iSndCurrSeqNo := maxseq (u_iSndCurrSeqNo u) (dr_end (rx_drop r))\<rparr>) }
         else if rx_return r = READ_NONE then Some (0, rx_packet r, rx_srctime r, u)
         else Some (rx_return r, rx_packet r, rx_srctime r, u) }) = Some y"
    and h: "seqno = sq (Y + int k)" "offset = int k" "stuck Y q k pl now u"
  then obtain c where c: "followed Y q k" "sb_sim pl (q, c) (u_pSndBuffer u)" "\<forall>i. p_expired (fst (now i)) (q ! k)" by (auto simp: stuck_def)
  obtain e s' c' where s': "readData_rexmit (int k) (fst (now 0)) (snd (now 0)) (set_seqno (sq (Y + int k)) pkt) ts no_range (u_pSndBuffer u) =
      Some (\<lparr>rx_return = READ_DROP, rx_packet = set_seqno (sq (Y + int k)) pkt, rx_srctime = ts,
        rx_drop = \<lparr>dr_begin = p_seq (q ! k), dr_end = e, dr_msgno = p_msgno (q ! k)\<rparr>\<rparr>, s')" "sb_sim pl (q, c') s'"
    using expired_read_again [OF c(1,2) spec [OF c(3), of 0]] by blast
  obtain l m where "f (\<lambda>i. now (Suc i)) seqno offset (set_seqno (sq (Y + int k)) pkt) ts
      ((sendCtrl (CTRL_DROPREQ (p_msgno (q ! k)) (p_seq (q ! k)) e) (u\<lparr>u_pSndBuffer := s'\<rparr>))\<lparr>u_pSndLossList := l, u_iSndCurrSeqNo := m\<rparr>) = Some y"
    using y unfolding h(1,2) Let_def s'(1) by (auto simp: bind_eq_Some_conv)
  from IH [OF this] show False using h s'(2) c by (auto simp: stuck_def sendCtrl_def)
qed


text \<open>Two messages of one packet each, the first to live for one millisecond.\<close>

definition demo_expiring :: "(spkt list \<times> nat) \<times> CSndBuffer" where
  "demo_expiring = the (checked_run sb_ok sb_do (sb_next 2)
     [AddBuffer demo_block (\<lambda>_. ALLOC_OK) 7 [1, 2] 2 (demo_ctrl\<lparr>mc_msgttl := 1\<rparr>), AddBuffer demo_block (\<lambda>_. ALLOC_OK) 7 [3] 1 (demo_ctrl\<lparr>mc_pktseq := 0\<rparr>),
      ReadData 0 (\<lambda>_. 8) (demo_packet 0), ReadData 0 (\<lambda>_. 8) (demo_packet 0)] ([], 0) demo_buffer)"

lemma demo_expiring_run: "checked_run sb_ok sb_do (sb_next 2)
     [AddBuffer demo_block (\<lambda>_. ALLOC_OK) 7 [1, 2] 2 (demo_ctrl\<lparr>mc_msgttl := 1\<rparr>), AddBuffer demo_block (\<lambda>_. ALLOC_OK) 7 [3] 1 (demo_ctrl\<lparr>mc_pktseq := 0\<rparr>),
      ReadData 0 (\<lambda>_. 8) (demo_packet 0), ReadData 0 (\<lambda>_. 8) (demo_packet 0)] ([], 0) demo_buffer = Some demo_expiring"
  by code_simp



definition demo_scheduled :: CUDT where
  "demo_scheduled = snd (the (snd_do demo_cf demo_send (snd (the (snd_do demo_cf demo_send demo_start)))))"

text \<open>What an acknowledgement leaves: its result, whether the connection is broken, how many packets the buffer holds, how many are taken to be in flight,
  and whether the next packet can be sent.\<close>

definition after_ack :: "CPacket \<Rightarrow> (bool \<times> bool \<times> int \<times> int \<times> bool) option" where
  "after_ack p = do {
     (r, u) \<leftarrow> processCtrlAck demo_cf p 4000 False demo_scheduled;
     (out, _) \<leftarrow> snd_do demo_cf (demo_pack 5000) u;
     Some (r, u_bBroken u, getCurrBufSize (u_pSndBuffer u), getFlightSpan u, case out of OutPacket q \<Rightarrow> True | _ \<Rightarrow> False) }"


text \<open>A full window blocks retransmission when new packets have priority.  With late packet dropping and the message interface, a packet that waits to be sent
  for the first time keeps \<^verbatim>\<open>packData\<close> from trying a retransmission; if the window is full it cannot be sent either, so nothing is sent at all, no matter what the loss
  list holds.\<close>

theorem full_window_blocks_rexmit:
  assumes "cf_bPeerTLPktDrop cf" and "cf_bMessageAPI cf" and "peekNextOriginal (u_pSndBuffer u) = Some t0" and "t0 \<noteq> 0"
    and "min (u_iFlowWindowSize u) (u_iCongestionWindow u) \<le> getFlightSpan u"
  shows "\<exists>u'. packData cf ck now stamp t pkt u = Some (False, t, pkt, u') \<and> u_pSndLossList u' = u_pSndLossList u \<and> u_pSndBuffer u' = u_pSndBuffer u"
proof -
  have "isRegularSendingPriority cf v = Some True" "packUniqueData cf now stamp pkt v = Some (False, pkt, v)"
    if "u_pSndBuffer v = u_pSndBuffer u" "window v = window u" "getFlightSpan v = getFlightSpan u" for v
    using assms that by (simp_all add: isRegularSendingPriority_def packUniqueData_def window_def)
  then show ?thesis by (auto simp: packData_def pick_packet_def Let_def window_def getFlightSpan_def)
qed

definition demo_drop_cf :: snd_config where
  "demo_drop_cf = demo_cf\<lparr>cf_bPeerTLPktDrop := True\<rparr>"

theorem full_window_blocks_rexmit_witness:
  "\<exists>u'. packData demo_drop_cf demo_clock (\<lambda>_. 3025) 3025 3025 (demo_packet 0) ((snd demo_packed)\<lparr>u_iFlowWindowSize := 1\<rparr>) =
     Some (False, 3025, demo_packet 0, u') \<and> u_pSndBuffer u' = u_pSndBuffer (snd demo_packed)"
proof -
  let ?u = "(snd demo_packed)\<lparr>u_iFlowWindowSize := 1\<rparr>"
  have "cf_bPeerTLPktDrop demo_drop_cf" "cf_bMessageAPI demo_drop_cf" "peekNextOriginal (u_pSndBuffer ?u) = Some 2000"
    "min (u_iFlowWindowSize ?u) (u_iCongestionWindow ?u) \<le> getFlightSpan ?u" by code_simp+
  from full_window_blocks_rexmit [OF this(1-3) _ this(4), of demo_clock "\<lambda>_. 3025" 3025 3025 "demo_packet 0"] show ?thesis by auto
qed

end
