(* ===== verification/EndToEnd.thy ===== *)
theory EndToEnd
  imports SndCoreProps RcvProps
begin

text \<open>
  A sender, the datagrams and a receiver buffer together: the packets that the sending side of a connection
  puts on the wire are a framed stream for the receiver buffer of the peer, so what the receiver
  delivers is what was given to the sender.
\<close>

unbundle bit_operations_syntax

section \<open>The message word\<close>

text \<open>What a receiver reads from the message word of a packet.\<close>

lemma unwrap_and_1: "bits_unwrap 31 30 w AND 1 \<noteq> 0 \<longleftrightarrow> bit w 30"
proof -
  have "bit (bits_unwrap 31 30 w AND 1) n \<longleftrightarrow> n = 0 \<and> bit w 30" for n by (auto simp: bit_unwrap bit_simps)
  then show ?thesis by (metis bit_0_eq bot_apply bit_eqI bot_bool_def)
qed

lemma bit_two: "bit (2 :: u32) n \<longleftrightarrow> n = 1"
  using bit_exp_iff [where 'a = u32, of 1 n] by auto

lemma unwrap_and_2: "bits_unwrap 31 30 w AND 2 \<noteq> 0 \<longleftrightarrow> bit w 31"
proof -
  have "bit (bits_unwrap 31 30 w AND 2) n \<longleftrightarrow> n = 1 \<and> bit w 31" for n
    unfolding bit_and_iff bit_two bit_unwrap by (cases "n = 1") simp_all
  then show ?thesis by (metis bit_0_eq bot_apply bit_eqI bot_bool_def)
qed

lemma unwrap_flag: "bits_unwrap 29 29 w \<noteq> 0 \<longleftrightarrow> bit w 29"
proof -
  have "bit (bits_unwrap 29 29 w) n \<longleftrightarrow> n = 0 \<and> bit w 29" for n by (auto simp: bit_unwrap)
  then show ?thesis by (metis bit_0_eq bot_apply bit_eqI bot_bool_def)
qed

lemma packet_word:
  "is_first p = bit (m_nHeader p SRT_PH_MSGNO) 31" "is_last p = bit (m_nHeader p SRT_PH_MSGNO) 30"
  "getMsgOrderFlag p = bit (m_nHeader p SRT_PH_MSGNO) 29"
  by (simp_all add: is_first_def is_last_def getMsgBoundary_def boundary_code_def unwrap_and_1 unwrap_and_2 getMsgOrderFlag_def unwrap_flag)

lemma msg_bits_fields:
  assumes "msgno_ok no" and "ord \<in> {0, BitsetMask 29 29}"
  shows "bit (msg_bits no ord i n) 31 \<longleftrightarrow> i = 0" "bit (msg_bits no ord i n) 30 \<longleftrightarrow> i = n - 1"
    "bit (msg_bits no ord i n) 29 \<longleftrightarrow> ord \<noteq> 0" "bits_unwrap 25 0 (msg_bits no ord i n) = word_of_int no"
proof -
  have hi: "\<not> bit (word_of_int no :: u32) m" if "26 \<le> m" for m
  proof -
    have "no div 2 ^ m = 0"
    proof (rule div_pos_pos_trivial)
      have "(2 :: int) ^ 26 \<le> 2 ^ m" using that by (rule power_increasing) simp
      then show "no < 2 ^ m" using assms(1) by (simp add: msgno_ok_def msgno_over_def)
    qed (use assms(1) in \<open>simp add: msgno_ok_def\<close>)
    then have "\<not> bit no m" by (simp add: bit_iff_odd)
    then show ?thesis by (simp add: bit_word_of_int_iff)
  qed
  have b: "bit (PacketBoundaryBits PB_FIRST) m \<longleftrightarrow> m = 31" "bit (PacketBoundaryBits PB_LAST) m \<longleftrightarrow> m = 30" for m
    unfolding PacketBoundaryBits_def boundary_code_def PacketBoundary.case bit_wrap bit_two by (auto simp: bit_1_iff)
  have o: "bit ord m \<longleftrightarrow> ord \<noteq> 0 \<and> m = 29" for m
  proof (cases "ord = 0")
    case False
    then have "ord = BitsetMask 29 29" using assms(2) by simp
    then show ?thesis using False by auto
  qed simp
  show "bit (msg_bits no ord i n) 31 \<longleftrightarrow> i = 0" "bit (msg_bits no ord i n) 30 \<longleftrightarrow> i = n - 1" "bit (msg_bits no ord i n) 29 \<longleftrightarrow> ord \<noteq> 0"
    by (auto simp: msg_bits_def bit_or_iff b o hi)
  show "bits_unwrap 25 0 (msg_bits no ord i n) = word_of_int no"
  proof (rule bit_word_eqI)
    fix m assume m: "m < LENGTH(32)"
    show "bit (bits_unwrap 25 0 (msg_bits no ord i n)) m = bit (word_of_int no :: u32) m"
    proof (cases "m \<le> 25")
      case True
      then show ?thesis using m by (auto simp: bit_unwrap msg_bits_def bit_or_iff b o)
    next
      case False
      then show ?thesis using hi [of m] by (simp add: bit_unwrap)
    qed
  qed
qed

section \<open>The stream of a connection\<close>

definition sent_of :: "spkt \<Rightarrow> sent" where
  "sent_of p = \<lparr>s_first = bit (p_bits p) 31, s_last = bit (p_bits p) 30, s_order = bit (p_bits p) 29,
     s_msgno = uint (bits_unwrap 25 0 (p_bits p)), s_data = p_data p\<rparr>"

text \<open>The packets of the history from \<open>I\<close> on; elsewhere the stream has packets that no message word describes.\<close>

definition stream :: "int \<Rightarrow> spkt list \<Rightarrow> int \<Rightarrow> sent" where
  "stream I H X = (if I \<le> X \<and> X < I + int (length H) then sent_of (H ! nat (X - I))
     else \<lparr>s_first = True, s_last = True, s_order = True, s_msgno = - 1, s_data = []\<rparr>)"

text \<open>The framing of a list of packets.\<close>

definition framed_list :: "spkt list \<Rightarrow> bool" where
  "framed_list H \<longleftrightarrow> (H \<noteq> [] \<longrightarrow> s_first (sent_of (hd H)) \<and> s_last (sent_of (last H))) \<and>
     (\<forall>k. Suc k < length H \<longrightarrow> s_first (sent_of (H ! Suc k)) = s_last (sent_of (H ! k)) \<and>
        (\<not> s_last (sent_of (H ! k)) \<longrightarrow> s_order (sent_of (H ! Suc k)) = s_order (sent_of (H ! k)) \<and>
           s_msgno (sent_of (H ! Suc k)) = s_msgno (sent_of (H ! k))))"

lemma framed_list_append:
  assumes A: "framed_list A" and B: "framed_list B"
  shows "framed_list (A @ B)"
proof (cases "A = [] \<or> B = []")
  case False
  then have ends: "s_last (sent_of (A ! (length A - 1)))" "s_first (sent_of (B ! 0))"
    using A B by (simp_all add: framed_list_def last_conv_nth hd_conv_nth)
  have "s_first (sent_of ((A @ B) ! Suc k)) = s_last (sent_of ((A @ B) ! k)) \<and>
        (\<not> s_last (sent_of ((A @ B) ! k)) \<longrightarrow> s_order (sent_of ((A @ B) ! Suc k)) = s_order (sent_of ((A @ B) ! k)) \<and>
           s_msgno (sent_of ((A @ B) ! Suc k)) = s_msgno (sent_of ((A @ B) ! k)))" if k: "Suc k < length (A @ B)" for k
  proof -
    consider "Suc k < length A" | "Suc k = length A" | "length A \<le> k" by linarith
    then show ?thesis
    proof cases
      case 1
      then show ?thesis using A by (simp add: framed_list_def nth_append)
    next
      case 2
      then have "k < length A" "k = length A - 1" by linarith+
      then have "(A @ B) ! Suc k = B ! 0" "(A @ B) ! k = A ! (length A - 1)" using 2 by (simp_all add: nth_append)
      then show ?thesis using ends by (metis (no_types))
    next
      case 3
      then have "Suc (k - length A) < length B" "(A @ B) ! Suc k = B ! Suc (k - length A)" "(A @ B) ! k = B ! (k - length A)"
        using k by (simp_all add: nth_append Suc_diff_le)
      then show ?thesis using B by (metis framed_list_def)
    qed
  qed
  then show ?thesis using A B False unfolding framed_list_def by (metis hd_append2 last_append append_is_Nil_conv)
qed (use A B in auto)

lemma message_sent:
  assumes "msgno_ok (mc_msgno m)" and "i < num_packets pl msg"
  shows "s_first (sent_of (message_packets pl m msg ! i)) \<longleftrightarrow> i = 0" "s_last (sent_of (message_packets pl m msg ! i)) \<longleftrightarrow> Suc i = num_packets pl msg"
    "s_order (sent_of (message_packets pl m msg ! i)) \<longleftrightarrow> mc_inorder m"
    "s_msgno (sent_of (message_packets pl m msg ! i)) = uint (word_of_int (mc_msgno m) :: u32)"
    "s_data (sent_of (message_packets pl m msg ! i)) = take (nat pl) (drop (i * nat pl) msg)"
proof -
  let ?o = "if mc_inorder m then BitsetMask 29 29 else 0"
  have o: "?o \<in> {0, BitsetMask 29 29}" by simp
  have z: "BitsetMask 29 29 \<noteq> 0" by code_simp
  have p: "message_packets pl m msg ! i = msg_pkt pl (num_packets pl msg) m msg i" using assms(2) by (simp add: message_packets_def)
  note f = msg_bits_fields [OF assms(1) o, of "int i" "int (num_packets pl msg)"]
  show "s_first (sent_of (message_packets pl m msg ! i)) \<longleftrightarrow> i = 0" "s_last (sent_of (message_packets pl m msg ! i)) \<longleftrightarrow> Suc i = num_packets pl msg"
    "s_order (sent_of (message_packets pl m msg ! i)) \<longleftrightarrow> mc_inorder m"
    "s_msgno (sent_of (message_packets pl m msg ! i)) = uint (word_of_int (mc_msgno m) :: u32)"
    "s_data (sent_of (message_packets pl m msg ! i)) = take (nat pl) (drop (i * nat pl) msg)"
    unfolding p sent_of_def msg_pkt_def sent.simps spkt.simps f using z assms(2) by auto
qed

lemma num_packets_pos: "msg \<noteq> [] \<Longrightarrow> 0 < pl \<Longrightarrow> 0 < num_packets pl msg"
  using num_packets_enough [of pl msg] by (cases "num_packets pl msg") auto

lemma framed_message:
  assumes "message_ok (m, msg)" and "0 < pl"
  shows "framed_list (message_packets pl m msg)"
proof -
  have ok: "msgno_ok (mc_msgno m)" and n: "0 < num_packets pl msg" using assms num_packets_pos by (simp_all add: message_ok_def)
  note s = message_sent [OF ok]
  have "message_packets pl m msg \<noteq> []" using n by (metis length_0_conv message_length less_irrefl)
  then have "hd (message_packets pl m msg) = message_packets pl m msg ! 0" "last (message_packets pl m msg) = message_packets pl m msg ! (num_packets pl msg - 1)"
    by (simp_all add: hd_conv_nth last_conv_nth)
  then show ?thesis using n s by (auto simp: framed_list_def)
qed

lemma framed_history: "list_all message_ok M \<Longrightarrow> 0 < pl \<Longrightarrow> framed_list (history pl M)"
proof (induction M)
  case (Cons x M)
  then show ?case using framed_message [of "fst x" "snd x" pl] by (cases x) (simp add: framed_list_append)
qed (simp add: framed_list_def)

lemma stream_framed:
  assumes "framed_list H"
  shows "framed (stream I H)"
  unfolding framed_def
proof (intro allI)
  fix X
  consider "X + 1 < I \<or> I + int (length H) \<le> X" | "X + 1 = I" "H \<noteq> []" | "X + 1 = I" "H = []" | "I \<le> X" "X + 1 < I + int (length H)"
    | "I \<le> X" "X + 1 = I + int (length H)" by linarith
  then show "s_first (stream I H (X + 1)) = s_last (stream I H X) \<and>
     (\<not> s_last (stream I H X) \<longrightarrow> s_order (stream I H (X + 1)) = s_order (stream I H X) \<and> s_msgno (stream I H (X + 1)) = s_msgno (stream I H X))"
  proof cases
    case 2
    then show ?thesis using assms by (auto simp: stream_def framed_list_def hd_conv_nth)
  next
    case 4
    define k where "k = nat (X - I)"
    have "nat (X + 1 - I) = Suc k" "Suc k < length H" "nat (X - I) = k" using 4 by (simp_all add: k_def)
    then show ?thesis using 4 assms by (simp add: stream_def framed_list_def)
  next
    case 5
    then have "H \<noteq> []" "nat (X - I) = length H - 1" by auto
    then show ?thesis using 5 assms by (auto simp: stream_def framed_list_def last_conv_nth)
  qed (auto simp: stream_def)
qed

section \<open>Messages in the stream\<close>

text \<open>Every position of the history is a packet of one message.\<close>

lemma history_position:
  assumes "k < length (history pl M)"
  shows "\<exists>M1 m msg M2 j. M = M1 @ (m, msg) # M2 \<and> k = length (history pl M1) + j \<and> j < num_packets pl msg"
  using assms
proof (induction M arbitrary: k)
  case (Cons x M)
  obtain m msg where x: "x = (m, msg)" by (cases x)
  show ?case
  proof (cases "k < num_packets pl msg")
    case True
    then have "x # M = [] @ (m, msg) # M \<and> k = length (history pl []) + k \<and> k < num_packets pl msg" by (simp add: x)
    then show ?thesis by blast
  next
    case False
    then have "k - num_packets pl msg < length (history pl M)" using Cons.prems by (simp add: x)
    from Cons.IH [OF this] obtain M1 m' msg' M2 j where
      i: "M = M1 @ (m', msg') # M2" "k - num_packets pl msg = length (history pl M1) + j" "j < num_packets pl msg'" by blast
    then have "x # M = (x # M1) @ (m', msg') # M2 \<and> k = length (history pl (x # M1)) + j \<and> j < num_packets pl msg'"
      using False by (simp add: x)
    then show ?thesis using i(3) by blast
  qed
qed simp

lemma drop_chunks:
  assumes "j + n = num_packets pl msg" and "0 < pl"
  shows "concat (map (\<lambda>i. take (nat pl) (drop ((j + i) * nat pl) msg)) [0..<n]) = drop (j * nat pl) msg"
proof -
  have "concat (map (\<lambda>i. take (nat pl) (drop ((j + i) * nat pl) msg)) [0..<n]) =
      concat (map (\<lambda>i. take (nat pl) (drop (i * nat pl) (drop (j * nat pl) msg))) [0..<n])"
    by (simp add: add_mult_distrib add.commute)
  also have "\<dots> = take (n * nat pl) (drop (j * nat pl) msg)" by (rule concat_chunks)
  also have "\<dots> = drop (j * nat pl) msg"
  proof (rule take_all)
    have "length msg \<le> (j + n) * nat pl" using num_packets_enough [OF assms(2), of msg] assms(1) by simp
    then show "length (drop (j * nat pl) msg) \<le> n * nat pl" by (simp add: add_mult_distrib)
  qed
  finally show ?thesis .
qed

lemma stream_at: "k < length H \<Longrightarrow> stream I H (I + int k) = sent_of (H ! k)"
  by (simp add: stream_def)

text \<open>The packets from a position of the stream up to the next end of a message are the rest of that message.\<close>

lemma stream_rest:
  assumes M: "list_all message_ok M" and pl: "0 < pl" and k: "k < length (history pl M)"
    and nl: "\<forall>i < n. \<not> s_last (stream I (history pl M) (I + int k + int i))" and l: "s_last (stream I (history pl M) (I + int k + int n))"
  shows "\<exists>m msg j. (m, msg) \<in> set M \<and> j < num_packets pl msg \<and>
    concat (map (\<lambda>i. s_data (stream I (history pl M) (I + int k + int i))) [0..<Suc n]) = drop (j * nat pl) msg \<and>
    (s_first (stream I (history pl M) (I + int k)) \<longrightarrow> j = 0)"
proof -
  let ?H = "history pl M"
  obtain M1 m msg M2 j where p: "M = M1 @ (m, msg) # M2" "k = length (history pl M1) + j" "j < num_packets pl msg"
    using history_position [OF k] by blast
  have ok: "msgno_ok (mc_msgno m)" using M p(1) by (simp add: message_ok_def)
  have at: "stream I ?H (I + int k + int i) = sent_of (message_packets pl m msg ! (j + i))" if "j + i < num_packets pl msg" for i
  proof -
    have "k + i < length ?H" "?H ! (k + i) = message_packets pl m msg ! (j + i)" using that p by (simp_all add: nth_append)
    then show ?thesis using stream_at [of "k + i" ?H I] by (simp add: add.assoc)
  qed
  note s = message_sent [OF ok]
  define r where "r = num_packets pl msg - 1 - j"
  have r: "j + r < num_packets pl msg" "Suc (j + r) = num_packets pl msg" using p(3) by (simp_all add: r_def)
  have "s_last (stream I ?H (I + int k + int r))" using at [OF r(1)] s(2) [OF r(1)] r(2) by simp
  then have "\<not> r < n" using nl by blast
  moreover have "\<not> n < r"
  proof
    assume "n < r"
    then have n: "j + n < num_packets pl msg" "Suc (j + n) \<noteq> num_packets pl msg" using r by simp_all
    then show False using at [OF n(1)] s(2) [OF n(1)] l by simp
  qed
  ultimately have "n = r" by simp
  then have d: "concat (map (\<lambda>i. s_data (stream I ?H (I + int k + int i))) [0..<Suc n]) =
      concat (map (\<lambda>i. take (nat pl) (drop ((j + i) * nat pl) msg)) [0..<Suc n])"
    using at s(5) r by (intro arg_cong [of _ _ concat] map_cong) auto
  have "concat (map (\<lambda>i. take (nat pl) (drop ((j + i) * nat pl) msg)) [0..<Suc n]) = drop (j * nat pl) msg"
    using r(2) \<open>n = r\<close> by (intro drop_chunks pl) simp
  moreover have "s_first (stream I ?H (I + int k)) \<longrightarrow> j = 0" using at [of 0] s(1) [OF p(3)] p(3) by simp
  ultimately show ?thesis using p d by (intro exI [of _ m] exI [of _ msg] exI [of _ j]) simp
qed

section \<open>The wire\<close>

text \<open>The packet as it arrives: the same header, and the payload without the rest of the sender's block.\<close>

definition arrived :: "CPacket \<Rightarrow> CPacket" where
  "arrived p = p\<lparr>m_pcData := take (m_Length p) (m_pcData p)\<rparr>"

lemma data_arrives:
  assumes "\<not> isControl p" and "m_Length p \<le> length (m_pcData p)"
  shows "\<exists>d. chan_send p = Some d \<and> chan_recv d = Some (RST_OK (arrived p))"
proof -
  have "packet_ok (arrived p)" using assms(2) by (simp add: arrived_def packet_ok_def)
  then obtain d where d: "chan_send (arrived p) = Some d" "chan_recv d = Some (RST_OK (arrived p))" using chan_inverse by blast
  have "\<not> isControl (arrived p)" using assms(1) by (simp add: arrived_def isControl_def)
  then have "chan_send (arrived p) = chan_send p" using assms
    by (simp add: chan_send_def toNetworkByteOrder_def swap_header_def arrived_def)
  then show ?thesis using d by (intro exI [of _ d]) simp
qed

lemma transmits_data: "transmits h p \<Longrightarrow> p_seq h = sq X \<Longrightarrow> \<not> isControl p"
proof -
  assume "transmits h p" "p_seq h = sq X"
  then have w: "m_nHeader p SRT_PH_SEQNO = word_of_int (sq X)" by (simp add: transmits_def)
  have "sq X div 2 ^ 31 = 0" using sq_range [of X] by (simp add: div_pos_pos_trivial)
  then have "\<not> bit (sq X) 31" by (simp add: bit_iff_odd)
  then have "bits_unwrap 31 31 (word_of_int (sq X) :: u32) = 0"
    by (intro bit_word_eqI) (auto simp: bit_unwrap bit_word_of_int_iff)
  then show ?thesis by (simp add: isControl_def w)
qed

lemma transmits_carries:
  assumes t: "transmits (H ! k) p" and k: "k < length H" and seq: "p_seq (H ! k) = sq (I + int k)" and b: "m_bPeerRexmitFlag b"
  shows "carries b (stream I H) (I + int k) (arrived p)"
proof -
  let ?w = "m_nHeader p SRT_PH_MSGNO"
  have w: "?w = p_bits (H ! k) \<or> ?w = p_bits (H ! k) OR BitsetMask 26 26" using t by (simp add: transmits_def)
  have bits: "bit ?w n = bit (p_bits (H ! k)) n" if "n \<noteq> 26" for n using w that by (auto simp: bit_or_iff)
  have "bits_unwrap 25 0 ?w = bits_unwrap 25 0 (p_bits (H ! k))" by (intro bit_word_eqI) (auto simp: bit_unwrap bits)
  moreover have "getSeqNo p = sq (I + int k)" using t seq by (simp add: transmits_def getSeqNo_def word_sq)
  moreover have "take (m_Length p) (m_pcData p) = p_data (H ! k)" "m_Length p = length (p_data (H ! k))"
    using t unfolding transmits_def by blast+
  ultimately show ?thesis using b bits
    by (simp add: carries_def stream_at [OF k] sent_of_def packet_word rb_msgseq_def getMsgSeq_def arrived_def getSeqNo_def)
qed

text \<open>Only packets of the history are carried.\<close>

lemma carries_in_history: "carries b (stream I H) X p \<Longrightarrow> I \<le> X \<and> X < I + int (length H)"
proof (rule ccontr)
  assume c: "carries b (stream I H) X p" and n: "\<not> (I \<le> X \<and> X < I + int (length H))"
  have "uint (getMsgSeq (m_bPeerRexmitFlag b) p) = s_msgno (stream I H X)" using c by (simp add: carries_def rb_msgseq_def)
  then have "uint (getMsgSeq (m_bPeerRexmitFlag b) p) = - 1" using n by (simp add: stream_def)
  then show False using uint_ge_0 [of "getMsgSeq (m_bPeerRexmitFlag b) p"] by linarith
qed

lemma delivered_from_history:
  assumes M: "list_all message_ok M" and pl: "0 < pl" and inv: "rb_inv Q (stream I (history pl M)) B b"
    and m: "message_at B (stream I (history pl M)) b k n"
  shows "\<exists>m msg j. (m, msg) \<in> set M \<and> j < num_packets pl msg \<and> message_bytes (stream I (history pl M)) B k n = drop (j * nat pl) msg \<and>
    (s_first (sn (stream I (history pl M)) B k) \<longrightarrow> j = 0)"
proof -
  let ?S = "stream I (history pl M)"
  have kn: "k < m_szSize b" "pk b k \<noteq> None" using m by (auto simp: message_at_def dest: spec [of _ 0])
  then obtain p where "carries b ?S (B + int k) p" using content_pk [OF rb_invD(1) [OF inv] kn(1)] by auto
  note c = carries_in_history [OF this]
  define i where "i = nat (B + int k - I)"
  have i: "B + int k = I + int i" "i < length (history pl M)" using c by (simp_all add: i_def) linarith
  have sn: "sn ?S B (k + j) = ?S (I + int i + int j)" for j using i(1) by (simp add: sn_def add.assoc [symmetric])
  have "\<forall>j < n. \<not> s_last (?S (I + int i + int j))" "s_last (?S (I + int i + int n))"
    using m sn by (simp_all add: message_at_def)
  from stream_rest [OF M pl i(2) this] obtain mc msg j where
    r: "(mc, msg) \<in> set M" "j < num_packets pl msg" "concat (map (\<lambda>x. s_data (?S (I + int i + int x))) [0..<Suc n]) = drop (j * nat pl) msg"
      "s_first (?S (I + int i)) \<longrightarrow> j = 0" by blast
  have "[k..<Suc (k + n)] = map (\<lambda>x. x + k) [0..<Suc n]" using map_add_upt [of k "Suc n"] by (simp add: add.commute del: upt_Suc)
  moreover have "sn ?S B (x + k) = ?S (I + int i + int x)" for x using sn [of x] by (simp add: add.commute)
  ultimately have "message_bytes ?S B k n = concat (map (\<lambda>x. s_data (?S (I + int i + int x))) [0..<Suc n])"
    unfolding message_bytes_def by (simp add: comp_def del: upt_Suc)
  moreover have "s_first (sn ?S B k) \<longrightarrow> j = 0" using r(4) sn [of 0] by simp
  ultimately show ?thesis using r by auto
qed

section \<open>From message to message\<close>

text \<open>C1: What is delivered is what was sent.  Take a connection whose sender has accepted the messages \<open>M\<close> and emitted the packets \<open>W\<close>, in whatever order it was asked to
  send and resend them, and the receiver buffer of the peer, made for the same first sequence number.  Every packet of \<open>W\<close> goes through the
  channel and arrives as a packet that the receiver buffer accepts as the one of the stream with its number.  After every sequence of calls on the receiver buffer, in which
  packets arrive in any order and any number of times, or not at all, and are read or dropped, \<^verbatim>\<open>readMessage\<close> delivers either nothing or one of the
  messages of \<open>M\<close>, cut to the length asked for; if the first packets of a message have been dropped, it may deliver the rest of that message.\<close>

theorem delivered_is_sent:
  assumes "sending cf sz I M W u" and "cfg_ok cf sz" and "0 < cf_iMaxDataPayloadSize cf"
    and "uq_ok q" and "2 \<le> rsz" and "int rsz < 2 ^ 29" and "CRcvBuffer_new (sq I) rsz q True = Some b"
  defines "pl \<equiv> cf_iMaxDataPayloadSize cf" and "S \<equiv> stream I (history (cf_iMaxDataPayloadSize cf) M)"
  shows "(\<forall>p \<in> set W. \<exists>k d. k < length (history pl M) \<and> chan_send p = Some d \<and> chan_recv d = Some (RST_OK (arrived p)) \<and>
      (\<forall>b. m_bPeerRexmitFlag b \<longrightarrow> carries b S (I + int k) (arrived p))) \<and>
    (\<exists>Q' B' b'. run_events (rb_exec S) ops (taken_units q, I, b) = Some (Q', B', b') \<and>
      (\<forall>len mc. \<exists>bytes mc' b''. readMessage len mc b' = Some (bytes, mc', b'') \<and>
        (bytes = [] \<or> (\<exists>m msg j. (m, msg) \<in> set M \<and> j < num_packets pl msg \<and> bytes = take len (drop (j * nat pl) msg) \<and>
           (s_first (S B') \<longrightarrow> j = 0)))))"
proof (intro conjI ballI)
  let ?H = "history pl M"
  obtain a c where ok: "core_ok cf sz I ?H a c u" and M: "list_all message_ok M" and W: "\<forall>p \<in> set W. on_wire ?H p"
    using sending_sim [OF assms(1-3)] by (auto simp: snd_sim_def pl_def)
  fix p assume "p \<in> set W"
  then obtain k where k: "k < length ?H" "transmits (?H ! k) p" using W by (auto simp: on_wire_def)
  have seq: "p_seq (?H ! k) = sq (I + int k)" using ok k(1) by (simp add: core_ok_def core_base_def hist_ok_def)
  have "m_Length p \<le> length (m_pcData p)" using k(2) unfolding transmits_def by blast
  from data_arrives [OF transmits_data [OF k(2) seq] this] transmits_carries [OF k(2,1) seq]
  show "\<exists>k d. k < length ?H \<and> chan_send p = Some d \<and> chan_recv d = Some (RST_OK (arrived p)) \<and>
      (\<forall>b. m_bPeerRexmitFlag b \<longrightarrow> carries b S (I + int k) (arrived p))" using k(1) by (auto simp: S_def pl_def)
next
  have M: "list_all message_ok M" using sending_sim [OF assms(1-3)] by (auto simp: snd_sim_def)
  have fr: "framed S" using stream_framed [OF framed_history [OF M assms(3)]] by (simp add: S_def)
  obtain Q' B' b' where r: "run_events (rb_exec S) ops (taken_units q, I, b) = Some (Q', B', b')" "rb_inv Q' S B' b'"
    using run_ok [OF fr new_inv(1) [OF assms(4-7)], of "{}" ops] by auto
  have "\<exists>bytes mc' b''. readMessage len mc b' = Some (bytes, mc', b'') \<and>
        (bytes = [] \<or> (\<exists>m msg j. (m, msg) \<in> set M \<and> j < num_packets pl msg \<and> bytes = take len (drop (j * nat pl) msg) \<and>
           (s_first (S B') \<longrightarrow> j = 0)))" for len mc
  proof (cases "\<not> hasReadableInorderPkts b' \<and> m_iFirstReadableOutOfOrder b' = - 1 \<and> readMessage len mc b' = Some ([], mc, b')")
    case False
    then obtain k n mc' b'' where k: "readMessage len mc b' = Some (take len (message_bytes S B' k n), mc', b'')" "message_at B' S b' k n"
      "k = 0 \<or> s_first (sn S B' k)" using readMessage_ok [OF r(2) fr, of len mc] by blast
    obtain m msg j where d: "(m, msg) \<in> set M" "j < num_packets pl msg" "message_bytes S B' k n = drop (j * nat pl) msg" "s_first (sn S B' k) \<longrightarrow> j = 0"
      using delivered_from_history [OF M assms(3) r(2) [unfolded S_def] k(2) [unfolded S_def]] unfolding S_def pl_def by blast
    have "s_first (S B') \<longrightarrow> s_first (sn S B' k)" using k(3) by (auto simp: sn_def)
    then have "s_first (S B') \<longrightarrow> j = 0" using d(4) by blast
    then show ?thesis using k(1) d(1,2) unfolding d(3) by blast
  qed blast
  then show "\<exists>Q' B' b'. run_events (rb_exec S) ops (taken_units q, I, b) = Some (Q', B', b') \<and>
      (\<forall>len mc. \<exists>bytes mc' b''. readMessage len mc b' = Some (bytes, mc', b'') \<and>
        (bytes = [] \<or> (\<exists>m msg j. (m, msg) \<in> set M \<and> j < num_packets pl msg \<and> bytes = take len (drop (j * nat pl) msg) \<and>
           (s_first (S B') \<longrightarrow> j = 0))))" using r(1) by blast
qed

text \<open>The packets of the connection above arrive in the wrong order, the first one twice.\<close>

definition demo_receiver :: CRcvBuffer where
  "demo_receiver = the (CRcvBuffer_new (sq 0x7FFFFFFF) 8 RcvProps.demo_queue True)"

definition demo_arrivals :: "rb_op list" where
  "demo_arrivals = (let W = snd (fst demo_sent) in
     [Arrive True (SndBufProps.demo_packet 0) (0x7FFFFFFF + 1) (arrived (W ! 1)), Arrive True (SndBufProps.demo_packet 0) 0x7FFFFFFF (arrived (W ! 2)),
      Arrive True (SndBufProps.demo_packet 0) 0x7FFFFFFF (arrived (W ! 0))])"

definition demo_delivered :: "byte list option" where
  "demo_delivered = do {
     (Q, B, b) \<leftarrow> run_events (rb_exec (stream 0x7FFFFFFF (history 4 (fst (fst demo_sent))))) demo_arrivals ({}, 0x7FFFFFFF, demo_receiver);
     map_option fst (readMessage 100 None b) }"

lemma demo_receiver_new: "CRcvBuffer_new (sq 0x7FFFFFFF) 8 RcvProps.demo_queue True = Some demo_receiver"
  by (simp add: demo_receiver_def CRcvBuffer_new_def)

theorem delivered_is_sent_witness:
  "\<exists>Q' B' b' bytes mc' b''. run_events (rb_exec (stream 0x7FFFFFFF (history 4 (fst (fst demo_sent))))) demo_arrivals ({}, 0x7FFFFFFF, demo_receiver) = Some (Q', B', b') \<and>
     readMessage 100 None b' = Some (bytes, mc', b'') \<and> bytes = [1, 2, 3, 4, 5, 6] \<and> (\<exists>m msg j. (m, msg) \<in> set (fst (fst demo_sent)) \<and> bytes = take 100 (drop (j * 4) msg))"
proof -
  have pl: "cf_iMaxDataPayloadSize demo_cf = 4" by code_simp
  have d: "demo_delivered = Some [1, 2, 3, 4, 5, 6]" by code_simp
  obtain Q' B' b' where r: "run_events (rb_exec (stream 0x7FFFFFFF (history 4 (fst (fst demo_sent))))) demo_arrivals ({}, 0x7FFFFFFF, demo_receiver) = Some (Q', B', b')"
    "\<forall>len mc. \<exists>bytes mc' b''. readMessage len mc b' = Some (bytes, mc', b'') \<and>
        (bytes = [] \<or> (\<exists>m msg j. (m, msg) \<in> set (fst (fst demo_sent)) \<and> j < num_packets 4 msg \<and> bytes = take len (drop (j * nat 4) msg)))"
    using delivered_is_sent [OF demo_sending demo_cfg RcvProps.demo_queue_ok(1) _ _ demo_receiver_new, of demo_arrivals]
    unfolding pl RcvProps.demo_queue_ok(2) by fastforce
  from r(2) obtain bytes mc' b'' where b: "readMessage 100 None b' = Some (bytes, mc', b'')"
    "bytes = [] \<or> (\<exists>m msg j. (m, msg) \<in> set (fst (fst demo_sent)) \<and> j < num_packets 4 msg \<and> bytes = take 100 (drop (j * nat 4) msg))" by blast
  have "bytes = [1, 2, 3, 4, 5, 6]" using d r(1) b(1) by (simp add: demo_delivered_def)
  then show ?thesis using r(1) b by auto
qed

end
