(* ===== verification/Spec2Isabelle.thy ===== *)
theory Spec2Isabelle
  imports SeqNo SndLossList SrtlaProps FreshLoss Tsbpd RcvProps SndCoreEdge EndToEnd
begin

text \<open>
  This library verifies parts of the SRT library with SRTLA reception: the sources under
  \<^verbatim>\<open>src/srtcore\<close>.  SRT carries messages or a stream of bytes over UDP.  The sending side of
  a socket cuts each message into packets, numbers them, keeps them until they are acknowledged and
  sends them again when they are reported lost.  The receiving side puts the packets back in order
  in a ring of entries, delivers each message at its time, and reports what is missing.  The SRTLA
  receiver stands between the UDP socket and the receiving queue.  It gathers the datagrams of a sender that
  uses several links at once, and copies acknowledgements and loss reports to all its links.

  \<^bold>\<open>Reading the code.\<close>  A class is a record and a method a function from its state to a new state.
  A memory access outside an object, a failed \<^verbatim>\<open>SRT_ASSERT\<close>, an exception nobody expects and a
  loop that never ends are all \<^term>\<open>None\<close>; so a theorem that a call gives \<^term>\<open>Some\<close> says that
  it is memory safe, fails no assertion and returns.  Errors that the code reports are values:
  return codes, or the left side of a sum type.  Loops are structural recursion where the source counts,
  and \<^theory_text>\<open>partial_function (option)\<close> where it follows links or positions; there is no
  fuel.  Clock readings, random bytes, the success of allocations and the contents of fresh memory are arguments, and
  the theorems hold for all of them.  A method that holds its object's mutex is one atomic step.  Signed
  integers are mathematical ones; 32-bit words of packet headers are \<^verbatim>\<open>32 word\<close>.  Sequence numbers are
  circular with 31 bits: \<open>sq X\<close> is the number of the unwrapped position \<open>X\<close>, and the
  theorems speak of unwrapped positions, so they hold across any number of wraps.

  \<^bold>\<open>The theories.\<close>
    \<^item> \<open>Prelude\<close>, \<open>Simul\<close>, \<open>Intervals\<close>: runs of events and the locale \<open>safe_component\<close> (an
      invariant every admissible event keeps), the locale \<open>simulation\<close> (a relation to an abstract
      state every admissible call keeps), and lists of intervals.
    \<^item> \<open>SeqNo\<close> (\<^verbatim>\<open>common.h\<close>: \<^verbatim>\<open>CSeqNo\<close>, \<^verbatim>\<open>CAckNo\<close>, \<^verbatim>\<open>RollNumber\<close>): the circular operations
      agree with integer arithmetic on unwrapped numbers closer than the threshold, and stay in 32 bits.
    \<^item> \<open>SndLossList\<close> (\<^verbatim>\<open>list.cpp\<close>: \<^verbatim>\<open>CSndLossList\<close>): every sequence of calls within a window
      of the array's size implements a set of numbers (the locale \<open>loss_store\<close>, interpreted on
      the list).
    \<^item> \<open>FreshLoss\<close> (\<^verbatim>\<open>list.cpp\<close>: \<^verbatim>\<open>CRcvFreshLoss\<close>, \<^verbatim>\<open>srtlaPlanNak\<close>): removing a number is exact;
      the plan of a loss report takes only records that are due, fits the packet and makes progress.
    \<^item> \<open>Packet\<close> (\<^verbatim>\<open>packet.h\<close>, \<^verbatim>\<open>packet.cpp\<close>, \<^verbatim>\<open>utilities.h\<close>, \<^verbatim>\<open>channel.cpp\<close>): header fields,
      control packets and the wire form, which a round trip through the channel leaves unchanged.
    \<^item> \<open>SrtlaRec\<close>, \<open>SrtlaProps\<close> (\<^verbatim>\<open>srtla_rec.cpp\<close>): registration, ingress, egress, binding, timeouts, duplicate
      suppression and statistics; under every sequence of events the registry stays consistent.
    \<^item> \<open>Tsbpd\<close> (\<^verbatim>\<open>tsbpd_time.cpp\<close>, \<^verbatim>\<open>utilities.h\<close>): the unwrapping of 32-bit timestamps and the drift tracer.
    \<^item> \<open>UnitQueue\<close> (\<^verbatim>\<open>queue.cpp\<close>: \<^verbatim>\<open>CUnitQueue\<close>): the pool of units gives out free units only.
    \<^item> \<open>RcvBuffer\<close> (\<^verbatim>\<open>buffer_rcv.cpp\<close>) is the code of the receiver buffer.  \<open>RcvRing\<close>,
      \<open>RcvContent\<close>, \<open>RcvSearch\<close>, \<open>RcvOps\<close>, \<open>RcvRead\<close>, \<open>RcvDrop\<close> build its invariant up from the
      ring through its contents (a window on the stream the peer sent) to the operations;
      \<open>RcvRun\<close> and \<open>RcvProps\<close> carry it to all runs.
    \<^item> \<open>SndBuffer\<close> (\<^verbatim>\<open>buffer_snd.cpp\<close>) is the code of the sender buffer; \<open>SndRing\<close>, \<open>SndOps\<close>,
      \<open>SndBufProps\<close> show that it is a queue with a sending mark (interpretation \<open>sndbuf\<close> of \<open>simulation\<close>).
    \<^item> \<open>SndCore\<close> (\<^verbatim>\<open>core.cpp\<close>) is the sending side of \<^verbatim>\<open>CUDT\<close>: \<^verbatim>\<open>sendmsg2\<close>, \<^verbatim>\<open>packData\<close>,
      \<^verbatim>\<open>processCtrlAck\<close>, \<^verbatim>\<open>processCtrlLossReport\<close>, \<^verbatim>\<open>checkRexmitTimer\<close> and what they call.  \<open>SndCoreInv\<close> is its
      invariant, \<open>SndCoreProps\<close> its reachable states (interpretation \<open>sender\<close> of \<open>simulation\<close>), \<open>SndCoreEdge\<close> the pacing, the
      timer and runs outside the admissible events.
    \<^item> \<open>EndToEnd\<close> composes sender, channel and receiver buffer: what \<^verbatim>\<open>readMessage\<close> delivers
      is what \<^verbatim>\<open>sendmsg2\<close> was given.

  \<^bold>\<open>Conditions.\<close>  The theorems on the receiver buffer are for message mode, with fewer than \<open>2 ^ 29\<close>
  entries and arriving packets that belong to a framed stream (messages one after the other, all packets of a
  message with its number and flags) and whose numbers lie less than the threshold \<open>2 ^ 30 - 1\<close> from the buffer's start.
  The theorems on the sending side are for messages without
  a time to live, acknowledgements of sent packets, and acknowledgement packets that are not five words
  long; the runs in \<open>SndCoreProps\<close> and \<open>SndCoreEdge\<close> show what happens otherwise.

  \<^bold>\<open>Not modelled.\<close>
    \<^item> The rest of \<^verbatim>\<open>CUDT\<close>: handshake, connecting and closing, the receiving threads, encryption, groups,
      files, blocking calls.  They work through condition variables, threads and the operating system more than through data.
    \<^item> \<^verbatim>\<open>api.cpp\<close>, \<^verbatim>\<open>epoll.cpp\<close>, \<^verbatim>\<open>sync*.cpp\<close>, the queues' worker threads: concurrency and system calls.
    \<^item> \<^verbatim>\<open>congctl.cpp\<close>, \<^verbatim>\<open>window.cpp\<close>, \<^verbatim>\<open>buffer_tools.cpp\<close>, \<^verbatim>\<open>stats.h\<close>: estimates and statistics in floating
      point; the sending side takes the window and the sending interval they decide on as given.
    \<^item> \<^verbatim>\<open>fec.cpp\<close>, \<^verbatim>\<open>packetfilter.cpp\<close>, \<^verbatim>\<open>crypto.cpp\<close>, \<^verbatim>\<open>haicrypt\<close>: optional layers that the modelled
      configuration does not use; the ciphers are in third-party libraries.
    \<^item> Applications, examples, logging and the C interface.
\<close>

end
